(* ===== verification/Prelude.thy ===== *)
theory Prelude
  imports Main "HOL-Library.Word"
begin

text \<open>
  What every component of the development shares: the Go run-time panics and the result type of
  code that may panic, its sequencing and its loops, machine-integer abbreviations, the fixed
  copy into an array, and lemmas on sorted association lists and on filtered counts.
\<close>

section \<open>Panics as values\<close>

text \<open>
  A Go expression that indexes out of range, slices out of range, follows a nil pointer or asserts
  the wrong dynamic type panics and takes the daemon down.  A definition that models such code
  returns \<open>Inl\<close> of the panic; \<open>bind_res\<close> is the sequencing of statements: nothing after a
  panic runs.
\<close>

datatype go_panic = IndexOutOfRange | SliceBounds | NilDereference | TypeAssertion | MakeSliceLen

type_synonym 'a res = "go_panic + 'a"

definition bind_res :: "'a res \<Rightarrow> ('a \<Rightarrow> 'b res) \<Rightarrow> 'b res" where
  "bind_res m f = (case m of Inl e \<Rightarrow> Inl e | Inr x \<Rightarrow> f x)"

text \<open>A \<open>for ... range\<close> loop whose body may panic and which collects one value per element.\<close>

primrec map_res :: "('a \<Rightarrow> 'b res) \<Rightarrow> 'a list \<Rightarrow> 'b list res" where
  "map_res f [] = Inr []"
| "map_res f (x # xs) = bind_res (f x) (\<lambda>y. bind_res (map_res f xs) (\<lambda>ys. Inr (y # ys)))"

text \<open>A \<open>for ... range\<close> loop whose body may panic and which updates a state.\<close>

primrec fold_res :: "('a \<Rightarrow> 's \<Rightarrow> 's res) \<Rightarrow> 'a list \<Rightarrow> 's \<Rightarrow> 's res" where
  "fold_res f [] s = Inr s"
| "fold_res f (x # xs) s = bind_res (f x s) (fold_res f xs)"

type_synonym byte = "8 word"
type_synonym bytes = "8 word list"
type_synonym uint32 = "32 word"
type_synonym uint64 = "64 word"

text \<open>
  \<open>copy(dst, src)\<close> of Go into a zeroed destination of \<open>n\<close> bytes: the first \<open>n\<close> bytes of the
  source, the rest of the destination left zero.
\<close>

definition copy_zeroed :: "nat \<Rightarrow> bytes \<Rightarrow> bytes" where
  "copy_zeroed n src = take n (src @ replicate n 0)"

named_theorems res_simps "evaluation of the panic monad"
named_theorems wire_simps "lengths and shapes of encoded values"

section \<open>Laws of the panic monad\<close>

lemma bind_res_Inl [simp, res_simps]: "bind_res (Inl e) f = Inl e"
  by (simp add: bind_res_def)

lemma bind_res_Inr [simp, res_simps]: "bind_res (Inr x) f = f x"
  by (simp add: bind_res_def)

lemma bind_res_cong [fundef_cong]:
  "m = m' \<Longrightarrow> (\<And>x. m' = Inr x \<Longrightarrow> f x = f' x) \<Longrightarrow> bind_res m f = bind_res m' f'"
  by (auto simp: bind_res_def split: sum.splits)

lemma bind_res_eq_Inr [res_simps]: "bind_res m f = Inr y \<longleftrightarrow> (\<exists>x. m = Inr x \<and> f x = Inr y)"
  by (cases m) auto

lemma bind_res_eq_Inl [res_simps]:
  "bind_res m f = Inl e \<longleftrightarrow> m = Inl e \<or> (\<exists>x. m = Inr x \<and> f x = Inl e)"
  by (cases m) auto

lemma bind_res_assoc: "bind_res (bind_res m f) g = bind_res m (\<lambda>x. bind_res (f x) g)"
  by (cases m) auto

lemma map_res_Inr_pure: "(\<And>x. x \<in> set xs \<Longrightarrow> f x = Inr (g x)) \<Longrightarrow> map_res f xs = Inr (map g xs)"
  by (induction xs) auto

lemma map_res_length: "map_res f xs = Inr ys \<Longrightarrow> length ys = length xs"
  by (induction xs arbitrary: ys) (auto simp: res_simps)

lemma map_res_nth: "map_res f xs = Inr ys \<Longrightarrow> i < length xs \<Longrightarrow> f (xs ! i) = Inr (ys ! i)"
  by (induction xs arbitrary: ys i) (auto simp: res_simps nth_Cons' split: if_splits)

lemma map_res_returns: "(\<exists>ys. map_res f xs = Inr ys) \<longleftrightarrow> (\<forall>x \<in> set xs. \<exists>y. f x = Inr y)"
  by (induction xs) (auto simp: bind_res_def split: sum.splits)

lemma fold_res_append: "fold_res f (xs @ ys) s = bind_res (fold_res f xs s) (fold_res f ys)"
  by (induction xs arbitrary: s) (auto simp: bind_res_def split: sum.splits)

text \<open>The invariant rule of a loop that may panic: it neither panics nor leaves the invariant.\<close>

lemma fold_res_invariant:
  assumes "P s" and "\<And>x s. x \<in> set xs \<Longrightarrow> P s \<Longrightarrow> \<exists>s'. f x s = Inr s' \<and> P s'"
  shows "\<exists>s'. fold_res f xs s = Inr s' \<and> P s'"
  using assms
proof (induction xs arbitrary: s)
  case Nil
  then show ?case by simp
next
  case (Cons x xs)
  then obtain s' where "f x s = Inr s'" "P s'" by fastforce
  with Cons show ?case by fastforce
qed

lemma fold_res_keeps:
  assumes "fold_res f xs s = Inr s'" and "P s" and "\<And>x s s'. x \<in> set xs \<Longrightarrow> P s \<Longrightarrow> f x s = Inr s' \<Longrightarrow> P s'"
  shows "P s'"
  using assms
proof (induction xs arbitrary: s)
  case (Cons x xs)
  from Cons.prems(1) obtain t where t: "f x s = Inr t" "fold_res f xs t = Inr s'" by (auto simp: bind_res_eq_Inr)
  have "P t" using Cons.prems(2,3) t(1) by auto
  with Cons.IH [OF t(2)] Cons.prems(3) show ?case by auto
qed simp

section \<open>Copies and fixed arrays\<close>

lemma length_copy_zeroed [simp, wire_simps]: "length (copy_zeroed n src) = n"
  by (simp add: copy_zeroed_def)

lemma copy_zeroed_exact [simp, wire_simps]: "length src = n \<Longrightarrow> copy_zeroed n src = src"
  by (simp add: copy_zeroed_def)

section \<open>Strictly sorted association lists\<close>

abbreviation sorted_keys :: "('k::linorder \<times> 'v) list \<Rightarrow> bool" where
  "sorted_keys ps \<equiv> sorted_wrt (<) (map fst ps)"

lemma sorted_keys_distinct: "sorted_keys ps \<Longrightarrow> distinct (map fst ps)"
  by (induction ps) auto

lemma map_of_None_above: "\<forall>a \<in> fst ` set ps. x < (a::'k::linorder) \<Longrightarrow> map_of ps x = None"
  by (auto simp: map_of_eq_None_iff)

lemma map_of_None_below: "\<forall>a \<in> fst ` set ps. (a::'k::linorder) < x \<Longrightarrow> map_of ps x = None"
  by (auto simp: map_of_eq_None_iff)

lemma sorted_keys_mid:
  "sorted_keys (ps @ (a, b) # qs) \<longleftrightarrow>
     sorted_keys ps \<and> sorted_keys qs \<and> (\<forall>x \<in> fst ` set ps. x < a) \<and> (\<forall>x \<in> fst ` set qs. a < x)"
  by (auto simp: sorted_wrt_append intro: less_trans)

section \<open>Searching\<close>

lemma find_append: "find P (xs @ ys) = (case find P xs of None \<Rightarrow> find P ys | Some x \<Rightarrow> Some x)"
  by (induction xs) auto

section \<open>Words\<close>

lemma minus_uint_less [simp]: "- uint (w :: 'a::len word) < 2"
  using uint_nonnegative [of w] by linarith

end
