(* ===== verification/Transition.thy ===== *)
theory Transition
  imports Prelude
begin

text \<open>
  Runs of event-driven systems: a state, events that may be enabled in it, and a handler that returns
  the next state and outputs or panics.  The two locales are the contracts the components give: an
  invariant that every handler keeps, and a preorder along which every step moves.
\<close>

inductive runs ::
  "('e \<Rightarrow> 's \<Rightarrow> bool) \<Rightarrow> ('e \<Rightarrow> 's \<Rightarrow> ('s \<times> 'o list) res) \<Rightarrow> 's \<Rightarrow> 'e list \<Rightarrow> 'o list \<Rightarrow> 's \<Rightarrow> bool"
  for enabled handle where
  runs_nil: "runs enabled handle s [] [] s"
| runs_snoc: "runs enabled handle s es outs s' \<Longrightarrow> enabled e s' \<Longrightarrow> handle e s' = Inr (s'', outs') \<Longrightarrow>
    runs enabled handle s (es @ [e]) (outs @ outs') s''"

inductive_cases runs_snocE: "runs enabled handle s (es @ [e]) outs s'"

lemma runs_append:
  assumes "runs enabled handle s1 es1 outs1 s2" and "runs enabled handle s2 es2 outs2 s3"
  shows "runs enabled handle s1 (es1 @ es2) (outs1 @ outs2) s3"
  using assms(2,1)
proof (induction rule: runs.induct)
  case (runs_snoc s es outs s' e s'' outs')
  then have "runs enabled handle s1 (es1 @ es) (outs1 @ outs) s'" by blast
  from runs.runs_snoc [OF this runs_snoc.hyps(2,3)] show ?case by simp
qed simp

lemma runs_step:
  assumes "enabled e s" and "handle e s = Inr (s', outs)"
  shows "runs enabled handle s [e] outs s'"
  using runs.runs_snoc [where enabled = enabled and handle = handle and s = s and es = "[]" and outs = "[]", OF runs.runs_nil assms] by simp

lemma runs_Cons:
  assumes "enabled e s" and "handle e s = Inr (s', outs)" and "runs enabled handle s' es outs' s''"
  shows "runs enabled handle s (e # es) (outs @ outs') s''"
proof -
  have "runs enabled handle s [e] outs s'" by (rule runs_step) (fact assms)+
  from runs_append [OF this assms(3)] show ?thesis by simp
qed

locale invariant_system =
  fixes enabled :: "'e \<Rightarrow> 's \<Rightarrow> bool" and handle :: "'e \<Rightarrow> 's \<Rightarrow> ('s \<times> 'o list) res" and inv :: "'s \<Rightarrow> bool"
  assumes keeps: "inv s \<Longrightarrow> enabled e s \<Longrightarrow> handle e s = Inr (s', outs) \<Longrightarrow> inv s'"
begin

lemma runs_inv: "runs enabled handle s es outs s' \<Longrightarrow> inv s \<Longrightarrow> inv s'"
  by (induction rule: runs.induct) (auto intro: keeps)

end

locale monotone_system = invariant_system enabled handle inv
  for enabled :: "'e \<Rightarrow> 's \<Rightarrow> bool" and handle :: "'e \<Rightarrow> 's \<Rightarrow> ('s \<times> 'o list) res" and inv :: "'s \<Rightarrow> bool" +
  fixes below :: "'s \<Rightarrow> 's \<Rightarrow> bool"
  assumes below_refl: "below s s" and below_trans: "below s t \<Longrightarrow> below t u \<Longrightarrow> below s u"
    and climbs: "inv s \<Longrightarrow> enabled e s \<Longrightarrow> handle e s = Inr (s', outs) \<Longrightarrow> below s s'"
begin

lemma runs_below: "runs enabled handle s es outs s' \<Longrightarrow> inv s \<Longrightarrow> below s s'"
proof (induction rule: runs.induct)
  case (runs_snoc s es outs s' e s'' outs')
  with runs_inv have "inv s'" by blast
  with runs_snoc show ?case by (blast intro: climbs below_trans)
qed (rule below_refl)

end

end
