(* ===== verification/Avl.thy ===== *)
theory Avl
  imports Prelude
begin

text \<open>
  The AVL tree of \<^verbatim>\<open>src/avl.go\<close>, which both databases (\<^verbatim>\<open>UpdateDB\<close> and \<^verbatim>\<open>TopoDB\<close>) are built on.

  A \<^verbatim>\<open>*AvlNode\<close> is a value of the type \<open>avl\<close>: \<open>NilNode\<close> is the nil pointer.  The code keeps
  exactly one pointer to every node (the parent's field, or the root), so the in-place updates of
  fields are the rebuilding of the path from the root.  The data field is an interface value and may
  be nil: \<open>None\<close>.  The stored height is Go's \<^verbatim>\<open>int\<close>; \<open>height_bound\<close> below shows that the
  heights of a tree over 64-bit keys stay far away from overflow.  Following a nil pointer is the
  panic \<open>NilDereference\<close>; the theorems show that trees with the AVL invariant never get there.
\<close>

section \<open>The code\<close>

datatype 'd avl = NilNode | AvlNode uint64 "'d avl" "'d avl" "'d option" int

definition Max_int :: "int \<Rightarrow> int \<Rightarrow> int" where
  "Max_int a b = (if a > b then a else b)"

fun GetHeight :: "'d avl \<Rightarrow> int" where
  "GetHeight NilNode = 0"
| "GetHeight (AvlNode k l r d h) = h"

fun GetBalanceFactor :: "'d avl \<Rightarrow> int" where
  "GetBalanceFactor NilNode = 0"
| "GetBalanceFactor (AvlNode k l r d h) = GetHeight l - GetHeight r"

fun RotateRight :: "'d avl \<Rightarrow> 'd avl res" where
  "RotateRight NilNode = Inl NilDereference"
| "RotateRight (AvlNode k NilNode r d h) = Inl NilDereference"
| "RotateRight (AvlNode k (AvlNode yk yl T1 yd yh) r d h) =
     (let node = AvlNode k T1 r d (Max_int (GetHeight T1) (GetHeight r) + 1)
      in Inr (AvlNode yk yl node yd (Max_int (GetHeight yl) (GetHeight node) + 1)))"

fun RotateLeft :: "'d avl \<Rightarrow> 'd avl res" where
  "RotateLeft NilNode = Inl NilDereference"
| "RotateLeft (AvlNode k l NilNode d h) = Inl NilDereference"
| "RotateLeft (AvlNode k l (AvlNode yk T1 yr yd yh) d h) =
     (let node = AvlNode k l T1 d (Max_int (GetHeight l) (GetHeight T1) + 1)
      in Inr (AvlNode yk node yr yd (Max_int (GetHeight node) (GetHeight yr) + 1)))"

fun node_key :: "'d avl \<Rightarrow> uint64 res" where
  "node_key NilNode = Inl NilDereference"
| "node_key (AvlNode k l r d h) = Inr k"

text \<open>The second half of \<^verbatim>\<open>AvlInsert\<close>: the new height of the ancestor and the four rotations.\<close>

definition insert_rebalance ::
  "uint64 \<Rightarrow> uint64 \<Rightarrow> 'd avl \<Rightarrow> 'd avl \<Rightarrow> 'd option \<Rightarrow> 'd avl res" where
  "insert_rebalance key k l r d =
     (let h = 1 + Max_int (GetHeight l) (GetHeight r);
          root = AvlNode k l r d h;
          bf = GetBalanceFactor root
      in if bf > 1 then
           bind_res (node_key l) (\<lambda>lk.
             if key < lk then RotateRight root
             else if key > lk then
               bind_res (RotateLeft l) (\<lambda>l'. RotateRight (AvlNode k l' r d h))
             else Inr root)
         else if bf < -1 then
           bind_res (node_key r) (\<lambda>rk.
             if key > rk then RotateLeft root
             else if key < rk then
               bind_res (RotateRight r) (\<lambda>r'. RotateLeft (AvlNode k l r' d h))
             else Inr root)
         else Inr root)"

fun AvlInsert :: "'d avl \<Rightarrow> uint64 \<Rightarrow> 'd option \<Rightarrow> bool \<Rightarrow> 'd avl res" where
  "AvlInsert NilNode key data overwrite = Inr (AvlNode key NilNode NilNode data 1)"
| "AvlInsert (AvlNode k l r d h) key data overwrite =
     (if key = k then Inr (AvlNode k l r (if overwrite then data else d) h)
      else if key < k then
        bind_res (AvlInsert l key data overwrite) (\<lambda>l'. insert_rebalance key k l' r d)
      else
        bind_res (AvlInsert r key data overwrite) (\<lambda>r'. insert_rebalance key k l r' d))"

text \<open>The loop of \<^verbatim>\<open>AvlDelete\<close> that walks to the left-most node of the right subtree.\<close>

fun leftmost_key :: "'d avl \<Rightarrow> uint64 res" where
  "leftmost_key NilNode = Inl NilDereference"
| "leftmost_key (AvlNode k NilNode r d h) = Inr k"
| "leftmost_key (AvlNode k (AvlNode lk ll lr ld lh) r d h) =
     leftmost_key (AvlNode lk ll lr ld lh)"

text \<open>The second half of \<^verbatim>\<open>AvlDelete\<close>; here the rotation is chosen by the child's balance factor.\<close>

fun delete_rebalance :: "'d avl \<Rightarrow> 'd avl res" where
  "delete_rebalance NilNode = Inr NilNode"
| "delete_rebalance (AvlNode k l r d h0) =
     (let h = 1 + Max_int (GetHeight l) (GetHeight r);
          root = AvlNode k l r d h;
          bf = GetBalanceFactor root
      in if bf > 1 \<and> GetBalanceFactor l \<ge> 0 then RotateRight root
         else if bf > 1 \<and> GetBalanceFactor l < 0 then
           bind_res (RotateLeft l) (\<lambda>l'. RotateRight (AvlNode k l' r d h))
         else if bf < -1 \<and> GetBalanceFactor r \<le> 0 then RotateLeft root
         else if bf < -1 \<and> GetBalanceFactor r > 0 then
           bind_res (RotateRight r) (\<lambda>r'. RotateLeft (AvlNode k l r' d h))
         else Inr root)"

fun is_nil :: "'d avl \<Rightarrow> bool" where
  "is_nil NilNode = True"
| "is_nil (AvlNode k l r d h) = False"

text \<open>
  With two children the code copies the successor's key into the node and deletes the successor;
  the node keeps its own data.
\<close>

fun AvlDelete :: "'d avl \<Rightarrow> uint64 \<Rightarrow> 'd avl res" where
  "AvlDelete NilNode key = Inr NilNode"
| "AvlDelete (AvlNode k l r d h) key =
     bind_res
       (if key < k then bind_res (AvlDelete l key) (\<lambda>l'. Inr (AvlNode k l' r d h))
        else if key > k then bind_res (AvlDelete r key) (\<lambda>r'. Inr (AvlNode k l r' d h))
        else if is_nil l \<and> is_nil r then Inr NilNode
        else if is_nil l then Inr r
        else if is_nil r then Inr l
        else bind_res (leftmost_key r) (\<lambda>tmp_key.
               bind_res (AvlDelete r tmp_key) (\<lambda>r'. Inr (AvlNode tmp_key l r' d h))))
       delete_rebalance"

fun AvlSearch :: "'d avl \<Rightarrow> uint64 \<Rightarrow> 'd option" where
  "AvlSearch NilNode key = None"
| "AvlSearch (AvlNode k l r d h) key =
     (if k = key then d else if k > key then AvlSearch l key else AvlSearch r key)"

fun AvlUpdate :: "'d avl \<Rightarrow> uint64 \<Rightarrow> 'd option \<Rightarrow> 'd avl" where
  "AvlUpdate NilNode key newData = NilNode"
| "AvlUpdate (AvlNode k l r d h) key newData =
     (if k = key then AvlNode k l r newData h
      else if k > key then AvlNode k (AvlUpdate l key newData) r d h
      else AvlNode k l (AvlUpdate r key newData) d h)"

text \<open>
  The iterative traversal of \<^verbatim>\<open>AvlGetAll\<close>: \<open>current\<close>, the explicit stack (a slice: push and pop
  at the end) and the nodes collected so far.  A node on the stack is never nil, because only
  \<open>current\<close> values that are not nil are pushed; it is written here with its components, and
  collected as its key and its data.
\<close>

type_synonym 'd node_ref = "uint64 \<times> 'd option"
type_synonym 'd frame = "'d node_ref \<times> 'd avl"

fun avl_weight :: "'d avl \<Rightarrow> nat" where
  "avl_weight NilNode = 1"
| "avl_weight (AvlNode k l r d h) = avl_weight l + avl_weight r + 2"

function AvlGetAll_loop ::
  "'d avl \<Rightarrow> 'd frame list \<Rightarrow> 'd node_ref list \<Rightarrow> 'd node_ref list" where
  "AvlGetAll_loop (AvlNode k l r d h) stack nodes = AvlGetAll_loop l (stack @ [((k, d), r)]) nodes"
| "AvlGetAll_loop NilNode stack nodes =
     (if stack \<noteq> [] then
        (let current = last stack
         in AvlGetAll_loop (snd current) (butlast stack) (nodes @ [fst current]))
      else nodes)"
  by pat_completeness auto
termination
proof (relation "measure (\<lambda>(current, stack, nodes).
    avl_weight current + (\<Sum>f \<leftarrow> stack. avl_weight (snd f) + 1))")
  fix stack :: "'d frame list" and nodes current
  assume "stack \<noteq> []" and "current = last stack"
  then show "((snd current, butlast stack, nodes @ [fst current]), NilNode, stack, nodes) \<in>
      measure (\<lambda>(current, stack, nodes). avl_weight current + (\<Sum>f \<leftarrow> stack. avl_weight (snd f) + 1))"
    by (cases stack rule: rev_cases) auto
qed auto

definition AvlGetAll :: "'d avl \<Rightarrow> 'd node_ref list" where
  "AvlGetAll root = AvlGetAll_loop root [] []"

section \<open>Invariant and abstraction\<close>

text \<open>
  \<open>depth\<close> is the real height, \<open>entries\<close> the in-order list of keys and data.  \<open>balanced\<close> says
  that every stored height is the real one and that siblings differ by at most one; \<open>bst\<close> that the
  keys are strictly ascending.
\<close>

fun depth :: "'d avl \<Rightarrow> int" where
  "depth NilNode = 0"
| "depth (AvlNode k l r d h) = 1 + max (depth l) (depth r)"

fun balanced :: "'d avl \<Rightarrow> bool" where
  "balanced NilNode \<longleftrightarrow> True"
| "balanced (AvlNode k l r d h) \<longleftrightarrow>
     h = 1 + max (depth l) (depth r) \<and> \<bar>depth l - depth r\<bar> \<le> 1 \<and> balanced l \<and> balanced r"

fun entries :: "'d avl \<Rightarrow> (uint64 \<times> 'd option) list" where
  "entries NilNode = []"
| "entries (AvlNode k l r d h) = entries l @ (k, d) # entries r"

definition bst :: "'d avl \<Rightarrow> bool" where
  "bst t \<longleftrightarrow> sorted_keys (entries t)"

definition avl_inv :: "'d avl \<Rightarrow> bool" where
  "avl_inv t \<longleftrightarrow> bst t \<and> balanced t"

text \<open>The abstract value of a tree: a finite map from keys to (possibly nil) data.\<close>

definition avl_map :: "'d avl \<Rightarrow> uint64 \<rightharpoonup> 'd option" where
  "avl_map t = map_of (entries t)"

text \<open>Insertion on the abstract side: the entry list with the key added or overwritten.\<close>

fun insert_entry ::
  "uint64 \<Rightarrow> 'd option \<Rightarrow> bool \<Rightarrow> (uint64 \<times> 'd option) list \<Rightarrow> (uint64 \<times> 'd option) list" where
  "insert_entry k d ow [] = [(k, d)]"
| "insert_entry k d ow ((a, b) # ps) =
     (if k < a then (k, d) # (a, b) # ps
      else if k = a then (a, if ow then d else b) # ps
      else (a, b) # insert_entry k d ow ps)"

text \<open>
  Deletion on the abstract side.  \<open>two_children_at\<close> says that the node of the key has both subtrees;
  then the entry of the key and the one after it are merged: the key of the second, the data of the
  first.
\<close>

definition drop_key :: "uint64 \<Rightarrow> (uint64 \<times> 'd option) list \<Rightarrow> (uint64 \<times> 'd option) list" where
  "drop_key key ps = filter (\<lambda>p. fst p \<noteq> key) ps"

fun merge_key :: "uint64 \<Rightarrow> (uint64 \<times> 'd option) list \<Rightarrow> (uint64 \<times> 'd option) list" where
  "merge_key key ((a, b) # (c, e) # ps) =
     (if a = key then (c, b) # ps else (a, b) # merge_key key ((c, e) # ps))"
| "merge_key key ps = ps"

fun two_children_at :: "'d avl \<Rightarrow> uint64 \<Rightarrow> bool" where
  "two_children_at NilNode key \<longleftrightarrow> False"
| "two_children_at (AvlNode k l r d h) key \<longleftrightarrow>
     (if key < k then two_children_at l key
      else if key > k then two_children_at r key
      else \<not> is_nil l \<and> \<not> is_nil r)"

section \<open>Heights and rotations\<close>

lemma bst_NilNode [simp]: "bst NilNode"
  by (simp add: bst_def)

lemma bst_AvlNode [simp]:
  "bst (AvlNode k l r d h) \<longleftrightarrow> bst l \<and> bst r \<and>
     (\<forall>x \<in> fst ` set (entries l). x < k) \<and> (\<forall>x \<in> fst ` set (entries r). k < x)"
  unfolding bst_def entries.simps by (rule sorted_keys_mid)

lemma Max_int_max [simp]: "Max_int a b = max a b"
  by (simp add: Max_int_def max_def)

lemma depth_nonneg [simp]: "0 \<le> depth t"
  by (induction t) auto

lemma depth_pos_iff [simp]: "0 < depth t \<longleftrightarrow> t \<noteq> NilNode"
proof (cases t)
  case (AvlNode k l r d h)
  have "0 \<le> max (depth l) (depth r)" using depth_nonneg [of l] by linarith
  with AvlNode show ?thesis by simp
qed simp

lemma balanced_GetHeight [simp]: "balanced t \<Longrightarrow> GetHeight t = depth t"
  by (cases t) auto

lemma RotateRight_entries: "RotateRight t = Inr t' \<Longrightarrow> entries t' = entries t"
  by (cases t rule: RotateRight.cases) (auto simp: Let_def)

lemma RotateLeft_entries: "RotateLeft t = Inr t' \<Longrightarrow> entries t' = entries t"
  by (cases t rule: RotateLeft.cases) (auto simp: Let_def)

lemmas rotate_entries = RotateRight_entries RotateLeft_entries

lemma insert_rebalance_entries:
  "insert_rebalance key k l r d = Inr t' \<Longrightarrow> entries t' = entries l @ (k, d) # entries r"
  by (auto simp: insert_rebalance_def Let_def res_simps split: if_splits dest!: rotate_entries)

lemma delete_rebalance_entries: "delete_rebalance t = Inr t' \<Longrightarrow> entries t' = entries t"
  by (cases t) (auto simp: Let_def res_simps split: if_splits dest!: rotate_entries)

section \<open>Insertion\<close>

text \<open>
  How a tree may have grown by one level under an insertion of \<open>key\<close>: it is the new leaf, or the
  side \<open>key\<close> went to is the deeper one.  This is what makes the choice of the rotation by
  comparing keys (instead of by the child's balance factor) right.
\<close>

fun grown_at :: "uint64 \<Rightarrow> 'd avl \<Rightarrow> bool" where
  "grown_at key NilNode \<longleftrightarrow> False"
| "grown_at key (AvlNode k l r d h) \<longleftrightarrow>
     l = NilNode \<and> r = NilNode \<or>
     key < k \<and> depth l = depth r + 1 \<or> key > k \<and> depth r = depth l + 1"

text \<open>The four rotations of a tree whose subtrees differ by two levels.\<close>

lemma rotate_left_left:
  assumes "balanced l" "balanced r" "depth l = depth r + 2" "GetBalanceFactor l \<ge> 0"
  shows "\<exists>t'. RotateRight (AvlNode k l r d h) = Inr t' \<and> balanced t' \<and>
    depth t' = (if GetBalanceFactor l = 0 then depth r + 3 else depth r + 2)"
proof (cases l)
  case NilNode
  with assms depth_nonneg [of r] show ?thesis by simp
next
  case (AvlNode lk ll lr ld lh)
  with assms show ?thesis by (auto simp: Let_def max_def)
qed

lemma rotate_left_right:
  assumes "balanced l" "balanced r" "depth l = depth r + 2" "GetBalanceFactor l < 0"
  shows "\<exists>l' t'. RotateLeft l = Inr l' \<and> RotateRight (AvlNode k l' r d h) = Inr t' \<and>
    balanced t' \<and> depth t' = depth r + 2"
proof (cases l)
  case NilNode
  with assms depth_nonneg [of r] show ?thesis by simp
next
  case l: (AvlNode lk ll lr ld lh)
  show ?thesis
  proof (cases lr)
    case NilNode
    with assms l depth_nonneg [of ll] show ?thesis by simp
  next
    case (AvlNode k' l' r' d' h')
    with assms l show ?thesis by (auto simp: Let_def max_def split: if_splits)
  qed
qed

lemma rotate_right_right:
  assumes "balanced l" "balanced r" "depth r = depth l + 2" "GetBalanceFactor r \<le> 0"
  shows "\<exists>t'. RotateLeft (AvlNode k l r d h) = Inr t' \<and> balanced t' \<and>
    depth t' = (if GetBalanceFactor r = 0 then depth l + 3 else depth l + 2)"
proof (cases r)
  case NilNode
  with assms depth_nonneg [of l] show ?thesis by simp
next
  case (AvlNode rk rl rr rd rh)
  with assms show ?thesis by (auto simp: Let_def max_def)
qed

lemma rotate_right_left:
  assumes "balanced l" "balanced r" "depth r = depth l + 2" "GetBalanceFactor r > 0"
  shows "\<exists>r' t'. RotateRight r = Inr r' \<and> RotateLeft (AvlNode k l r' d h) = Inr t' \<and>
    balanced t' \<and> depth t' = depth l + 2"
proof (cases r)
  case NilNode
  with assms depth_nonneg [of l] show ?thesis by simp
next
  case r: (AvlNode rk rl rr rd rh)
  show ?thesis
  proof (cases rl)
    case NilNode
    with assms r depth_nonneg [of rr] show ?thesis by simp
  next
    case (AvlNode k' l' r' d' h')
    with assms r show ?thesis by (auto simp: Let_def max_def split: if_splits)
  qed
qed

lemma grown_at_cases:
  assumes "grown_at key t" "depth t \<ge> 2" "balanced t"
  obtains k where "node_key t = Inr k" "key < k" "GetBalanceFactor t > 0"
  | k where "node_key t = Inr k" "key > k" "GetBalanceFactor t < 0"
  using assms by (cases t) auto

lemma insert_rebalance_left:
  assumes "balanced l'" "balanced r" "\<bar>depth l - depth r\<bar> \<le> 1" "key < k"
    and "depth l' = depth l \<or> depth l' = depth l + 1 \<and> grown_at key l'"
  shows "\<exists>t'. insert_rebalance key k l' r d = Inr t' \<and> balanced t' \<and>
    (depth t' = 1 + max (depth l) (depth r) \<or>
     depth t' = 2 + max (depth l) (depth r) \<and> grown_at key t')"
proof (cases "depth l' = depth r + 2")
  case False
  then have "insert_rebalance key k l' r d = Inr (AvlNode k l' r d (1 + max (depth l') (depth r)))"
    using assms by (auto simp: insert_rebalance_def Let_def)
  with False assms show ?thesis by (auto simp: max_def)
next
  case True
  with assms have g: "grown_at key l'" and d2: "depth l' \<ge> 2" and dl: "depth l = depth r + 1" by auto
  from g d2 assms(1) show ?thesis
  proof (rule grown_at_cases)
    fix lk assume "node_key l' = Inr lk" "key < lk" "GetBalanceFactor l' > 0"
    with assms(1,2) True dl rotate_left_left [of l' r k d "3 + depth r"] show ?thesis
      by (auto simp: insert_rebalance_def Let_def)
  next
    fix lk assume "node_key l' = Inr lk" "key > lk" "GetBalanceFactor l' < 0"
    with assms(1,2) True dl rotate_left_right [of l' r k d "3 + depth r"] show ?thesis
      by (auto simp: insert_rebalance_def Let_def)
  qed
qed

lemma insert_rebalance_right:
  assumes "balanced l" "balanced r'" "\<bar>depth l - depth r\<bar> \<le> 1" "key > k"
    and "depth r' = depth r \<or> depth r' = depth r + 1 \<and> grown_at key r'"
  shows "\<exists>t'. insert_rebalance key k l r' d = Inr t' \<and> balanced t' \<and>
    (depth t' = 1 + max (depth l) (depth r) \<or>
     depth t' = 2 + max (depth l) (depth r) \<and> grown_at key t')"
proof (cases "depth r' = depth l + 2")
  case False
  then have "insert_rebalance key k l r' d = Inr (AvlNode k l r' d (1 + max (depth l) (depth r')))"
    using assms by (auto simp: insert_rebalance_def Let_def)
  with False assms show ?thesis by (auto simp: max_def)
next
  case True
  with assms have g: "grown_at key r'" and d2: "depth r' \<ge> 2" and dr: "depth r = depth l + 1" by auto
  from g d2 assms(2) show ?thesis
  proof (rule grown_at_cases)
    fix rk assume "node_key r' = Inr rk" "key < rk" "GetBalanceFactor r' > 0"
    with assms(1,2) True dr rotate_right_left [of l r' k d "3 + depth l"] show ?thesis
      by (auto simp: insert_rebalance_def Let_def)
  next
    fix rk assume "node_key r' = Inr rk" "key > rk" "GetBalanceFactor r' < 0"
    with assms(1,2) True dr rotate_right_right [of l r' k d "3 + depth l"] show ?thesis
      by (auto simp: insert_rebalance_def Let_def)
  qed
qed

lemma AvlInsert_balanced:
  "balanced t \<Longrightarrow> \<exists>t'. AvlInsert t key d ow = Inr t' \<and> balanced t' \<and>
     (depth t' = depth t \<or> depth t' = depth t + 1 \<and> grown_at key t')"
proof (induction t)
  case NilNode
  then show ?case by simp
next
  case (AvlNode k l r d' h)
  then have b: "balanced l" "balanced r" "\<bar>depth l - depth r\<bar> \<le> 1" by auto
  consider "key = k" | "key < k" | "key > k" by (rule linorder_cases)
  then show ?case
  proof cases
    case 1
    with AvlNode show ?thesis by auto
  next
    case 2
    from AvlNode.IH(1) b obtain l' where l': "AvlInsert l key d ow = Inr l'" "balanced l'"
      "depth l' = depth l \<or> depth l' = depth l + 1 \<and> grown_at key l'" by auto
    from insert_rebalance_left [OF l'(2) b(2,3) 2 l'(3)] 2 l'(1) show ?thesis by auto
  next
    case 3
    from AvlNode.IH(2) b obtain r' where r': "AvlInsert r key d ow = Inr r'" "balanced r'"
      "depth r' = depth r \<or> depth r' = depth r + 1 \<and> grown_at key r'" by auto
    from insert_rebalance_right [OF b(1) r'(2) b(3) 3 r'(3)] 3 r'(1) show ?thesis by auto
  qed
qed

lemma insert_entry_fst: "fst ` set (insert_entry k d ow ps) = insert k (fst ` set ps)"
  by (induction k d ow ps rule: insert_entry.induct) auto

lemma insert_entry_sorted: "sorted_keys ps \<Longrightarrow> sorted_keys (insert_entry k d ow ps)"
proof (induction k d ow ps rule: insert_entry.induct)
  case (2 k d ow a b ps)
  then show ?case
    using insert_entry_fst [of k d ow ps] by auto
qed simp

lemma insert_entry_mid:
  assumes "\<forall>x \<in> fst ` set ps. x < a"
  shows "insert_entry k d ow (ps @ (a, b) # qs) =
    (if k < a then insert_entry k d ow ps @ (a, b) # qs else ps @ insert_entry k d ow ((a, b) # qs))"
  using assms by (induction ps) auto

lemma map_of_insert_entry:
  "map_of (insert_entry k d ow ps) =
     (if k \<in> fst ` set ps \<and> \<not> ow then map_of ps else (map_of ps)(k \<mapsto> d))"
  if "sorted_keys ps"
  using that
proof (induction k d ow ps rule: insert_entry.induct)
  case (2 k d ow a b ps)
  then show ?case by (auto simp: fun_eq_iff image_iff) (metis fst_conv less_asym)+
qed simp

lemma AvlInsert_entries:
  "bst t \<Longrightarrow> AvlInsert t key d ow = Inr t' \<Longrightarrow> entries t' = insert_entry key d ow (entries t)"
proof (induction t arbitrary: t')
  case (AvlNode k l r d' h)
  then have mid: "insert_entry key d ow (entries (AvlNode k l r d' h)) =
      (if key < k then insert_entry key d ow (entries l) @ (k, d') # entries r
       else entries l @ insert_entry key d ow ((k, d') # entries r))"
    unfolding entries.simps by (intro insert_entry_mid) simp
  show ?case unfolding mid using AvlNode
    by (auto simp: res_simps split: if_splits dest!: insert_rebalance_entries)
qed simp

lemma AvlInsert_ok:
  assumes "avl_inv t"
  obtains t' where "AvlInsert t key d ow = Inr t'" "avl_inv t'"
    "entries t' = insert_entry key d ow (entries t)" "depth t' \<le> depth t + 1"
proof -
  from assms have b: "balanced t" and s: "bst t" by (auto simp: avl_inv_def)
  from AvlInsert_balanced [OF b] obtain t' where
    t': "AvlInsert t key d ow = Inr t'" "balanced t'" "depth t' \<le> depth t + 1"
    by (metis add_increasing2 order_refl zero_le_one)
  moreover from AvlInsert_entries [OF s t'(1)] have
    e: "entries t' = insert_entry key d ow (entries t)" .
  moreover from e s t'(2) have "avl_inv t'" by (simp add: avl_inv_def bst_def insert_entry_sorted)
  ultimately show thesis by (blast intro: that)
qed

section \<open>Search, update and traversal\<close>

lemma AvlSearch_entries: "bst t \<Longrightarrow> AvlSearch t key = Option.bind (map_of (entries t) key) id"
proof (induction t)
  case (AvlNode k l r d h)
  then have ord: "bst l" "bst r" "\<forall>x \<in> fst ` set (entries l). x < k"
    "\<forall>x \<in> fst ` set (entries r). k < x" by auto
  have "map_of (entries r) key = None" if "key < k"
    using ord(4) that by (intro map_of_None_above) (auto intro: less_trans)
  moreover have "map_of (entries l) key = None" if "key > k"
    using ord(3) that by (intro map_of_None_below) (auto intro: less_trans)
  moreover have "map_of (entries l) k = None" using ord(3) by (rule map_of_None_below)
  ultimately show ?case using AvlNode.IH ord(1,2)
    by (cases key k rule: linorder_cases) (auto simp: map_add_def split: option.splits)
qed simp

lemma AvlUpdate_shape:
  "depth (AvlUpdate t key d) = depth t" "balanced t \<Longrightarrow> balanced (AvlUpdate t key d)"
  "map fst (entries (AvlUpdate t key d)) = map fst (entries t)"
  by (induction t) auto

lemma AvlUpdate_entries:
  "bst t \<Longrightarrow> entries (AvlUpdate t key d) =
     map (\<lambda>(k, v). (k, if k = key then d else v)) (entries t)"
proof (induction t)
  case (AvlNode k l r d' h)
  then have ord: "bst l" "bst r" "\<forall>x \<in> fst ` set (entries l). x < k"
    "\<forall>x \<in> fst ` set (entries r). k < x" by auto
  have "map (\<lambda>(k, v). (k, if k = key then d else v)) (entries l) = entries l" if "k \<le> key"
    using ord(3) that by (intro map_idI) fastforce
  moreover have "map (\<lambda>(k, v). (k, if k = key then d else v)) (entries r) = entries r" if "key \<le> k"
    using ord(4) that by (intro map_idI) fastforce
  ultimately show ?case using AvlNode.IH ord(1,2)
    by (cases key k rule: linorder_cases) auto
qed simp

lemma map_of_replace:
  "map_of (map (\<lambda>(a, v). (a, if a = k then x else v)) ps) =
     (if k \<in> dom (map_of ps) then (map_of ps)(k \<mapsto> x) else map_of ps)"
  by (induction ps) (auto simp: fun_eq_iff)

lemma AvlGetAll_loop_entries:
  "AvlGetAll_loop current stack nodes =
     nodes @ entries current @ concat (map (\<lambda>(n, r). n # entries r) (rev stack))"
proof (induction current stack nodes rule: AvlGetAll_loop.induct)
  case (2 stack nodes)
  then show ?case by (cases stack rule: rev_cases) (auto simp: case_prod_beta)
qed auto

lemma AvlGetAll_entries: "AvlGetAll t = entries t"
  by (simp add: AvlGetAll_def AvlGetAll_loop_entries)

section \<open>Deletion\<close>

lemma is_nil_iff [simp]: "is_nil t \<longleftrightarrow> t = NilNode"
  by (cases t) auto

lemma entries_Nil_iff [simp]: "entries t = [] \<longleftrightarrow> t = NilNode"
  by (cases t) auto

lemma leftmost_key_entries: "t \<noteq> NilNode \<Longrightarrow> leftmost_key t = Inr (fst (hd (entries t)))"
  by (induction t rule: leftmost_key.induct) (auto simp: hd_append)

lemma delete_rebalance_id: "balanced t \<Longrightarrow> delete_rebalance t = Inr t"
  by (cases t) (auto simp: Let_def)

lemma delete_rebalance_balanced:
  assumes "balanced l" "balanced r" "\<bar>depth l - depth r\<bar> \<le> 2"
  shows "\<exists>t'. delete_rebalance (AvlNode k l r d h) = Inr t' \<and> balanced t' \<and>
    (if \<bar>depth l - depth r\<bar> \<le> 1 then depth t' = 1 + max (depth l) (depth r)
     else depth t' = max (depth l) (depth r) \<or> depth t' = 1 + max (depth l) (depth r))"
proof -
  consider "\<bar>depth l - depth r\<bar> \<le> 1" | "depth l = depth r + 2" | "depth r = depth l + 2"
    using assms(3) by linarith
  then show ?thesis
  proof cases
    case 1
    with assms show ?thesis by (auto simp: Let_def)
  next
    case 2
    with assms rotate_left_left [OF assms(1,2) 2, of k d "1 + depth l"]
      rotate_left_right [OF assms(1,2) 2, of k d "1 + depth l"] show ?thesis
      by (cases "GetBalanceFactor l \<ge> 0") (auto simp: Let_def split: if_splits)
  next
    case 3
    with assms rotate_right_right [OF assms(1,2) 3, of k d "1 + depth r"]
      rotate_right_left [OF assms(1,2) 3, of k d "1 + depth r"] show ?thesis
      by (cases "GetBalanceFactor r \<le> 0") (auto simp: Let_def split: if_splits)
  qed
qed

declare delete_rebalance.simps [simp del]

lemma delete_rebalance_NilNode [simp]: "delete_rebalance NilNode = Inr NilNode"
  by (simp add: delete_rebalance.simps)

text \<open>The three ways a deletion takes at a node.\<close>

lemma AvlDelete_less: "key < k \<Longrightarrow> AvlDelete (AvlNode k l r d h) key =
    bind_res (AvlDelete l key) (\<lambda>l'. delete_rebalance (AvlNode k l' r d h))"
  by (auto simp: bind_res_def split: sum.splits)

lemma AvlDelete_greater: "key > k \<Longrightarrow> AvlDelete (AvlNode k l r d h) key =
    bind_res (AvlDelete r key) (\<lambda>r'. delete_rebalance (AvlNode k l r' d h))"
  by (auto simp: bind_res_def split: sum.splits)

lemma AvlDelete_found: "AvlDelete (AvlNode k l r d h) k =
    (if l = NilNode then delete_rebalance r else if r = NilNode then delete_rebalance l
     else bind_res (AvlDelete r (fst (hd (entries r))))
       (\<lambda>r'. delete_rebalance (AvlNode (fst (hd (entries r))) l r' d h)))"
  by (auto simp: bind_res_def leftmost_key_entries split: sum.splits)

lemmas AvlDelete_node = AvlDelete_less AvlDelete_greater AvlDelete_found

declare AvlDelete.simps(2) [simp del]

lemma delete_rebalance_shrunk:
  assumes "balanced l" "balanced r" "balanced l'" "balanced r'" "\<bar>depth l - depth r\<bar> \<le> 1"
    and "depth l' = depth l \<and> (depth r' = depth r \<or> depth r' = depth r - 1) \<or>
      depth r' = depth r \<and> (depth l' = depth l \<or> depth l' = depth l - 1)"
  shows "\<exists>t'. delete_rebalance (AvlNode k l' r' d h) = Inr t' \<and> balanced t' \<and>
    (depth t' = 1 + max (depth l) (depth r) \<or> depth t' = max (depth l) (depth r))"
proof -
  from assms(5,6) have "\<bar>depth l' - depth r'\<bar> \<le> 2" by linarith
  from delete_rebalance_balanced [OF assms(3,4) this, of k d h] assms(5,6) show ?thesis
    by (auto split: if_splits)
qed

lemma AvlDelete_balanced:
  "balanced t \<Longrightarrow> \<exists>t'. AvlDelete t key = Inr t' \<and> balanced t' \<and>
     (depth t' = depth t \<or> depth t' = depth t - 1)"
proof (induction t arbitrary: key)
  case (AvlNode k l r d h)
  then have b: "balanced l" "balanced r" "\<bar>depth l - depth r\<bar> \<le> 1" by auto
  obtain l' where l': "AvlDelete l key = Inr l'" "balanced l'"
    "depth l' = depth l \<or> depth l' = depth l - 1" using AvlNode.IH(1) b by blast
  have IHr: "\<exists>r'. AvlDelete r x = Inr r' \<and> balanced r' \<and> (depth r' = depth r \<or> depth r' = depth r - 1)"
    for x using AvlNode.IH(2) b by blast
  consider "key < k" | "key > k" | "key = k" "l = NilNode \<or> r = NilNode"
    | "key = k" "l \<noteq> NilNode" "r \<noteq> NilNode" by force
  then show ?case
  proof cases
    case 1
    with l' delete_rebalance_shrunk [OF b(1,2) l'(2) b(2,3), of k d h] show ?thesis
      by (auto simp: AvlDelete_less)
  next
    case 2
    from IHr [of key] 2 delete_rebalance_shrunk [OF b(1,2) b(1) _ b(3), of _ k d h]
    show ?thesis by (fastforce simp: AvlDelete_greater)
  next
    case 3
    with b show ?thesis by (auto simp: AvlDelete_found delete_rebalance_id)
  next
    case 4
    from IHr [of "fst (hd (entries r))"] 4 delete_rebalance_shrunk [OF b(1,2) b(1) _ b(3), of _ _ d h]
    show ?thesis by (fastforce simp: AvlDelete_found)
  qed
qed simp

lemma AvlDelete_leftmost_entries:
  "bst t \<Longrightarrow> t \<noteq> NilNode \<Longrightarrow> AvlDelete t (fst (hd (entries t))) = Inr t' \<Longrightarrow>
   entries t' = tl (entries t)"
proof (induction t arbitrary: t')
  case (AvlNode k l r d h)
  show ?case
  proof (cases "l = NilNode")
    case True
    with AvlNode.prems show ?thesis
      by (auto simp: AvlDelete_found dest!: delete_rebalance_entries split: if_splits)
  next
    case False
    then have hd: "hd (entries (AvlNode k l r d h)) = hd (entries l)"
      "tl (entries (AvlNode k l r d h)) = tl (entries l) @ (k, d) # entries r"
      by (auto simp: hd_append)
    from False AvlNode.prems(1) have "fst (hd (entries l)) < k" by simp
    with AvlNode.prems(3) obtain l' where l': "AvlDelete l (fst (hd (entries l))) = Inr l'"
      "delete_rebalance (AvlNode k l' r d h) = Inr t'"
      unfolding hd(1) by (auto simp: AvlDelete_less res_simps)
    with AvlNode False have "entries l' = tl (entries l)" by simp
    with delete_rebalance_entries [OF l'(2)] hd(2) show ?thesis by simp
  qed
qed simp

lemma drop_key_append: "drop_key key (ps @ qs) = drop_key key ps @ drop_key key qs"
  by (simp add: drop_key_def)

lemma drop_key_id: "key \<notin> fst ` set ps \<Longrightarrow> drop_key key ps = ps"
  by (auto simp: drop_key_def filter_id_conv image_iff)

lemma AvlDelete_entries_drop:
  "bst t \<Longrightarrow> AvlDelete t key = Inr t' \<Longrightarrow> \<not> two_children_at t key \<Longrightarrow>
   entries t' = drop_key key (entries t)"
proof (induction t arbitrary: t')
  case (AvlNode k l r d h)
  then have ord: "\<forall>x \<in> fst ` set (entries l). x < k" "\<forall>x \<in> fst ` set (entries r). k < x"
    by auto
  have l: "drop_key key (entries l) = entries l" if "key \<ge> k"
    using ord(1) that by (intro drop_key_id) fastforce
  have r: "drop_key key (entries r) = entries r" if "key \<le> k"
    using ord(2) that by (intro drop_key_id) fastforce
  have n: "drop_key key (entries (AvlNode k l r d h)) =
      drop_key key (entries l) @ (if key = k then [] else [(k, d)]) @ drop_key key (entries r)"
    by (simp add: drop_key_def)
  consider "key < k" | "key > k" | "key = k" by force
  then show ?case
  proof cases
    case 1
    with AvlNode.prems obtain l' where l': "AvlDelete l key = Inr l'"
      "delete_rebalance (AvlNode k l' r d h) = Inr t'" by (auto simp: AvlDelete_less res_simps)
    with 1 AvlNode have "entries l' = drop_key key (entries l)" by simp
    with 1 n r delete_rebalance_entries [OF l'(2)] show ?thesis by simp
  next
    case 2
    with AvlNode.prems obtain r' where r': "AvlDelete r key = Inr r'"
      "delete_rebalance (AvlNode k l r' d h) = Inr t'" by (auto simp: AvlDelete_greater res_simps)
    from 2 AvlNode.prems(3) have "\<not> two_children_at r key" using less_not_sym [OF 2] by simp
    with r'(1) AvlNode have "entries r' = drop_key key (entries r)" by simp
    with 2 n l delete_rebalance_entries [OF r'(2)] show ?thesis by simp
  next
    case 3
    with AvlNode.prems n l r show ?thesis
      by (auto simp: AvlDelete_found dest!: delete_rebalance_entries split: if_splits)
  qed
qed (simp add: drop_key_def)

lemma AvlDelete_entries_merge:
  "bst t \<Longrightarrow> AvlDelete t key = Inr t' \<Longrightarrow> two_children_at t key \<Longrightarrow>
   \<exists>ps d s e qs. entries t = ps @ (key, d) # (s, e) # qs \<and> entries t' = ps @ (s, d) # qs"
proof (induction t arbitrary: t')
  case (AvlNode k l r d h)
  consider "key < k" | "key > k" | "key = k" by force
  then show ?case
  proof cases
    case 1
    with AvlNode obtain l' where l': "AvlDelete l key = Inr l'"
      "delete_rebalance (AvlNode k l' r d h) = Inr t'" by (auto simp: AvlDelete_node res_simps)
    with 1 AvlNode obtain ps x s e qs where
      "entries l = ps @ (key, x) # (s, e) # qs" "entries l' = ps @ (s, x) # qs" by fastforce
    with delete_rebalance_entries [OF l'(2)] show ?thesis
      by (intro exI [of _ ps] exI [of _ x] exI [of _ s] exI [of _ e] exI [of _ "qs @ (k, d) # entries r"]) simp
  next
    case 2
    with AvlNode obtain r' where r': "AvlDelete r key = Inr r'"
      "delete_rebalance (AvlNode k l r' d h) = Inr t'" by (auto simp: AvlDelete_node res_simps)
    with 2 AvlNode obtain ps x s e qs where
      "entries r = ps @ (key, x) # (s, e) # qs" "entries r' = ps @ (s, x) # qs" by fastforce
    with delete_rebalance_entries [OF r'(2)] show ?thesis
      by (intro exI [of _ "entries l @ (k, d) # ps"] exI [of _ x] exI [of _ s] exI [of _ e] exI [of _ qs]) simp
  next
    case 3
    with AvlNode.prems have "l \<noteq> NilNode" "r \<noteq> NilNode" by auto
    then obtain s e qs where er: "entries r = (s, e) # qs" by (cases "entries r") auto
    with 3 AvlNode.prems \<open>l \<noteq> NilNode\<close> \<open>r \<noteq> NilNode\<close> obtain r' where r': "AvlDelete r s = Inr r'"
      "delete_rebalance (AvlNode s l r' d h) = Inr t'"
      by (auto simp: AvlDelete_found res_simps)
    from AvlDelete_leftmost_entries [of r r'] r'(1) er \<open>r \<noteq> NilNode\<close> AvlNode.prems(1)
    have "entries r' = qs" by simp
    with delete_rebalance_entries [OF r'(2)] 3 er show ?thesis
      by (intro exI [of _ "entries l"] exI [of _ d] exI [of _ s] exI [of _ e] exI [of _ qs]) simp
  qed
qed simp

lemma merge_key_mid: "key \<notin> fst ` set ps \<Longrightarrow>
   merge_key key (ps @ (key, d) # (s, e) # qs) = ps @ (s, d) # qs"
proof (induction ps)
  case (Cons p ps)
  then show ?case by (cases p; cases ps) auto
qed simp

lemma AvlDelete_entries:
  assumes "bst t" "AvlDelete t key = Inr t'"
  shows "entries t' = (if two_children_at t key then merge_key key (entries t)
    else drop_key key (entries t))"
proof (cases "two_children_at t key")
  case True
  from AvlDelete_entries_merge [OF assms True] obtain ps d s e qs where
    e: "entries t = ps @ (key, d) # (s, e) # qs" "entries t' = ps @ (s, d) # qs" by blast
  from assms(1) e(1) have "key \<notin> fst ` set ps"
    by (auto simp: bst_def sorted_wrt_append)
  with e True show ?thesis by (simp add: merge_key_mid)
next
  case False
  with AvlDelete_entries_drop [OF assms] show ?thesis by simp
qed

lemma AvlDelete_keys:
  assumes "bst t" "AvlDelete t key = Inr t'"
  shows "map fst (entries t') = filter (\<lambda>k. k \<noteq> key) (map fst (entries t))"
proof (cases "two_children_at t key")
  case True
  from AvlDelete_entries_merge [OF assms True] obtain ps d s e qs where
    e: "entries t = ps @ (key, d) # (s, e) # qs" "entries t' = ps @ (s, d) # qs" by blast
  from assms(1) have "distinct (map fst (entries t))" by (simp add: bst_def sorted_keys_distinct)
  with e have "filter (\<lambda>k. k \<noteq> key) (map fst ps) = map fst ps" "key \<noteq> s"
    "filter (\<lambda>k. k \<noteq> key) (map fst qs) = map fst qs" by (auto simp: filter_id_conv)
  with e show ?thesis by simp
next
  case False
  with AvlDelete_entries_drop [OF assms] show ?thesis by (simp add: drop_key_def filter_map o_def)
qed

lemma AvlDelete_ok:
  assumes "avl_inv t"
  obtains t' where "AvlDelete t key = Inr t'" "avl_inv t'" "depth t' \<in> {depth t - 1, depth t}"
    "map fst (entries t') = filter (\<lambda>k. k \<noteq> key) (map fst (entries t))"
proof -
  from assms have b: "balanced t" "bst t" by (auto simp: avl_inv_def)
  from AvlDelete_balanced [OF b(1)] obtain t' where t': "AvlDelete t key = Inr t'" "balanced t'"
    "depth t' = depth t \<or> depth t' = depth t - 1" by blast
  from AvlDelete_keys [OF b(2) t'(1)] have
    k: "map fst (entries t') = filter (\<lambda>k. k \<noteq> key) (map fst (entries t))" .
  with b(2) have "bst t'" by (auto simp: bst_def intro: sorted_wrt_filter)
  with t' k show thesis by (intro that [of t']) (auto simp: avl_inv_def)
qed

section \<open>Heights are logarithmic\<close>

text \<open>The least number of nodes of a tree of the given height whose siblings differ by one level at most.\<close>

fun avl_min :: "nat \<Rightarrow> int" where
  "avl_min 0 = 0"
| "avl_min (Suc 0) = 1"
| "avl_min (Suc (Suc n)) = avl_min (Suc n) + avl_min n + 1"

lemma avl_min_nonneg: "0 \<le> avl_min n"
  by (induction n rule: avl_min.induct) auto

lemma avl_min_mono: "m \<le> n \<Longrightarrow> avl_min m \<le> avl_min n"
proof (rule lift_Suc_mono_le)
  show "avl_min k \<le> avl_min (Suc k)" for k
    by (cases k rule: avl_min.cases) (use avl_min_nonneg in simp_all)
qed

lemma avl_min_pair: "((\<lambda>(a, b). (b, a + b + 1)) ^^ n) (0, 1) = (avl_min n, avl_min (Suc n))"
  by (induction n) simp_all

lemma avl_min_92: "2 ^ 64 < avl_min 92"
proof -
  have "2 ^ 64 < fst (((\<lambda>(a, b). (b, a + b + 1 :: int)) ^^ 92) (0, 1))" by code_simp
  then show ?thesis by (simp only: avl_min_pair fst_conv)
qed

lemma balanced_size: "balanced t \<Longrightarrow> avl_min (nat (depth t)) \<le> int (length (entries t))"
proof (induction t)
  case (AvlNode k l r d h)
  define m where "m = nat (max (depth l) (depth r))"
  have top: "nat (depth (AvlNode k l r d h)) = Suc m"
    using depth_nonneg [of l] by (simp add: m_def Suc_nat_eq_nat_zadd1 le_max_iff_disj)
  from AvlNode have IH: "avl_min (nat (depth l)) \<le> int (length (entries l))"
    "avl_min (nat (depth r)) \<le> int (length (entries r))" and bal: "\<bar>depth l - depth r\<bar> \<le> 1" by auto
  show ?case
  proof (cases m)
    case (Suc n)
    have "nat (depth l) = Suc n \<and> n \<le> nat (depth r) \<or> nat (depth r) = Suc n \<and> n \<le> nat (depth l)"
      using Suc bal depth_nonneg [of l] depth_nonneg [of r] by (auto simp: m_def max_def split: if_splits)
    with IH avl_min_mono [of n "nat (depth l)"] avl_min_mono [of n "nat (depth r)"]
    show ?thesis unfolding top Suc by (auto simp del: depth.simps)
  qed (simp add: top del: depth.simps)
qed simp

lemma entries_size_bound: "bst t \<Longrightarrow> length (entries t) \<le> 2 ^ 64"
proof -
  assume "bst t"
  then have "distinct (map fst (entries t))" by (simp add: bst_def sorted_keys_distinct)
  then have "length (entries t) = card (set (map fst (entries t)))"
    by (metis distinct_card length_map)
  also have "\<dots> \<le> card (UNIV :: uint64 set)" by (intro card_mono) auto
  finally show ?thesis by (simp add: card_word)
qed

lemma avl_inv_height:
  assumes "avl_inv t"
  shows "avl_min (nat (GetHeight t)) \<le> int (length (entries t)) \<and> GetHeight t \<le> 91"
proof -
  from assms have b: "balanced t" "bst t" by (auto simp: avl_inv_def)
  have "nat (depth t) \<le> 91"
  proof (rule ccontr)
    assume "\<not> nat (depth t) \<le> 91"
    then have "avl_min 92 \<le> avl_min (nat (depth t))" by (intro avl_min_mono) simp
    also note balanced_size [OF b(1)]
    also have "int (length (entries t)) \<le> 2 ^ 64" using entries_size_bound [OF b(2)] by simp
    finally show False using avl_min_92 by simp
  qed
  with b(1) balanced_size [OF b(1)] show ?thesis by simp
qed

section \<open>Runs of operations\<close>

text \<open>Any sequence of calls that change a tree, and the set of keys it should leave.\<close>

datatype 'd avl_op = InsertOp uint64 "'d option" bool | UpdateOp uint64 "'d option" | DeleteOp uint64

fun apply_op :: "'d avl_op \<Rightarrow> 'd avl \<Rightarrow> 'd avl res" where
  "apply_op (InsertOp key d ow) t = AvlInsert t key d ow"
| "apply_op (UpdateOp key d) t = Inr (AvlUpdate t key d)"
| "apply_op (DeleteOp key) t = AvlDelete t key"

fun op_keys :: "'d avl_op \<Rightarrow> uint64 set \<Rightarrow> uint64 set" where
  "op_keys (InsertOp key d ow) ks = insert key ks"
| "op_keys (UpdateOp key d) ks = ks"
| "op_keys (DeleteOp key) ks = ks - {key}"

lemma apply_op_ok:
  assumes "avl_inv t"
  shows "\<exists>t'. apply_op op t = Inr t' \<and> avl_inv t' \<and>
    fst ` set (entries t') = op_keys op (fst ` set (entries t))"
proof (cases op)
  case (InsertOp key d ow)
  show ?thesis using assms
    by (rule AvlInsert_ok [of t key d ow]) (simp add: InsertOp insert_entry_fst)
next
  case (UpdateOp key d)
  have "bst (AvlUpdate t key d)" using assms by (simp add: avl_inv_def bst_def AvlUpdate_shape)
  with assms UpdateOp AvlUpdate_shape(3) [of t key d] show ?thesis
    by (simp add: avl_inv_def AvlUpdate_shape flip: set_map)
next
  case (DeleteOp key)
  show ?thesis using assms
    by (rule AvlDelete_ok [of t key]) (auto simp: DeleteOp simp flip: set_map)
qed

lemma run_ops_ok:
  "avl_inv t \<Longrightarrow> \<exists>t'. fold_res apply_op ops t = Inr t' \<and> avl_inv t' \<and>
     fst ` set (entries t') = fold op_keys ops (fst ` set (entries t))"
proof (induction ops arbitrary: t)
  case (Cons op ops)
  from apply_op_ok [OF Cons.prems] obtain t' where "apply_op op t = Inr t'" "avl_inv t'"
    "fst ` set (entries t') = op_keys op (fst ` set (entries t))" by blast
  with Cons.IH [of t'] show ?case by simp
qed simp

section \<open>The interface the databases rely on\<close>

text \<open>
  The update and the decision process use the tree only through insertion, search and the list of
  all nodes.  The locale states what they rely on; its lemmas are what their proofs use.
\<close>

locale ordered_store =
  fixes put :: "'t \<Rightarrow> uint64 \<Rightarrow> 'd option \<Rightarrow> bool \<Rightarrow> 't res"
    and get :: "'t \<Rightarrow> uint64 \<Rightarrow> 'd option"
    and get_all :: "'t \<Rightarrow> (uint64 \<times> 'd option) list"
    and empty :: "'t"
    and invar :: "'t \<Rightarrow> bool"
  assumes invar_empty: "invar empty"
    and get_all_empty: "get_all empty = []"
    and put_total: "invar t \<Longrightarrow> \<exists>t'. put t k d ow = Inr t'"
    and put_invar: "invar t \<Longrightarrow> put t k d ow = Inr t' \<Longrightarrow> invar t'"
    and put_map: "invar t \<Longrightarrow> put t k d ow = Inr t' \<Longrightarrow> map_of (get_all t') =
      (if k \<in> dom (map_of (get_all t)) \<and> \<not> ow then map_of (get_all t)
       else (map_of (get_all t))(k \<mapsto> d))"
    and get_map: "invar t \<Longrightarrow> get t k = Option.bind (map_of (get_all t) k) id"
    and get_all_sorted: "invar t \<Longrightarrow> sorted_keys (get_all t)"
begin

lemma get_put_same:
  "invar t \<Longrightarrow> put t k d ow = Inr t' \<Longrightarrow> ow \<or> get t k = None \<and> k \<notin> dom (map_of (get_all t)) \<Longrightarrow>
   get t' k = d"
  by (auto simp: get_map [OF put_invar] put_map)

lemma get_put_other: "invar t \<Longrightarrow> put t k d ow = Inr t' \<Longrightarrow> k' \<noteq> k \<Longrightarrow> get t' k' = get t k'"
  by (auto simp: get_map [OF put_invar] get_map [of t] put_map)

lemma put_dom:
  "invar t \<Longrightarrow> put t k d ow = Inr t' \<Longrightarrow>
   fst ` set (get_all t') = insert k (fst ` set (get_all t))"
  using put_map [of t k d ow t'] by (auto simp: dom_map_of_conv_image_fst [symmetric] split: if_splits)

lemma get_all_distinct: "invar t \<Longrightarrow> distinct (map fst (get_all t))"
  by (rule sorted_keys_distinct) (rule get_all_sorted)

lemma get_eq_Some: "invar t \<Longrightarrow> get t k = Some x \<longleftrightarrow> (k, Some x) \<in> set (get_all t)"
  by (auto simp: get_map get_all_distinct bind_eq_Some_conv)

end

text \<open>The AVL tree implements the interface.\<close>

interpretation avl: ordered_store AvlInsert AvlSearch AvlGetAll NilNode avl_inv
proof unfold_locales
  fix t t' :: "'d avl" and k d ow
  assume inv: "avl_inv t"
  then show "\<exists>t'. AvlInsert t k d ow = Inr t'" by (meson AvlInsert_ok)
  show "sorted_keys (AvlGetAll t)" using inv by (simp add: avl_inv_def bst_def AvlGetAll_entries)
  show "AvlSearch t k = Option.bind (map_of (AvlGetAll t) k) id"
    using inv by (simp add: avl_inv_def AvlSearch_entries AvlGetAll_entries)
  assume put: "AvlInsert t k d ow = Inr t'"
  obtain t'' where "AvlInsert t k d ow = Inr t''" and t'': "avl_inv t''"
    "entries t'' = insert_entry k d ow (entries t)" using inv by (rule AvlInsert_ok)
  with put have "t'' = t'" by simp
  with t'' show "avl_inv t'" by simp
  from t'' \<open>t'' = t'\<close> inv show "map_of (AvlGetAll t') =
      (if k \<in> dom (map_of (AvlGetAll t)) \<and> \<not> ow then map_of (AvlGetAll t)
       else (map_of (AvlGetAll t))(k \<mapsto> d))"
    by (simp add: AvlGetAll_entries map_of_insert_entry avl_inv_def bst_def dom_map_of_conv_image_fst)
qed (simp_all add: avl_inv_def AvlGetAll_entries)

section \<open>Correctness of the tree\<close>

text \<open>
  C20: \<^verbatim>\<open>AvlInsert\<close> on a tree with the AVL invariant never follows a nil pointer, returns a tree with
  the invariant that is at most one level deeper, and changes the stored map exactly as asked: a new
  key is added, an existing key gets the new data only with \<open>overwrite\<close>.
\<close>

theorem AvlInsert_refines_map_update:
  assumes "avl_inv t"
  shows "\<exists>t'. AvlInsert t key data overwrite = Inr t' \<and> avl_inv t' \<and> depth t' \<le> depth t + 1 \<and>
    avl_map t' = (if key \<in> dom (avl_map t) \<and> \<not> overwrite then avl_map t
                  else (avl_map t)(key \<mapsto> data))"
proof -
  from assms obtain t' where t': "AvlInsert t key data overwrite = Inr t'" "avl_inv t'"
    "depth t' \<le> depth t + 1" by (rule AvlInsert_ok)
  with avl.put_map [OF assms t'(1)] show ?thesis by (auto simp: avl_map_def AvlGetAll_entries)
qed

theorem AvlInsert_refines_map_update_witness:
  "\<exists>t'. AvlInsert (AvlNode 10 NilNode (AvlNode 20 NilNode NilNode (Some ''b'') 1) (Some ''a'') 2)
      30 (Some ''c'') False = Inr t' \<and> avl_inv t' \<and> depth t' \<le> 3 \<and> avl_map t' 30 = Some (Some ''c'')"
proof -
  have "avl_inv (AvlNode 10 NilNode (AvlNode 20 NilNode NilNode (Some ''b'') 1) (Some ''a'') 2)"
    by (simp add: avl_inv_def)
  from AvlInsert_refines_map_update [OF this, of 30 "Some ''c''" False] show ?thesis
    by (auto simp: avl_map_def)
qed

text \<open>
  C21: \<^verbatim>\<open>AvlSearch\<close> returns the data stored under the key, and nil when the key is absent (or when its
  data is nil); \<^verbatim>\<open>AvlUpdate\<close> keeps the invariant and replaces the data of exactly that key, if present.
\<close>

theorem AvlSearch_AvlUpdate_correct:
  assumes "avl_inv t"
  shows "AvlSearch t key = (case avl_map t key of None \<Rightarrow> None | Some data \<Rightarrow> data) \<and>
    avl_inv (AvlUpdate t k newData) \<and>
    avl_map (AvlUpdate t k newData) =
      (if k \<in> dom (avl_map t) then (avl_map t)(k \<mapsto> newData) else avl_map t)"
proof (intro conjI)
  from assms have b: "bst t" by (simp add: avl_inv_def)
  then show "AvlSearch t key = (case avl_map t key of None \<Rightarrow> None | Some data \<Rightarrow> data)"
    by (auto simp: AvlSearch_entries avl_map_def split: option.splits)
  show "avl_inv (AvlUpdate t k newData)"
    using assms AvlUpdate_shape [of t k newData] by (simp add: avl_inv_def bst_def)
  from b show "avl_map (AvlUpdate t k newData) =
      (if k \<in> dom (avl_map t) then (avl_map t)(k \<mapsto> newData) else avl_map t)"
    by (simp add: avl_map_def AvlUpdate_entries map_of_replace)
qed

theorem AvlSearch_AvlUpdate_correct_witness:
  "AvlSearch (AvlUpdate (AvlNode 10 NilNode (AvlNode 20 NilNode NilNode (Some ''b'') 1) (Some ''a'') 2)
      20 (Some ''z'')) 20 = Some ''z''"
proof -
  let ?t = "AvlNode 10 NilNode (AvlNode 20 NilNode NilNode (Some ''b'') 1) (Some ''a'') 2"
  have "avl_inv ?t" by (simp add: avl_inv_def)
  from AvlSearch_AvlUpdate_correct [OF this, of 20 20 "Some ''z''"]
  have "avl_inv (AvlUpdate ?t 20 (Some ''z''))" by blast
  from AvlSearch_AvlUpdate_correct [OF this, of 20] show ?thesis by (simp add: avl_map_def)
qed

text \<open>
  C22: \<^verbatim>\<open>AvlDelete\<close> on a tree with the AVL invariant never follows a nil pointer, returns a tree with
  the invariant that is at most one level lower, and removes exactly the given key.
\<close>

theorem AvlDelete_removes_key:
  assumes "avl_inv t"
  shows "\<exists>t'. AvlDelete t key = Inr t' \<and> avl_inv t' \<and> depth t' \<in> {depth t - 1, depth t} \<and>
    map fst (AvlGetAll t') = filter (\<lambda>k. k \<noteq> key) (map fst (AvlGetAll t))"
  using assms by (rule AvlDelete_ok) (auto simp: AvlGetAll_entries)

theorem AvlDelete_removes_key_witness:
  "\<exists>t'. AvlDelete (AvlNode 10 NilNode (AvlNode 20 NilNode NilNode (Some ''b'') 1) (Some ''a'') 2) 10
      = Inr t' \<and> avl_inv t' \<and> map fst (AvlGetAll t') = [20]"
proof -
  have "avl_inv (AvlNode 10 NilNode (AvlNode 20 NilNode NilNode (Some ''b'') 1) (Some ''a'') 2)"
    by (simp add: avl_inv_def)
  from AvlDelete_removes_key [OF this, of 10] show ?thesis by (auto simp: AvlGetAll_entries)
qed

text \<open>
  C23: what \<^verbatim>\<open>AvlDelete\<close> does to the data.  A node with at most one child is removed with its data and
  nothing else changes.  A node with two children takes over the key of its in-order successor but
  keeps its own data, so the successor's data is lost and the successor's key now leads to the data
  of the deleted key: the code copies \<^verbatim>\<open>tmp.key\<close> and not \<^verbatim>\<open>tmp.data\<close>.
\<close>

theorem AvlDelete_data:
  assumes "avl_inv t" and "AvlDelete t key = Inr t'"
  shows "AvlGetAll t' = (if two_children_at t key then merge_key key (AvlGetAll t)
    else drop_key key (AvlGetAll t))"
  using AvlDelete_entries [OF _ assms(2)] assms(1) by (simp add: avl_inv_def AvlGetAll_entries)

theorem AvlDelete_data_witness:
  "AvlDelete (AvlNode 2 (AvlNode 1 NilNode NilNode (Some ''one'') 1)
      (AvlNode 3 NilNode NilNode (Some ''three'') 1) (Some ''two'') 2) 2 =
     Inr (AvlNode 3 (AvlNode 1 NilNode NilNode (Some ''one'') 1) NilNode (Some ''two'') 2) \<and>
   AvlGetAll (AvlNode 3 (AvlNode 1 NilNode NilNode (Some ''one'') 1) NilNode (Some ''two'') 2) =
     [(1, Some ''one''), (3, Some ''two'')]"
proof -
  have inv: "avl_inv (AvlNode 2 (AvlNode 1 NilNode NilNode (Some ''one'') 1)
      (AvlNode 3 NilNode NilNode (Some ''three'') 1) (Some ''two'') 2)" by (simp add: avl_inv_def)
  have del: "AvlDelete (AvlNode 2 (AvlNode 1 NilNode NilNode (Some ''one'') 1)
      (AvlNode 3 NilNode NilNode (Some ''three'') 1) (Some ''two'') 2) 2 =
     Inr (AvlNode 3 (AvlNode 1 NilNode NilNode (Some ''one'') 1) NilNode (Some ''two'') 2)"
    by (simp add: AvlDelete.simps delete_rebalance.simps)
  from AvlDelete_data [OF inv del] del show ?thesis by (simp add: AvlGetAll_entries)
qed

text \<open>
  C24: \<^verbatim>\<open>AvlGetAll\<close>, the iterative traversal, terminates on every tree and lists exactly the nodes of
  the tree in the order of the recursive in-order traversal; on a tree with the invariant the keys
  come out strictly ascending, each once.
\<close>

theorem AvlGetAll_is_inorder:
  "AvlGetAll t = entries t \<and> (avl_inv t \<longrightarrow> sorted_wrt (<) (map fst (AvlGetAll t)))"
  by (simp add: AvlGetAll_entries avl_inv_def bst_def)

theorem AvlGetAll_is_inorder_witness:
  "sorted_wrt (<) (map fst (AvlGetAll (AvlNode 10 NilNode (AvlNode 20 NilNode NilNode (Some ''b'') 1)
     (Some ''a'') 2))) \<and>
   AvlGetAll (AvlNode 10 NilNode (AvlNode 20 NilNode NilNode (Some ''b'') 1) (Some ''a'') 2) =
     [(10, Some ''a''), (20, Some ''b'')]"
proof -
  have "avl_inv (AvlNode 10 NilNode (AvlNode 20 NilNode NilNode (Some ''b'') 1) (Some ''a'') 2)"
    by (simp add: avl_inv_def)
  with AvlGetAll_is_inorder
    [of "AvlNode 10 NilNode (AvlNode 20 NilNode NilNode (Some ''b'') 1) (Some ''a'') 2"]
  show ?thesis by simp
qed

text \<open>
  C25: any sequence of insertions, updates and deletions that starts with the nil tree runs without a
  panic.  The tree it leaves holds exactly the keys that were inserted and not deleted since, in
  strictly ascending order, and at every node the stored height is the number of levels below it and
  the two subtrees differ by at most one level.  So the height \<^verbatim>\<open>GetHeight\<close> returns is the true one; a
  tree of height \<open>h\<close> has at least \<open>avl_min h\<close> nodes, a number that grows like the Fibonacci numbers, and
  over 64-bit keys the height is never more than 91: the recursion is shallow and the Go
  \<^verbatim>\<open>int\<close> heights and balance factors cannot overflow.
\<close>

theorem avl_runs_stay_shallow:
  "\<exists>t. fold_res apply_op ops NilNode = Inr t \<and>
     fst ` set (AvlGetAll t) = fold op_keys ops {} \<and> sorted_keys (AvlGetAll t) \<and>
     balanced t \<and> GetHeight t = depth t \<and>
     avl_min (nat (GetHeight t)) \<le> int (length (AvlGetAll t)) \<and> GetHeight t \<le> 91"
proof -
  have "avl_inv NilNode" by (simp add: avl_inv_def)
  from run_ops_ok [OF this, of ops] obtain t where "fold_res apply_op ops NilNode = Inr t" and
    inv: "avl_inv t" and "fst ` set (entries t) = fold op_keys ops {}" by auto
  with avl_inv_height [OF inv] show ?thesis by (auto simp: AvlGetAll_entries avl_inv_def bst_def)
qed

end
