(* ===== verification/Ids.thy ===== *)
theory Ids
  imports Prelude
begin

text \<open>
  System IDs, LSP IDs and database keys: \<^verbatim>\<open>systemIDToString\<close> and \<^verbatim>\<open>systemIDToBytes\<close> of
  \<^verbatim>\<open>src/main.go\<close>, \<^verbatim>\<open>systemIDToKey\<close>, \<^verbatim>\<open>lspIDToKey\<close> and \<^verbatim>\<open>systemIDToLspID\<close> of \<^verbatim>\<open>src/update.go\<close>, and the
  parts of Go's \<^verbatim>\<open>encoding/hex\<close>, \<^verbatim>\<open>strings\<close> and \<^verbatim>\<open>encoding/binary\<close> they call.  A Go string is a list
  of 8-bit characters; a \<^verbatim>\<open>[6]byte\<close> or \<^verbatim>\<open>[8]byte\<close> array is a list of that length.
\<close>

section \<open>The library calls\<close>

definition hextable :: string where
  "hextable = ''0123456789abcdef''"

definition hex_byte :: "byte \<Rightarrow> string" where
  "hex_byte b = [hextable ! (unat b div 16), hextable ! (unat b mod 16)]"

definition EncodeToString :: "bytes \<Rightarrow> string" where
  "EncodeToString bs = concat (map hex_byte bs)"

definition fromHexChar :: "char \<Rightarrow> nat option" where
  "fromHexChar c = (let n = of_char c :: nat in
     if 48 \<le> n \<and> n \<le> 57 then Some (n - 48)
     else if 97 \<le> n \<and> n \<le> 102 then Some (n - 97 + 10)
     else if 65 \<le> n \<and> n \<le> 70 then Some (n - 65 + 10)
     else None)"

text \<open>
  \<^verbatim>\<open>hex.DecodeString\<close> of the Go release the repository builds with (\<^verbatim>\<open>go1.9.2\<close>, pinned in
  \<^verbatim>\<open>src/topologies/Dockerfile\<close>): a string of odd length or with a character that is not a hexadecimal
  digit gives a nil slice and an error, which the caller discards.
\<close>

fun hex_Decode :: "string \<Rightarrow> bytes option" where
  "hex_Decode [] = Some []"
| "hex_Decode [a] = None"
| "hex_Decode (a # b # s) =
     (case fromHexChar a of
        None \<Rightarrow> None
      | Some x \<Rightarrow> (case fromHexChar b of
            None \<Rightarrow> None
          | Some y \<Rightarrow> map_option ((#) (word_of_nat (16 * x + y))) (hex_Decode s)))"

definition DecodeString :: "string \<Rightarrow> bytes" where
  "DecodeString s = (case hex_Decode s of None \<Rightarrow> [] | Some bs \<Rightarrow> bs)"

text \<open>\<^verbatim>\<open>strings.Replace(s, ".", "", n)\<close>: the first \<open>n\<close> dots are removed.\<close>

fun remove_dots :: "nat \<Rightarrow> string \<Rightarrow> string" where
  "remove_dots n [] = []"
| "remove_dots n (c # s) =
     (if c = CHR ''.'' \<and> n > 0 then remove_dots (n - 1) s else c # remove_dots n s)"

text \<open>\<^verbatim>\<open>binary.BigEndian\<close>: the value of a byte string read with the most significant byte first.\<close>

definition be_nat :: "bytes \<Rightarrow> nat" where
  "be_nat bs = foldl (\<lambda>acc b. acc * 256 + unat b) 0 bs"

definition BigEndian_Uint32 :: "bytes \<Rightarrow> uint32" where
  "BigEndian_Uint32 bs = word_of_nat (be_nat (take 4 bs))"

definition BigEndian_Uint64 :: "bytes \<Rightarrow> uint64" where
  "BigEndian_Uint64 bs = word_of_nat (be_nat (take 8 bs))"

definition BigEndian_PutUint32 :: "uint32 \<Rightarrow> bytes" where
  "BigEndian_PutUint32 w = map (\<lambda>i. ucast (drop_bit i w)) [24, 16, 8, 0]"

section \<open>The code\<close>

text \<open>
  The loop over the three two-byte groups; a slice that is not six bytes long gives the empty string.
\<close>

definition systemIDToString :: "bytes \<Rightarrow> string" where
  "systemIDToString system_id =
     (if length system_id \<noteq> 6 then ''''
      else concat (map (\<lambda>i. EncodeToString (take 2 (drop (i * 2) system_id)) @
             (if i \<noteq> 2 then ''.'' else '''')) [0, 1, 2]))"

definition systemIDToBytes :: "string \<Rightarrow> bytes" where
  "systemIDToBytes sid = copy_zeroed 6 (DecodeString (remove_dots 6 sid))"

definition lspIDToKey :: "bytes \<Rightarrow> uint64" where
  "lspIDToKey lspID = BigEndian_Uint64 lspID"

definition systemIDToLspID :: "string \<Rightarrow> bytes" where
  "systemIDToLspID systemID = copy_zeroed 8 (systemIDToBytes systemID)"

definition systemIDToKey :: "string \<Rightarrow> uint64" where
  "systemIDToKey systemID = lspIDToKey (copy_zeroed 8 (systemIDToBytes systemID))"

text \<open>
  The form that \<^verbatim>\<open>systemIDToString\<close> produces: three groups of four lower-case hexadecimal digits.
\<close>

definition canonical_sid :: "string \<Rightarrow> bool" where
  "canonical_sid s \<longleftrightarrow> length s = 14 \<and> s ! 4 = CHR ''.'' \<and> s ! 9 = CHR ''.'' \<and>
     list_all (\<lambda>i. s ! i \<in> set hextable) [0, 1, 2, 3, 5, 6, 7, 8, 10, 11, 12, 13]"

section \<open>Hexadecimal digits\<close>

lemma fromHexChar_hextable: "n < 16 \<Longrightarrow> fromHexChar (hextable ! n) = Some n"
proof -
  have "\<forall>n < 16. fromHexChar (hextable ! n) = Some n" by code_simp
  then show "n < 16 \<Longrightarrow> ?thesis" by blast
qed

lemma length_hextable [simp]: "length hextable = 16"
  by (simp add: hextable_def)

lemma hextable_no_dot: "n < 16 \<Longrightarrow> hextable ! n \<noteq> CHR ''.''"
  by (drule fromHexChar_hextable) (auto simp: fromHexChar_def)

lemma in_hextable: "c \<in> set hextable \<longleftrightarrow> (\<exists>n < 16. c = hextable ! n)"
  by (metis in_set_conv_nth length_hextable)

lemma byte_less [simp]: "unat (b :: byte) < 256"
  using unsigned_less [of b] by simp

lemma nibble_less [simp]: "unat (b :: byte) div 16 < 16"
  using byte_less [of b] by linarith

lemma hex_byte_no_dot: "CHR ''.'' \<notin> set (hex_byte b)"
  using hextable_no_dot by (auto simp: hex_byte_def dest: sym)

lemma length_hex_byte [simp]: "length (hex_byte b) = 2"
  by (simp add: hex_byte_def)

lemma hex_Decode_hex_byte [simp]: "hex_Decode (hex_byte b @ s) = map_option ((#) b) (hex_Decode s)"
  by (simp add: hex_byte_def fromHexChar_hextable)

lemma DecodeString_EncodeToString [simp]: "DecodeString (EncodeToString bs) = bs"
proof -
  have "hex_Decode (EncodeToString bs) = Some bs"
    by (induction bs) (simp_all add: EncodeToString_def)
  then show ?thesis by (simp add: DecodeString_def)
qed

lemma hex_byte_of_nibbles: "x < 16 \<Longrightarrow> y < 16 \<Longrightarrow>
   hex_byte (word_of_nat (16 * x + y)) = [hextable ! x, hextable ! y]"
proof -
  assume "x < 16" "y < 16"
  then have "unat (word_of_nat (16 * x + y) :: byte) = 16 * x + y"
    by (simp only: unat_of_nat) simp
  with \<open>y < 16\<close> show ?thesis unfolding hex_byte_def by simp
qed

lemma remove_dots_append:
  "CHR ''.'' \<notin> set s \<Longrightarrow> remove_dots n (s @ t) = s @ remove_dots n t"
  by (induction s) auto

lemma remove_dots_id: "CHR ''.'' \<notin> set s \<Longrightarrow> remove_dots n s = s"
  using remove_dots_append [of s n "[]"] by simp

section \<open>System IDs as strings\<close>

lemma systemIDToString_6:
  "systemIDToString [a, b, c, d, e, f] =
     hex_byte a @ hex_byte b @ ''.'' @ hex_byte c @ hex_byte d @ ''.'' @ hex_byte e @ hex_byte f"
  by (simp add: systemIDToString_def EncodeToString_def)

lemma length_6E:
  assumes "length xs = 6"
  obtains a b c d e f where "xs = [a, b, c, d, e, f]"
proof -
  from assms obtain a b c d e f where "xs = [a, b, c, d, e, f]"
    by (auto simp: numeral_eq_Suc length_Suc_conv)
  then show thesis by (rule that)
qed

lemma systemIDToBytes_systemIDToString:
  assumes "length b = 6"
  shows "systemIDToBytes (systemIDToString b) = b"
proof -
  from assms obtain a b' c d e f where b: "b = [a, b', c, d, e, f]" by (rule length_6E)
  have "remove_dots 6 (systemIDToString b) = EncodeToString b"
    unfolding b systemIDToString_6
    by (simp add: EncodeToString_def remove_dots_append hex_byte_no_dot remove_dots_id)
  with assms show ?thesis by (simp add: systemIDToBytes_def)
qed

lemma length_systemIDToBytes [simp]: "length (systemIDToBytes s) = 6"
  by (simp add: systemIDToBytes_def)

lemma systemIDToString_inject:
  "length a = 6 \<Longrightarrow> length b = 6 \<Longrightarrow> systemIDToString a = systemIDToString b \<longleftrightarrow> a = b"
  by (metis systemIDToBytes_systemIDToString)

lemma systemIDToString_canonical:
  assumes "length b = 6"
  shows "canonical_sid (systemIDToString b)"
proof -
  from assms obtain a b' c d e f where b: "b = [a, b', c, d, e, f]" by (rule length_6E)
  show ?thesis unfolding b systemIDToString_6
    by (simp add: canonical_sid_def hex_byte_def nth_Cons' )
qed

lemma canonical_sidE:
  assumes "canonical_sid s"
  obtains ns where "length ns = 12" "\<forall>n \<in> set ns. n < 16"
    "s = map ((!) hextable) (take 4 ns) @ ''.'' @ map ((!) hextable) (take 4 (drop 4 ns)) @ ''.'' @
       map ((!) hextable) (drop 8 ns)"
proof -
  from assms have len: "length s = 14" and dots: "s ! 4 = CHR ''.''" "s ! 9 = CHR ''.''"
    and hex: "\<forall>i \<in> set [0, 1, 2, 3, 5, 6, 7, 8, 10, 11, 12, 13]. s ! i \<in> set hextable"
    unfolding canonical_sid_def list_all_iff by blast+
  define f where "f c = the (fromHexChar c)" for c
  have f: "f c < 16 \<and> hextable ! f c = c" if "c \<in> set hextable" for c
    unfolding f_def using that by (auto simp: in_hextable fromHexChar_hextable)
  define ns where "ns = map (\<lambda>i. f (s ! i)) [0, 1, 2, 3, 5, 6, 7, 8, 10, 11, 12, 13]"
  have s: "s = map ((!) s) [0, 1, 2, 3, 4, 5, 6, 7, 8, 9, 10, 11, 12, 13]"
  proof -
    have "[0..<14] = [0, 1, 2, 3, 4, 5, 6, 7, 8, 9, 10, 11, 12, 13 :: nat]" by code_simp
    with map_nth [of s] len show ?thesis by (simp only:)
  qed
  have "map ((!) s) [0, 1, 2, 3, 4, 5, 6, 7, 8, 9, 10, 11, 12, 13] = map ((!) hextable) (take 4 ns) @ ''.'' @ map ((!) hextable) (take 4 (drop 4 ns)) @ ''.'' @
       map ((!) hextable) (drop 8 ns)"
    using hex dots f by (simp add: ns_def)
  with s have form: "s = map ((!) hextable) (take 4 ns) @ ''.'' @ map ((!) hextable) (take 4 (drop 4 ns)) @
      ''.'' @ map ((!) hextable) (drop 8 ns)" by (rule trans)
  have small: "\<forall>n \<in> set ns. n < 16" using hex f unfolding ns_def set_map by blast
  have "length ns = 12" by (simp add: ns_def)
  from this small form show thesis by (rule that)
qed

lemma systemIDToString_systemIDToBytes:
  assumes "canonical_sid s"
  shows "systemIDToString (systemIDToBytes s) = s"
proof -
  from assms obtain ns where ns: "length ns = 12" "\<forall>n \<in> set ns. n < 16" and
    s: "s = map ((!) hextable) (take 4 ns) @ ''.'' @ map ((!) hextable) (take 4 (drop 4 ns)) @ ''.'' @
       map ((!) hextable) (drop 8 ns)" by (rule canonical_sidE)
  define g where "g i = (word_of_nat (16 * (ns ! i) + ns ! Suc i) :: byte)" for i
  have l: "ns = map ((!) ns) [0, 1, 2, 3, 4, 5, 6, 7, 8, 9, 10, 11]"
  proof -
    have "[0..<12] = [0, 1, 2, 3, 4, 5, 6, 7, 8, 9, 10, 11 :: nat]" by code_simp
    with map_nth [of ns] ns(1) show ?thesis by (simp only:)
  qed
  have g: "hex_byte (g i) = [hextable ! (ns ! i), hextable ! (ns ! Suc i)]" if "Suc i < 12" for i
    unfolding g_def using ns that by (intro hex_byte_of_nibbles) auto
  define b where "b = [g 0, g 2, g 4, g 6, g 8, g 10]"
  have "s = systemIDToString b" unfolding s b_def systemIDToString_6
    by (subst (1 2 3) l) (simp add: g)
  moreover have "length b = 6" by (simp add: b_def)
  ultimately show ?thesis by (simp add: systemIDToBytes_systemIDToString)
qed

section \<open>Big-endian numbers\<close>

lemma be_nat_Nil [simp]: "be_nat [] = 0"
  by (simp add: be_nat_def)

lemma be_nat_snoc [simp]: "be_nat (bs @ [b]) = be_nat bs * 256 + unat b"
  by (simp add: be_nat_def)

lemma be_nat_less: "be_nat bs < 256 ^ length bs"
proof (induction bs rule: rev_induct)
  case (snoc b bs)
  then have "be_nat bs + 1 \<le> 256 ^ length bs" by simp
  then have "(be_nat bs + 1) * 256 \<le> 256 ^ length bs * 256" by (rule mult_le_mono1)
  moreover have "be_nat (bs @ [b]) < (be_nat bs + 1) * 256" using byte_less [of b] by simp
  ultimately show ?case by (simp only: length_append power_add) (simp del: be_nat_snoc)
qed simp

lemma be_nat_inject: "length xs = length ys \<Longrightarrow> be_nat xs = be_nat ys \<Longrightarrow> xs = ys"
proof (induction xs arbitrary: ys rule: rev_induct)
  case (snoc x xs)
  then obtain y zs where ys: "ys = zs @ [y]" by (cases ys rule: rev_cases) auto
  with snoc.prems have eq: "be_nat xs * 256 + unat x = be_nat zs * 256 + unat y" by simp
  from arg_cong [OF eq, of "\<lambda>n. n mod 256"] arg_cong [OF eq, of "\<lambda>n. n div 256"]
  have "unat x = unat y" "be_nat xs = be_nat zs" by simp_all
  from this(1) have "x = y" by (rule unsigned_word_eqI)
  with snoc \<open>be_nat xs = be_nat zs\<close> ys show ?case by simp
qed simp

lemma be_nat_append: "be_nat (xs @ ys) = be_nat xs * 256 ^ length ys + be_nat ys"
  by (induction ys rule: rev_induct) (auto simp: algebra_simps simp flip: append_assoc)

lemma unat_BigEndian_Uint64: "length bs = 8 \<Longrightarrow> unat (BigEndian_Uint64 bs) = be_nat bs"
  using be_nat_less [of bs] by (simp add: BigEndian_Uint64_def unat_of_nat)

lemma lspIDToKey_inject:
  "length a = 8 \<Longrightarrow> length b = 8 \<Longrightarrow> lspIDToKey a = lspIDToKey b \<longleftrightarrow> a = b"
  by (metis be_nat_inject lspIDToKey_def unat_BigEndian_Uint64)

lemma length_PutUint32 [simp, wire_simps]: "length (BigEndian_PutUint32 w) = 4"
  by (simp add: BigEndian_PutUint32_def)

lemma be_nat_digits:
  assumes "n < 2 ^ 32"
  shows "((n div 2 ^ 24 mod 256 * 256 + n div 2 ^ 16 mod 256) * 256 + n div 2 ^ 8 mod 256) * 256 +
    n mod 256 = (n :: nat)"
proof -
  have step: "n div (d * 256) * 256 + n div d mod 256 = n div d" for d
    by (metis div_mult2_eq div_mult_mod_eq)
  from assms have "n div 2 ^ 24 mod 256 = n div 2 ^ 24" by simp
  moreover note step [of "2 ^ 16"] step [of "2 ^ 8"] step [of 1]
  ultimately show ?thesis by simp
qed

lemma BigEndian_Uint32_PutUint32 [simp]: "BigEndian_Uint32 (BigEndian_PutUint32 w) = w"
proof -
  have "unat (ucast (drop_bit i w) :: byte) = unat w div 2 ^ i mod 256" for i
    unfolding unsigned_ucast_eq unat_drop_bit_eq by (simp add: drop_bit_eq_div take_bit_eq_mod)
  from this [of 24] this [of 16] this [of 8] this [of 0]
  have "be_nat (BigEndian_PutUint32 w) = unat w"
    using be_nat_digits [of "unat w"] unsigned_less [of w, where ?'a = nat]
    by (simp add: BigEndian_PutUint32_def be_nat_def)
  then show ?thesis by (simp add: BigEndian_Uint32_def)
qed

lemma length_systemIDToLspID [simp]: "length (systemIDToLspID s) = 8"
  by (simp add: systemIDToLspID_def)

lemma systemIDToLspID_prefix: "take 6 (systemIDToLspID s) = systemIDToBytes s"
  by (simp add: systemIDToLspID_def copy_zeroed_def)

lemma systemIDToKey_LspID: "systemIDToKey s = lspIDToKey (systemIDToLspID s)"
  by (simp add: systemIDToKey_def systemIDToLspID_def)

lemma systemIDToLspID_inject: "systemIDToLspID s = systemIDToLspID t \<longleftrightarrow> systemIDToBytes s = systemIDToBytes t"
  by (metis systemIDToLspID_prefix systemIDToLspID_def)

section \<open>Correctness of the identifiers\<close>

text \<open>
  C38: a system ID survives the trip through its string form, and a string survives the trip through
  its bytes exactly when it is in the canonical form (three dot-separated groups of four lower-case
  hexadecimal digits).  Every other configured string, an upper-case one for instance, comes back
  changed.
\<close>

theorem systemID_round_trip:
  "(length b = 6 \<longrightarrow> systemIDToBytes (systemIDToString b) = b) \<and>
   (systemIDToString (systemIDToBytes s) = s \<longleftrightarrow> canonical_sid s)"
  by (metis length_systemIDToBytes systemIDToBytes_systemIDToString systemIDToString_canonical
      systemIDToString_systemIDToBytes)

theorem systemID_round_trip_witness:
  "systemIDToBytes (systemIDToString [0x11, 0x11, 0x11, 0x11, 0xAB, 0x12]) =
     [0x11, 0x11, 0x11, 0x11, 0xAB, 0x12] \<and>
   systemIDToString (systemIDToBytes ''1111.1111.ab12'') = ''1111.1111.ab12'' \<and>
   systemIDToString (systemIDToBytes ''1111.1111.AB12'') \<noteq> ''1111.1111.AB12''"
  using systemID_round_trip [of "[0x11, 0x11, 0x11, 0x11, 0xAB, 0x12]" "''1111.1111.ab12''"]
    systemID_round_trip [of "[]" "''1111.1111.AB12''"]
  by (simp add: canonical_sid_def hextable_def)

text \<open>
  C39: the database key of an eight-byte LSP ID is its big-endian value and identifies it.  The key of
  a system ID string is that of its LSP ID; two strings, canonical or not, share a key exactly when
  they denote the same six bytes, and two canonical ones exactly when they are the same string.
\<close>

theorem keys_identify_systems:
  "(length a = 8 \<and> length b = 8 \<longrightarrow>
      unat (lspIDToKey a) = be_nat a \<and> (lspIDToKey a = lspIDToKey b \<longleftrightarrow> a = b)) \<and>
   systemIDToKey s = lspIDToKey (systemIDToLspID s) \<and>
   (systemIDToKey s = systemIDToKey t \<longleftrightarrow> systemIDToBytes s = systemIDToBytes t) \<and>
   (canonical_sid s \<and> canonical_sid t \<longrightarrow> (systemIDToKey s = systemIDToKey t \<longleftrightarrow> s = t))"
proof (intro conjI impI)
  show same: "systemIDToKey s = systemIDToKey t \<longleftrightarrow> systemIDToBytes s = systemIDToBytes t"
    by (simp add: systemIDToKey_LspID lspIDToKey_inject systemIDToLspID_inject)
  show "systemIDToKey s = systemIDToKey t \<longleftrightarrow> s = t" if "canonical_sid s \<and> canonical_sid t"
    using same that by (metis systemIDToString_systemIDToBytes)
next
  show "unat (lspIDToKey a) = be_nat a" if "length a = 8 \<and> length b = 8"
    using that by (simp add: lspIDToKey_def unat_BigEndian_Uint64)
qed (simp_all add: systemIDToKey_LspID lspIDToKey_inject)

theorem keys_identify_systems_witness:
  "lspIDToKey [0, 0, 0, 0, 0, 1, 0, 0] \<noteq> lspIDToKey [0, 0, 0, 0, 0, 1, 0, 1] \<and>
   unat (lspIDToKey [0, 0, 0, 0, 0, 1, 0, 0]) = 65536 \<and>
   systemIDToKey ''1111.1111.AB12'' = systemIDToKey ''1111.1111.ab12'' \<and>
   systemIDToKey ''1111.1111.1111'' \<noteq> systemIDToKey ''1111.1111.1112''"
proof -
  have same: "systemIDToBytes ''1111.1111.AB12'' = systemIDToBytes ''1111.1111.ab12''" by code_simp
  have canonical: "canonical_sid ''1111.1111.1111''" "canonical_sid ''1111.1111.1112''"
    by (simp_all add: canonical_sid_def hextable_def)
  have big_endian: "be_nat [0, 0, 0, 0, 0, 1, 0, 0] = 65536" by (simp add: be_nat_def)
  from keys_identify_systems [of "[0, 0, 0, 0, 0, 1, 0, 0]" "[0, 0, 0, 0, 0, 1, 0, 1]" "''''" "''''"]
  have "lspIDToKey [0, 0, 0, 0, 0, 1, 0, 0] \<noteq> lspIDToKey [0, 0, 0, 0, 0, 1, 0, 1] \<and>
    unat (lspIDToKey [0, 0, 0, 0, 0, 1, 0, 0]) = 65536" by (simp add: big_endian)
  moreover from keys_identify_systems [of "[]" "[]" "''1111.1111.AB12''" "''1111.1111.ab12''"] same
  have "systemIDToKey ''1111.1111.AB12'' = systemIDToKey ''1111.1111.ab12''" by blast
  moreover have "(systemIDToKey ''1111.1111.1111'' = systemIDToKey ''1111.1111.1112'') =
      (''1111.1111.1111'' = ''1111.1111.1112'')"
    using keys_identify_systems [of "[]" "[]" "''1111.1111.1111''" "''1111.1111.1112''"] canonical by blast
  then have "systemIDToKey ''1111.1111.1111'' \<noteq> systemIDToKey ''1111.1111.1112''" by simp
  ultimately show ?thesis by blast
qed

end
