(* ===== verification/Wire.thy ===== *)
theory Wire
  imports Ids
begin

text \<open>
  The wire formats: Go byte slices with their capacity, the TLV list of \<^verbatim>\<open>src/ethernet.go\<close>, Ethernet
  framing, the headers, and the encoding and decoding of LSPs (\<^verbatim>\<open>src/update.go\<close>) and of LAN hello
  PDUs (\<^verbatim>\<open>src/hello.go\<close>).

  The \<^verbatim>\<open>nextTLV\<close> pointers of \<^verbatim>\<open>IsisTLV\<close> form a singly linked list that ends in nil; the model has the
  list itself, and nil is the empty list.
\<close>

section \<open>Byte slices\<close>

text \<open>
  A slice is a window into a backing array: \<open>backing\<close> holds the bytes from the start of the window to
  the end of the capacity, \<open>slen\<close> is the length.  Indexing is checked against the length, but
  re-slicing is checked against the capacity, so it can read past the length.
\<close>

datatype go_slice = Slice (backing: bytes) (slen: nat)

definition slice_index :: "go_slice \<Rightarrow> nat \<Rightarrow> byte res" where
  "slice_index s i = (if i < slen s then Inr (backing s ! i) else Inl IndexOutOfRange)"

definition reslice :: "go_slice \<Rightarrow> nat \<Rightarrow> nat \<Rightarrow> bytes res" where
  "reslice s lo hi = (if lo \<le> hi \<and> hi \<le> length (backing s)
     then Inr (take (hi - lo) (drop lo (backing s))) else Inl SliceBounds)"

text \<open>The slice expression \<^verbatim>\<open>s[lo:]\<close>, which ends at the length.\<close>

definition slice_from :: "go_slice \<Rightarrow> nat \<Rightarrow> bytes res" where
  "slice_from s lo = (if lo \<le> slen s
     then Inr (take (slen s - lo) (drop lo (backing s))) else Inl SliceBounds)"

definition wf_slice :: "go_slice \<Rightarrow> bool" where
  "wf_slice s \<longleftrightarrow> slen s \<le> length (backing s)"

section \<open>TLVs\<close>

definition ISIS_NEIGHBORS_TLV :: nat where "ISIS_NEIGHBORS_TLV = 2"
definition ISIS_IP_INTERNAL_REACH_TLV :: nat where "ISIS_IP_INTERNAL_REACH_TLV = 128"
definition ISIS_IP_INTF_ADDR_TLV :: byte where "ISIS_IP_INTF_ADDR_TLV = 132"
definition READ_BUF_SIZE :: nat where "READ_BUF_SIZE = 1000"

record IsisTLV =
  typeTLV :: byte
  lengthTLV :: byte
  valueTLV :: bytes

function parseTLVs_loop :: "go_slice \<Rightarrow> nat \<Rightarrow> int \<Rightarrow> IsisTLV list \<Rightarrow> IsisTLV list res" where
  "parseTLVs_loop rawBytes startIndex remainingTLVBytes tlvs =
     (if remainingTLVBytes > 0 then
        bind_res (slice_index rawBytes startIndex) (\<lambda>typ.
        bind_res (slice_index rawBytes (startIndex + 1)) (\<lambda>len.
        bind_res (reslice rawBytes (startIndex + 2) (startIndex + 2 + unat len)) (\<lambda>val.
          parseTLVs_loop rawBytes (startIndex + (unat len + 2))
            (remainingTLVBytes - (int (unat len) + 2))
            (tlvs @ [\<lparr>typeTLV = typ, lengthTLV = len, valueTLV = copy_zeroed (unat len) val\<rparr>]))))
      else Inr tlvs)"
  by pat_completeness auto
termination
  by (relation "measure (\<lambda>(raw, i, rem, tlvs). nat rem)") auto

definition parseTLVs :: "go_slice \<Rightarrow> nat \<Rightarrow> IsisTLV list res" where
  "parseTLVs rawBytes startIndex =
     parseTLVs_loop rawBytes startIndex (int (slen rawBytes) - int startIndex) []"

text \<open>The loop that both serializers run over the TLV list.\<close>

primrec serialize_tlvs :: "IsisTLV list \<Rightarrow> bytes" where
  "serialize_tlvs [] = []"
| "serialize_tlvs (tlv # next) =
     [typeTLV tlv] @ [lengthTLV tlv] @ valueTLV tlv @ serialize_tlvs next"

definition wf_tlv :: "IsisTLV \<Rightarrow> bool" where
  "wf_tlv tlv \<longleftrightarrow> length (valueTLV tlv) = unat (lengthTLV tlv)"

section \<open>Frames\<close>

definition l1_multicast :: bytes where
  "l1_multicast = [0x01, 0x80, 0xc2, 0x00, 0x00, 0x14]"

definition buildEthernetFrame :: "bytes \<Rightarrow> bytes \<Rightarrow> bytes \<Rightarrow> bytes" where
  "buildEthernetFrame dst src payload = dst @ src @ [0x08, 0x00] @ payload"

datatype pdu_channel = Dropped | HelloChan | UpdateChan

text \<open>The body of the \<^verbatim>\<open>recvPdus\<close> loop: which channel the received frame is put on.\<close>

definition recvPdus_dispatch :: "go_slice \<Rightarrow> pdu_channel res" where
  "recvPdus_dispatch buf =
     bind_res (slice_index buf 14) (\<lambda>discriminator.
       if discriminator \<noteq> 0x83 then Inr Dropped
       else bind_res (slice_index buf (14 + 4)) (\<lambda>pduType.
         if pduType = 0x0F then Inr HelloChan
         else if pduType = 0x12 then
           bind_res (reslice buf (14 + 7 + 5) (14 + 7 + 5 + 6)) (\<lambda>systemID. Inr UpdateChan)
         else Inr Dropped))"

section \<open>Headers\<close>

record IsisPDUHeader =
  IntraDomainRouteingProtocolDiscriminator :: byte
  LengthPDU :: byte
  ProtocolID :: byte
  SystemIDLength :: byte
  TypePDU :: byte
  Version :: byte
  Reserved :: byte
  MaximumAreaAddresses :: byte

record IsisLspHeader =
  LengthPDU_lsp :: bytes
  RemainingLifetime :: bytes
  LspID_hdr :: bytes
  SequenceNumber :: bytes
  Checksum :: bytes
  PAttOLType :: byte

record IsisLanHelloHeader =
  CircuitType :: byte
  SourceSystemID :: bytes
  HoldingTime :: bytes
  LengthPDU_hello :: bytes
  Priority :: bytes
  LanDis :: bytes

text \<open>
  \<^verbatim>\<open>binary.Write\<close> of a struct of bytes and byte arrays writes the fields in order; \<^verbatim>\<open>binary.Read\<close> reads
  exactly the struct's size (8, 19 and 20 bytes) and leaves the zero struct when fewer bytes remain.
\<close>

definition write_pdu_header :: "IsisPDUHeader \<Rightarrow> bytes" where
  "write_pdu_header h =
     [IntraDomainRouteingProtocolDiscriminator h, LengthPDU h, ProtocolID h, SystemIDLength h,
      TypePDU h, Version h, Reserved h, MaximumAreaAddresses h]"

definition read_pdu_header :: "bytes \<Rightarrow> IsisPDUHeader" where
  "read_pdu_header bs =
     \<lparr>IntraDomainRouteingProtocolDiscriminator = bs ! 0, LengthPDU = bs ! 1, ProtocolID = bs ! 2,
      SystemIDLength = bs ! 3, TypePDU = bs ! 4, Version = bs ! 5, Reserved = bs ! 6,
      MaximumAreaAddresses = bs ! 7\<rparr>"

definition write_lsp_header :: "IsisLspHeader \<Rightarrow> bytes" where
  "write_lsp_header h = LengthPDU_lsp h @ RemainingLifetime h @ LspID_hdr h @ SequenceNumber h @
     Checksum h @ [PAttOLType h]"

definition read_lsp_header :: "bytes \<Rightarrow> IsisLspHeader" where
  "read_lsp_header bs =
     \<lparr>LengthPDU_lsp = take 2 bs, RemainingLifetime = take 2 (drop 2 bs), LspID_hdr = take 8 (drop 4 bs),
      SequenceNumber = take 4 (drop 12 bs), Checksum = take 2 (drop 16 bs), PAttOLType = bs ! 18\<rparr>"

definition write_hello_header :: "IsisLanHelloHeader \<Rightarrow> bytes" where
  "write_hello_header h = [CircuitType h] @ SourceSystemID h @ HoldingTime h @ LengthPDU_hello h @
     Priority h @ LanDis h"

definition read_hello_header :: "bytes \<Rightarrow> IsisLanHelloHeader" where
  "read_hello_header bs =
     \<lparr>CircuitType = bs ! 0, SourceSystemID = take 6 (drop 1 bs), HoldingTime = take 2 (drop 7 bs),
      LengthPDU_hello = take 2 (drop 9 bs), Priority = take 2 (drop 11 bs), LanDis = take 7 (drop 13 bs)\<rparr>"

definition read_fixed :: "nat \<Rightarrow> bytes \<Rightarrow> bytes \<times> bytes" where
  "read_fixed n buf = (if n \<le> length buf then (take n buf, drop n buf) else (replicate n 0, []))"

section \<open>LSPs\<close>

record IsisLspCore =
  Header :: IsisPDUHeader
  LspHeader :: IsisLspHeader
  FirstTLV :: "IsisTLV list"

record IsisLsp =
  Key :: uint64
  LspID :: bytes
  CoreLsp :: IsisLspCore

definition serializeLsp :: "IsisLspCore \<Rightarrow> bytes" where
  "serializeLsp lsp =
     write_pdu_header (Header lsp) @ write_lsp_header (LspHeader lsp) @ serialize_tlvs (FirstTLV lsp)"

definition deserializeLsp :: "go_slice \<Rightarrow> IsisLsp res" where
  "deserializeLsp raw_bytes =
     bind_res (slice_from raw_bytes 14) (\<lambda>buf.
       let (common, buf1) = read_fixed 8 buf;
           (lsphdr, buf2) = read_fixed 19 buf1;
           commonHeader = read_pdu_header common;
           lspHeader = read_lsp_header lsphdr;
           ethernetHeaderSize = 14;
           tlv_offset = ethernetHeaderSize + 8 + 19
       in bind_res (parseTLVs raw_bytes tlv_offset) (\<lambda>tlvs.
            Inr \<lparr>Key = lspIDToKey (LspID_hdr lspHeader), LspID = LspID_hdr lspHeader,
                 CoreLsp = \<lparr>Header = commonHeader, LspHeader = lspHeader, FirstTLV = tlvs\<rparr>\<rparr>))"

definition zero_lsp_header :: IsisLspHeader where
  "zero_lsp_header = \<lparr>LengthPDU_lsp = [0, 0], RemainingLifetime = [0, 0],
     LspID_hdr = replicate 8 0, SequenceNumber = [0, 0, 0, 0], Checksum = [0, 0], PAttOLType = 0\<rparr>"

definition buildEmptyLSP :: "uint32 \<Rightarrow> string \<Rightarrow> IsisLsp" where
  "buildEmptyLSP sequenceNumber sourceSystemID =
     (let lspID = systemIDToLspID sourceSystemID;
          isisPDUHeader = \<lparr>IntraDomainRouteingProtocolDiscriminator = 0x83, LengthPDU = 0x00,
            ProtocolID = 0x01, SystemIDLength = 0x00, TypePDU = 0x12, Version = 0x01,
            Reserved = 0x00, MaximumAreaAddresses = 0x00\<rparr>;
          seq = BigEndian_PutUint32 sequenceNumber;
          lspHeader = zero_lsp_header\<lparr>SequenceNumber := seq, LspID_hdr := lspID\<rparr>
      in \<lparr>Key = lspIDToKey lspID, LspID = lspID,
          CoreLsp = \<lparr>Header = isisPDUHeader, LspHeader = lspHeader, FirstTLV = []\<rparr>\<rparr>)"

text \<open>The sequence number as \<^verbatim>\<open>isisUpdateInput\<close> reads it out of a stored or received LSP.\<close>

definition lsp_seq :: "IsisLsp \<Rightarrow> uint32" where
  "lsp_seq lsp = BigEndian_Uint32 (SequenceNumber (LspHeader (CoreLsp lsp)))"

section \<open>Hello PDUs\<close>

record IsisLanHelloPDU =
  Header_hello :: IsisPDUHeader
  LanHelloHeader :: IsisLanHelloHeader
  FirstTLV_hello :: "IsisTLV list"

definition buildL1HelloPDU :: "bytes \<Rightarrow> IsisLanHelloPDU" where
  "buildL1HelloPDU srcSystemID =
     \<lparr>Header_hello = \<lparr>IntraDomainRouteingProtocolDiscriminator = 0x83, LengthPDU = 0x00,
        ProtocolID = 0x01, SystemIDLength = 0x00, TypePDU = 0x0F, Version = 0x01,
        Reserved = 0x00, MaximumAreaAddresses = 0x00\<rparr>,
      LanHelloHeader = \<lparr>CircuitType = 0x01, SourceSystemID = srcSystemID, HoldingTime = [0x3c, 0x00],
        LengthPDU_hello = [0x00, 0x00], Priority = [0x00, 0x40], LanDis = replicate 7 0x00\<rparr>,
      FirstTLV_hello = []\<rparr>"

definition serializeIsisHelloPDU :: "IsisLanHelloPDU \<Rightarrow> bytes" where
  "serializeIsisHelloPDU pdu = write_pdu_header (Header_hello pdu) @
     write_hello_header (LanHelloHeader pdu) @ serialize_tlvs (FirstTLV_hello pdu)"

text \<open>
  Only the source system ID and the TLVs of a received hello are kept; the other header fields stay
  at their zero values.
\<close>

definition zero_pdu_header :: IsisPDUHeader where
  "zero_pdu_header = read_pdu_header (replicate 8 0)"

definition deserializeIsisHelloPDU :: "go_slice \<Rightarrow> IsisLanHelloPDU res" where
  "deserializeIsisHelloPDU raw_bytes =
     bind_res (slice_from raw_bytes 14) (\<lambda>buf.
       let (common, buf1) = read_fixed 8 buf;
           (hellohdr, buf2) = read_fixed 20 buf1;
           helloHeader = read_hello_header hellohdr;
           ethernetHeaderSize = 14;
           tlv_offset = ethernetHeaderSize + 8 + 20
       in bind_res (parseTLVs raw_bytes tlv_offset) (\<lambda>tlvs.
            Inr \<lparr>Header_hello = zero_pdu_header,
                 LanHelloHeader = (read_hello_header (replicate 20 0))
                   \<lparr>SourceSystemID := SourceSystemID helloHeader\<rparr>,
                 FirstTLV_hello = tlvs\<rparr>))"

section \<open>Well-formed headers\<close>

definition wf_lsp_header :: "IsisLspHeader \<Rightarrow> bool" where
  "wf_lsp_header h \<longleftrightarrow> length (LengthPDU_lsp h) = 2 \<and> length (RemainingLifetime h) = 2 \<and>
     length (LspID_hdr h) = 8 \<and> length (SequenceNumber h) = 4 \<and> length (Checksum h) = 2"

definition wf_hello_header :: "IsisLanHelloHeader \<Rightarrow> bool" where
  "wf_hello_header h \<longleftrightarrow> length (SourceSystemID h) = 6 \<and> length (HoldingTime h) = 2 \<and>
     length (LengthPDU_hello h) = 2 \<and> length (Priority h) = 2 \<and> length (LanDis h) = 7"

text \<open>
  A well-formed LSP: its header arrays have their lengths, every TLV's length byte is the length of
  its value, and the wrapper's ID and key are those of the header.
\<close>

definition wf_core :: "IsisLspCore \<Rightarrow> bool" where
  "wf_core c \<longleftrightarrow> wf_lsp_header (LspHeader c) \<and> list_all wf_tlv (FirstTLV c)"

definition wf_lsp :: "IsisLsp \<Rightarrow> bool" where
  "wf_lsp lsp \<longleftrightarrow> wf_core (CoreLsp lsp) \<and> LspID lsp = LspID_hdr (LspHeader (CoreLsp lsp)) \<and>
     Key lsp = lspIDToKey (LspID lsp)"

text \<open>
  A received frame as a slice: the bytes that were sent, at the front of a buffer that may hold more.
\<close>

definition frame_slice :: "bytes \<Rightarrow> bytes \<Rightarrow> go_slice" where
  "frame_slice frame rest = Slice (frame @ rest) (length frame)"

section \<open>Parsing what was serialized\<close>

declare parseTLVs_loop.simps [simp del]

lemma tlv_eta [simp]:
  "\<lparr>typeTLV = typeTLV tlv, lengthTLV = lengthTLV tlv, valueTLV = valueTLV tlv\<rparr> = tlv"
  by simp

lemma parseTLVs_loop_step:
  assumes "wf_tlv tlv" "0 < rem" "length pre + 1 < n"
  shows "parseTLVs_loop (Slice (pre @ serialize_tlvs (tlv # tlvs) @ rest) n) (length pre) rem acc =
    parseTLVs_loop
      (Slice ((pre @ [typeTLV tlv, lengthTLV tlv] @ valueTLV tlv) @ serialize_tlvs tlvs @ rest) n)
      (length (pre @ [typeTLV tlv, lengthTLV tlv] @ valueTLV tlv))
      (rem - (int (length (valueTLV tlv)) + 2)) (acc @ [tlv])"
  using assms
  by (subst parseTLVs_loop.simps) (auto simp: slice_index_def reslice_def nth_append wf_tlv_def)

text \<open>
  The loop eats well-formed TLVs one by one and goes on with whatever the frame holds after them
  (\<open>k\<close> bytes).
\<close>

lemma parseTLVs_loop_prefix:
  assumes "list_all wf_tlv tlvs" "length pre + length (serialize_tlvs tlvs) + k \<le> n"
  shows "parseTLVs_loop (Slice (pre @ serialize_tlvs tlvs @ rest) n)
      (length pre) (int (length (serialize_tlvs tlvs) + k)) acc =
    parseTLVs_loop (Slice (pre @ serialize_tlvs tlvs @ rest) n)
      (length (pre @ serialize_tlvs tlvs)) (int k) (acc @ tlvs)"
  using assms
proof (induction tlvs arbitrary: pre acc)
  case Nil
  then show ?case by simp
next
  case (Cons tlv tlvs)
  let ?pre = "pre @ [typeTLV tlv, lengthTLV tlv] @ valueTLV tlv"
  from Cons.prems have "wf_tlv tlv" and n: "length pre + 1 < n" by auto
  moreover have "int (length (serialize_tlvs (tlv # tlvs)) + k) - (int (length (valueTLV tlv)) + 2) =
      int (length (serialize_tlvs tlvs) + k)" by simp
  ultimately have "parseTLVs_loop (Slice (pre @ serialize_tlvs (tlv # tlvs) @ rest) n)
      (length pre) (int (length (serialize_tlvs (tlv # tlvs)) + k)) acc =
    parseTLVs_loop (Slice (?pre @ serialize_tlvs tlvs @ rest) n) (length ?pre)
      (int (length (serialize_tlvs tlvs) + k)) (acc @ [tlv])"
    using parseTLVs_loop_step [of tlv "int (length (serialize_tlvs (tlv # tlvs)) + k)" pre n tlvs rest acc]
    by simp
  also have "\<dots> = parseTLVs_loop (Slice (?pre @ serialize_tlvs tlvs @ rest) n)
      (length (?pre @ serialize_tlvs tlvs)) (int k) ((acc @ [tlv]) @ tlvs)"
    using Cons.prems by (intro Cons.IH) auto
  finally show ?case by simp
qed

lemma parseTLVs_frame_prefix:
  assumes "list_all wf_tlv tlvs" "length hdr = n"
  shows "parseTLVs (frame_slice (hdr @ serialize_tlvs tlvs @ tail) rest) n =
    parseTLVs_loop (frame_slice (hdr @ serialize_tlvs tlvs @ tail) rest)
      (length (hdr @ serialize_tlvs tlvs)) (int (length tail)) tlvs"
  using parseTLVs_loop_prefix [OF assms(1), of hdr "length tail"
      "length hdr + length (serialize_tlvs tlvs) + length tail" "tail @ rest" "[]"] assms(2)
  by (simp add: parseTLVs_def frame_slice_def add.assoc)

lemma parseTLVs_frame:
  assumes "list_all wf_tlv tlvs" "length hdr = n"
  shows "parseTLVs (frame_slice (hdr @ serialize_tlvs tlvs) rest) n = Inr tlvs"
  using parseTLVs_frame_prefix [OF assms, of "[]" rest] by (simp add: parseTLVs_loop.simps)

lemma slice_from_frame: "n \<le> length frame \<Longrightarrow> slice_from (frame_slice frame rest) n = Inr (drop n frame)"
  by (simp add: slice_from_def frame_slice_def)

lemma length_write_pdu_header [simp, wire_simps]: "length (write_pdu_header h) = 8"
  by (simp add: write_pdu_header_def)

lemma read_write_pdu_header [simp]: "read_pdu_header (write_pdu_header h) = h"
  by (simp add: read_pdu_header_def write_pdu_header_def)

lemma length_write_lsp_header [wire_simps]: "wf_lsp_header h \<Longrightarrow> length (write_lsp_header h) = 19"
  by (simp add: wf_lsp_header_def write_lsp_header_def)

lemma read_write_lsp_header: "wf_lsp_header h \<Longrightarrow> read_lsp_header (write_lsp_header h) = h"
  by (simp add: wf_lsp_header_def read_lsp_header_def write_lsp_header_def nth_append)

lemma length_write_hello_header [wire_simps]:
  "wf_hello_header h \<Longrightarrow> length (write_hello_header h) = 20"
  by (simp add: wf_hello_header_def write_hello_header_def)

lemma read_write_hello_header: "wf_hello_header h \<Longrightarrow> read_hello_header (write_hello_header h) = h"
  by (simp add: wf_hello_header_def read_hello_header_def write_hello_header_def)

lemma read_fixed_append [simp]: "length bs = n \<Longrightarrow> read_fixed n (bs @ rest) = (bs, rest)"
  by (simp add: read_fixed_def)

lemma deserializeLsp_serializeLsp:
  assumes "length eth = 14" "wf_core core"
  shows "deserializeLsp (frame_slice (eth @ serializeLsp core) rest) =
    Inr \<lparr>Key = lspIDToKey (LspID_hdr (LspHeader core)), LspID = LspID_hdr (LspHeader core), CoreLsp = core\<rparr>"
proof -
  from assms(2) have wf: "wf_lsp_header (LspHeader core)" "list_all wf_tlv (FirstTLV core)"
    by (auto simp: wf_core_def)
  have "parseTLVs (frame_slice (eth @ serializeLsp core) rest) 41 = Inr (FirstTLV core)"
    using parseTLVs_frame [OF wf(2), of
        "eth @ write_pdu_header (Header core) @ write_lsp_header (LspHeader core)" 41 rest]
      assms(1) length_write_lsp_header [OF wf(1)] by (simp add: serializeLsp_def)
  moreover have "slice_from (frame_slice (eth @ serializeLsp core) rest) 14 = Inr (serializeLsp core)"
    using assms(1) by (simp add: slice_from_frame)
  ultimately show ?thesis
    using length_write_lsp_header [OF wf(1)] read_write_lsp_header [OF wf(1)]
    by (simp add: deserializeLsp_def serializeLsp_def Let_def)
qed

lemma deserialize_serialize_hello:
  assumes "length eth = 14" "wf_hello_header (LanHelloHeader pdu)" "list_all wf_tlv (FirstTLV_hello pdu)"
  shows "\<exists>hello. deserializeIsisHelloPDU (frame_slice (eth @ serializeIsisHelloPDU pdu) rest) = Inr hello \<and>
    SourceSystemID (LanHelloHeader hello) = SourceSystemID (LanHelloHeader pdu) \<and>
    FirstTLV_hello hello = FirstTLV_hello pdu"
proof -
  let ?frame = "frame_slice (eth @ serializeIsisHelloPDU pdu) rest"
  have "parseTLVs ?frame 42 = Inr (FirstTLV_hello pdu)"
    using parseTLVs_frame [OF assms(3), of
        "eth @ write_pdu_header (Header_hello pdu) @ write_hello_header (LanHelloHeader pdu)" 42 rest]
      assms(1) length_write_hello_header [OF assms(2)] by (simp add: serializeIsisHelloPDU_def)
  moreover have "slice_from ?frame 14 = Inr (serializeIsisHelloPDU pdu)"
    using assms(1) by (simp add: slice_from_frame)
  ultimately show ?thesis
    using length_write_hello_header [OF assms(2)] read_write_hello_header [OF assms(2)]
    by (simp add: deserializeIsisHelloPDU_def serializeIsisHelloPDU_def Let_def)
qed

section \<open>Properties of the wire formats\<close>

text \<open>
  C26: every well-formed LSP that is serialized, framed and sent is decoded by the receiver to the
  same LSP, with the same database key, whatever the receive buffer holds behind the frame.
\<close>

theorem lsp_wire_round_trip:
  assumes "wf_lsp lsp" and "length mac = 6"
  shows "deserializeLsp (frame_slice
    (buildEthernetFrame l1_multicast mac (serializeLsp (CoreLsp lsp))) rest) = Inr lsp"
proof -
  from assms(2) have "length (l1_multicast @ mac @ [0x08, 0x00]) = 14" by (simp add: l1_multicast_def)
  from deserializeLsp_serializeLsp [OF this, of "CoreLsp lsp" rest] assms(1) show ?thesis
    by (simp add: buildEthernetFrame_def wf_lsp_def)
qed

theorem lsp_wire_round_trip_witness:
  "deserializeLsp (frame_slice (buildEthernetFrame l1_multicast [2, 0x42, 0xac, 0x14, 0, 2]
     (serializeLsp (CoreLsp (buildEmptyLSP 7 ''1111.1111.1112'')))) [0, 0, 0]) =
   Inr (buildEmptyLSP 7 ''1111.1111.1112'')"
proof -
  have "wf_lsp (buildEmptyLSP 7 ''1111.1111.1112'')"
    by (simp add: wf_lsp_def wf_core_def wf_lsp_header_def buildEmptyLSP_def zero_lsp_header_def Let_def)
  then show ?thesis by (rule lsp_wire_round_trip) simp
qed

text \<open>
  A hello that the daemon builds for a six-byte system ID and sends with well-formed TLVs is put
  on the hello channel by the receiver, and decoded to the same source system ID and the same TLVs;
  an LSP with the header \<^verbatim>\<open>buildEmptyLSP\<close> gives it is put on the update channel.
\<close>

lemma frames_reach_their_process:
  assumes "length sid = 6" and "length mac = 6" and "list_all wf_tlv tlvs"
    and "wf_lsp lsp" and "Header (CoreLsp lsp) = Header (CoreLsp (buildEmptyLSP n s))"
  defines "pdu \<equiv> (buildL1HelloPDU sid)\<lparr>FirstTLV_hello := tlvs\<rparr>"
  shows "recvPdus_dispatch (frame_slice
      (buildEthernetFrame l1_multicast mac (serializeIsisHelloPDU pdu)) rest) = Inr HelloChan \<and>
    (\<exists>hello. deserializeIsisHelloPDU (frame_slice
      (buildEthernetFrame l1_multicast mac (serializeIsisHelloPDU pdu)) rest) = Inr hello \<and>
      SourceSystemID (LanHelloHeader hello) = sid \<and> FirstTLV_hello hello = tlvs) \<and>
    recvPdus_dispatch (frame_slice
      (buildEthernetFrame l1_multicast mac (serializeLsp (CoreLsp lsp))) rest) = Inr UpdateChan"
proof (intro conjI)
  have hdr: "length (l1_multicast @ mac @ [0x08, 0x00]) = 14" using assms(2) by (simp add: l1_multicast_def)
  have "wf_hello_header (LanHelloHeader pdu)" "FirstTLV_hello pdu = tlvs"
    "SourceSystemID (LanHelloHeader pdu) = sid"
    using assms(1) by (auto simp: pdu_def buildL1HelloPDU_def wf_hello_header_def)
  with deserialize_serialize_hello [OF hdr, of pdu rest] assms(3)
  show "\<exists>hello. deserializeIsisHelloPDU (frame_slice
      (buildEthernetFrame l1_multicast mac (serializeIsisHelloPDU pdu)) rest) = Inr hello \<and>
      SourceSystemID (LanHelloHeader hello) = sid \<and> FirstTLV_hello hello = tlvs"
    by (auto simp: buildEthernetFrame_def)
  from assms(2) show "recvPdus_dispatch (frame_slice
      (buildEthernetFrame l1_multicast mac (serializeIsisHelloPDU pdu)) rest) = Inr HelloChan"
    by (simp add: recvPdus_dispatch_def slice_index_def frame_slice_def buildEthernetFrame_def
        serializeIsisHelloPDU_def write_pdu_header_def pdu_def buildL1HelloPDU_def l1_multicast_def nth_append)
  from assms(4) have "length (write_lsp_header (LspHeader (CoreLsp lsp))) = 19"
    by (intro length_write_lsp_header) (simp add: wf_lsp_def wf_core_def)
  with assms(2,5) show "recvPdus_dispatch (frame_slice
      (buildEthernetFrame l1_multicast mac (serializeLsp (CoreLsp lsp))) rest) = Inr UpdateChan"
    by (simp add: recvPdus_dispatch_def slice_index_def reslice_def frame_slice_def buildEthernetFrame_def
        serializeLsp_def write_pdu_header_def buildEmptyLSP_def Let_def l1_multicast_def nth_append)
qed

text \<open>
  C34: what \<^verbatim>\<open>parseTLVs\<close> does with a frame that is cut in the middle of a TLV.  One stray byte after the
  last complete TLV makes it index past the frame and panic.  A TLV whose length byte promises more
  bytes than the frame has is accepted, its value completed with whatever the receive buffer holds
  behind the frame, because the slice expression is only checked against the buffer's capacity.
\<close>

theorem parseTLVs_truncated:
  assumes "list_all wf_tlv tlvs" and "length hdr = n"
    and "length v < unat len" and "unat len \<le> length (v @ rest)"
  shows "parseTLVs (frame_slice (hdr @ serialize_tlvs tlvs @ [typ]) rest) n = Inl IndexOutOfRange \<and>
    parseTLVs (frame_slice (hdr @ serialize_tlvs tlvs @ [typ, len] @ v) rest) n =
      Inr (tlvs @ [\<lparr>typeTLV = typ, lengthTLV = len, valueTLV = take (unat len) (v @ rest)\<rparr>])"
proof
  show "parseTLVs (frame_slice (hdr @ serialize_tlvs tlvs @ [typ]) rest) n = Inl IndexOutOfRange"
    unfolding parseTLVs_frame_prefix [OF assms(1,2)]
    by (subst parseTLVs_loop.simps) (simp add: slice_index_def frame_slice_def)
  from assms(3) have "int (length v) < int (unat len)" by (simp only: of_nat_less_iff)
  then have "\<not> uint len < int (length v)" by simp
  then have "parseTLVs_loop (frame_slice (hdr @ serialize_tlvs tlvs @ [typ, len] @ v) rest)
      (length (hdr @ serialize_tlvs tlvs)) (int (length ([typ, len] @ v))) tlvs =
    Inr (tlvs @ [\<lparr>typeTLV = typ, lengthTLV = len, valueTLV = take (unat len) (v @ rest)\<rparr>])"
    using assms(3,4)
    by (subst parseTLVs_loop.simps)
      (simp add: slice_index_def reslice_def frame_slice_def nth_append parseTLVs_loop.simps [of _ _ "_ - _"])
  then show "parseTLVs (frame_slice (hdr @ serialize_tlvs tlvs @ [typ, len] @ v) rest) n =
      Inr (tlvs @ [\<lparr>typeTLV = typ, lengthTLV = len, valueTLV = take (unat len) (v @ rest)\<rparr>])"
    unfolding parseTLVs_frame_prefix [OF assms(1,2)] .
qed

theorem parseTLVs_truncated_witness:
  "parseTLVs (frame_slice ([] @ serialize_tlvs [] @ [6]) [0, 0, 0]) 0 = Inl IndexOutOfRange \<and>
   parseTLVs (frame_slice ([] @ serialize_tlvs [] @ [6, 3] @ [9]) [0, 0, 0]) 0 =
     Inr [\<lparr>typeTLV = 6, lengthTLV = 3, valueTLV = [9, 0, 0]\<rparr>]"
  using parseTLVs_truncated [of "[]" "[]" 0 "[9]" 3 "[0, 0, 0]" 6] by simp

end
