(* ===== verification/Config.thy ===== *)
theory Config
  imports Avl Wire
begin

text \<open>
  The state of a node: \<^verbatim>\<open>Config\<close>, \<^verbatim>\<open>Intf\<close>, \<^verbatim>\<open>Adjacency\<close> and \<^verbatim>\<open>LspFloodState\<close> of \<^verbatim>\<open>src/main.go\<close>, the
  globals \<^verbatim>\<open>UpdateDB\<close>, \<^verbatim>\<open>TopoDB\<close> and \<^verbatim>\<open>sequenceNumber\<close>, the initialisation of the interface table at
  boot, and the configuration request.

  Every \<^verbatim>\<open>Intf\<close> owns exactly one \<^verbatim>\<open>Adjacency\<close>, allocated with it and never replaced, so the model has
  it inside the interface; a \<^verbatim>\<open>*Adjacency\<close> held elsewhere (in a \<^verbatim>\<open>Triple\<close>) is the index of the
  interface that owns it.  Mutexes do not appear in the state: the operations are the sections the
  code runs under its locks.
\<close>

section \<open>Data\<close>

record IPNet =
  IP :: bytes
  Mask :: bytes

record Adjacency =
  state :: string
  neighborSystemID :: bytes
  metric :: uint32
  intfName :: string
  neighborIP :: "bytes option"

record LspFloodState =
  LspIDKey :: uint64
  LspID_fs :: bytes
  SRM :: bool
  SSN :: bool

record Intf =
  adj :: Adjacency
  name :: string
  prefix :: bytes
  mask :: bytes
  routes :: "IPNet option list"
  lspFloodStates :: "uint64 \<rightharpoonup> LspFloodState"

text \<open>A path or a tentative path of the decision process (\<^verbatim>\<open>src/decision.go\<close>).\<close>

type_synonym adj_ptr = nat

record Triple =
  systemID :: string
  distance :: uint32
  adj_ref :: "adj_ptr option"

record node =
  sid :: string
  interfaces :: "Intf list"
  UpdateDB :: "IsisLsp avl"
  TopoDB :: "Triple avl"
  sequenceNumber :: uint32

text \<open>Following an adjacency pointer.\<close>

definition adj_deref :: "Intf list \<Rightarrow> adj_ptr \<Rightarrow> Adjacency res" where
  "adj_deref intfs p = (if p < length intfs then Inr (adj (intfs ! p)) else Inl NilDereference)"

section \<open>Boot\<close>

text \<open>
  What \<^verbatim>\<open>net.Interfaces\<close>, \<^verbatim>\<open>Addrs\<close> and \<^verbatim>\<open>netlink.RouteList\<close> report is the environment: the list of
  system interfaces, each with its addresses (or an error), and per interface the destinations of its
  IPv4 routes (\<open>None\<close> for a route without a destination).
\<close>

datatype net_addr = IPNetAddr IPNet | OtherAddr

record net_iface =
  if_name :: string
  if_addrs :: "string + net_addr list"

definition To4 :: "bytes \<Rightarrow> bytes option" where
  "To4 ip = (if length ip = 4 then Some ip
     else if length ip = 16 \<and> take 10 ip = replicate 10 0 \<and> ip ! 10 = 0xff \<and> ip ! 11 = 0xff
       then Some (drop 12 ip)
     else None)"

definition new_Intf :: "string \<Rightarrow> IPNet \<Rightarrow> IPNet option list \<Rightarrow> Intf" where
  "new_Intf ifname v route_dsts =
     \<lparr>adj = \<lparr>state = ''NEW'', neighborSystemID = [], metric = 0, intfName = ifname, neighborIP = None\<rparr>,
      name = ifname, prefix = IP v, mask = Mask v,
      routes = filter (\<lambda>dst. dst \<noteq> None) route_dsts, lspFloodStates = Map.empty\<rparr>"

text \<open>
  The inner loop over the addresses of one interface.  The state of the loop is the interface table
  (a slot is \<open>None\<close> until it is filled) and the next free index.
\<close>

fun init_addrs ::
  "(string \<Rightarrow> IPNet option list) \<Rightarrow> string \<Rightarrow> net_addr list \<Rightarrow> Intf option list \<times> nat \<Rightarrow>
   (Intf option list \<times> nat) res" where
  "init_addrs routeList ifname [] st = Inr st"
| "init_addrs routeList ifname (OtherAddr # addrs) st = init_addrs routeList ifname addrs st"
| "init_addrs routeList ifname (IPNetAddr v # addrs) (slots, index) =
     (if To4 (IP v) \<noteq> None then
        (if index < length slots then
           init_addrs routeList ifname addrs
             (slots[index := Some (new_Intf ifname v (routeList ifname))], index + 1)
         else Inl IndexOutOfRange)
      else init_addrs routeList ifname addrs (slots, index))"

fun init_ifaces ::
  "(string \<Rightarrow> IPNet option list) \<Rightarrow> net_iface list \<Rightarrow> Intf option list \<times> nat \<Rightarrow>
   (Intf option list \<times> nat) res" where
  "init_ifaces routeList [] st = Inr st"
| "init_ifaces routeList (i # ifaces) st =
     (if if_name i = ''lo'' then init_ifaces routeList ifaces st
      else (case if_addrs i of
              Inl err \<Rightarrow> init_ifaces routeList ifaces st
            | Inr addrs \<Rightarrow> bind_res (init_addrs routeList (if_name i) addrs st)
                (init_ifaces routeList ifaces)))"

text \<open>
  \<^verbatim>\<open>initInterfaces\<close>: the table is allocated with one slot less than there are interfaces (before the
  error is looked at: on an error the list is nil and the length -1).
\<close>

definition initInterfaces ::
  "(string \<Rightarrow> IPNet option list) \<Rightarrow> string + net_iface list \<Rightarrow> Intf option list res" where
  "initInterfaces routeList net_interfaces =
     (case net_interfaces of
        Inl err \<Rightarrow> Inl MakeSliceLen
      | Inr ifaces \<Rightarrow>
          if ifaces = [] then Inl MakeSliceLen
          else bind_res (init_ifaces routeList ifaces (replicate (length ifaces - 1) None, 0))
                 (\<lambda>(slots, index). Inr slots))"

text \<open>
  The boot sequence of \<^verbatim>\<open>main\<close>: configuration, interfaces, empty databases, and the loop that reads
  \<^verbatim>\<open>intf.name\<close> of every slot of the table to open its sockets.
\<close>

definition boot :: "(string \<Rightarrow> IPNet option list) \<Rightarrow> string + net_iface list \<Rightarrow> node res" where
  "boot routeList net_interfaces =
     bind_res (initInterfaces routeList net_interfaces) (\<lambda>slots.
     bind_res (map_res (\<lambda>slot. case slot of None \<Rightarrow> Inl NilDereference | Some intf \<Rightarrow> Inr intf) slots)
       (\<lambda>intfs. Inr \<lparr>sid = '''', interfaces = intfs, UpdateDB = NilNode, TopoDB = NilNode,
                   sequenceNumber = 0\<rparr>))"

section \<open>The configuration request and the adjacency lookup\<close>

definition ConfigureSystemID :: "node \<Rightarrow> string \<Rightarrow> node \<times> string" where
  "ConfigureSystemID n new_sid = (n\<lparr>sid := new_sid\<rparr>, ''SID '' @ new_sid @ '' successfully configured'')"

definition GetSystemID :: "node \<Rightarrow> string" where
  "GetSystemID n = sid n"

text \<open>The first interface whose adjacency is up with the given system.\<close>

fun getAdjacency_from :: "nat \<Rightarrow> Intf list \<Rightarrow> string \<Rightarrow> adj_ptr option" where
  "getAdjacency_from i [] nbr = None"
| "getAdjacency_from i (intf # intfs) nbr =
     (if state (adj intf) = ''UP'' \<and> systemIDToString (neighborSystemID (adj intf)) = nbr then Some i
      else getAdjacency_from (Suc i) intfs nbr)"

definition getAdjacency :: "Intf list \<Rightarrow> string \<Rightarrow> adj_ptr option" where
  "getAdjacency cfg_interfaces nbr = getAdjacency_from 0 cfg_interfaces nbr"

section \<open>Invariant of an interface\<close>

text \<open>
  The adjacency is in one of its three states; once it is up its neighbour's identity is complete.
  Every flood state is filed under its own key, which is the key of its LSP ID.
\<close>

definition adj_inv :: "Adjacency \<Rightarrow> bool" where
  "adj_inv a \<longleftrightarrow> state a \<in> {''NEW'', ''INIT'', ''UP''} \<and>
     (state a = ''UP'' \<longrightarrow> length (neighborSystemID a) = 6 \<and> metric a = 10 \<and>
        (\<exists>ip. neighborIP a = Some ip \<and> length ip = 4))"

definition flood_inv :: "(uint64 \<rightharpoonup> LspFloodState) \<Rightarrow> bool" where
  "flood_inv m \<longleftrightarrow> (\<forall>k st. m k = Some st \<longrightarrow>
     LspIDKey st = k \<and> length (LspID_fs st) = 8 \<and> lspIDToKey (LspID_fs st) = k)"

definition intf_inv :: "Intf \<Rightarrow> bool" where
  "intf_inv i \<longleftrightarrow> adj_inv (adj i) \<and> flood_inv (lspFloodStates i)"

section \<open>Which systems boot\<close>

text \<open>
  What the table should hold: one fresh interface per IPv4 address of an interface that is not the
  loopback, in the order in which the system reports them.
\<close>

definition v4_intfs :: "IPNet option list \<Rightarrow> string \<Rightarrow> net_addr list \<Rightarrow> Intf list" where
  "v4_intfs route_dsts ifname addrs =
     concat (map (\<lambda>a. case a of OtherAddr \<Rightarrow> []
       | IPNetAddr v \<Rightarrow> if To4 (IP v) \<noteq> None then [new_Intf ifname v route_dsts] else []) addrs)"

definition boot_interfaces :: "(string \<Rightarrow> IPNet option list) \<Rightarrow> net_iface list \<Rightarrow> Intf list" where
  "boot_interfaces routeList ifaces =
     concat (map (\<lambda>i. if if_name i = ''lo'' then []
       else (case if_addrs i of Inl err \<Rightarrow> []
             | Inr addrs \<Rightarrow> v4_intfs (routeList (if_name i)) (if_name i) addrs)) ifaces)"

text \<open>
  The state of the two loops: the first slots hold the interfaces \<open>xs\<close> found so far, the other \<open>m\<close>
  are nil.  The loops append to \<open>xs\<close> as long as there is room.
\<close>

definition slots_of :: "Intf list \<Rightarrow> nat \<Rightarrow> Intf option list \<times> nat" where
  "slots_of xs m = (map Some xs @ replicate m None, length xs)"

definition put_slots :: "Intf list \<Rightarrow> nat \<Rightarrow> Intf list \<Rightarrow> (Intf option list \<times> nat) res" where
  "put_slots xs m ys =
     (if length ys \<le> m then Inr (slots_of (xs @ ys) (m - length ys)) else Inl IndexOutOfRange)"

lemma put_slots_Nil [simp]: "put_slots xs m [] = Inr (slots_of xs m)"
  by (simp add: put_slots_def)

lemma put_slots_Cons:
  "put_slots xs m (y # ys) = (if m = 0 then Inl IndexOutOfRange else put_slots (xs @ [y]) (m - 1) ys)"
  by (auto simp: put_slots_def)

lemma put_slots_append:
  "put_slots xs m (ys @ zs) = bind_res (put_slots xs m ys) (\<lambda>_. put_slots (xs @ ys) (m - length ys) zs)"
  by (auto simp: put_slots_def)

lemma v4_intfs_simps:
  "v4_intfs rs ifname [] = []"
  "v4_intfs rs ifname (OtherAddr # addrs) = v4_intfs rs ifname addrs"
  "v4_intfs rs ifname (IPNetAddr v # addrs) =
     (if To4 (IP v) = None then [] else [new_Intf ifname v rs]) @ v4_intfs rs ifname addrs"
  by (simp_all add: v4_intfs_def)

lemma init_addrs_put:
  "init_addrs rl ifname addrs (slots_of xs m) = put_slots xs m (v4_intfs (rl ifname) ifname addrs)"
proof (induction addrs arbitrary: xs m)
  case (Cons a addrs)
  have set_slot: "(map Some xs @ replicate m None)[length xs := Some y] = map Some (xs @ [y]) @ replicate (m - 1) None"
    if "m \<noteq> 0" for y :: Intf
    using that by (cases m) (simp_all add: list_update_append)
  show ?case
  proof (cases a)
    case (IPNetAddr v)
    with Cons.IH [of "xs @ [new_Intf ifname v (rl ifname)]" "m - 1"] Cons.IH [of xs m]
    show ?thesis by (simp add: slots_of_def v4_intfs_simps put_slots_Cons set_slot)
  qed (use Cons.IH [of xs m] in \<open>simp add: v4_intfs_simps\<close>)
qed (simp add: v4_intfs_simps)

lemma init_ifaces_put:
  "init_ifaces rl ifaces (slots_of xs m) = put_slots xs m (boot_interfaces rl ifaces)"
proof (induction ifaces arbitrary: xs m)
  case (Cons i ifaces)
  show ?case
  proof (cases "if_name i = ''lo'' \<or> (\<exists>e. if_addrs i = Inl e)")
    case True
    with Cons.IH show ?thesis by (auto simp: boot_interfaces_def)
  next
    case False
    then obtain addrs where i: "if_name i \<noteq> ''lo''" "if_addrs i = Inr addrs"
      by (cases "if_addrs i") auto
    let ?ys = "v4_intfs (rl (if_name i)) (if_name i) addrs"
    from i have "boot_interfaces rl (i # ifaces) = ?ys @ boot_interfaces rl ifaces"
      by (simp add: boot_interfaces_def)
    moreover have "bind_res (put_slots xs m ?ys) (init_ifaces rl ifaces) =
        bind_res (put_slots xs m ?ys) (\<lambda>_. put_slots (xs @ ?ys) (m - length ?ys) (boot_interfaces rl ifaces))"
      using Cons.IH [of "xs @ ?ys" "m - length ?ys"] by (simp add: put_slots_def)
    ultimately show ?thesis using i by (simp add: init_addrs_put put_slots_append)
  qed
qed (simp add: boot_interfaces_def)

text \<open>The loop of \<^verbatim>\<open>main\<close> gets through the table when no slot is nil.\<close>

lemma map_res_slots:
  "map_res (\<lambda>slot. case slot of None \<Rightarrow> Inl NilDereference | Some intf \<Rightarrow> Inr intf) (map Some xs @ replicate m None) =
     (if m = 0 then Inr xs else Inl NilDereference)"
proof (induction xs)
  case Nil
  show ?case by (cases m) simp_all
qed (simp add: res_simps)

lemma boot_eq:
  "boot routeList net_interfaces =
     (case net_interfaces of Inl err \<Rightarrow> Inl MakeSliceLen | Inr ifaces \<Rightarrow>
        if ifaces = [] then Inl MakeSliceLen
        else if length ifaces - 1 < length (boot_interfaces routeList ifaces) then Inl IndexOutOfRange
        else if length (boot_interfaces routeList ifaces) < length ifaces - 1 then Inl NilDereference
        else Inr \<lparr>sid = '''', interfaces = boot_interfaces routeList ifaces, UpdateDB = NilNode,
                  TopoDB = NilNode, sequenceNumber = 0\<rparr>)"
proof -
  have empty: "(replicate m None, 0) = slots_of [] m" for m by (simp add: slots_of_def)
  have "init_ifaces routeList ifaces (replicate m None, 0) = put_slots [] m (boot_interfaces routeList ifaces)"
    for ifaces m unfolding empty by (rule init_ifaces_put)
  then show ?thesis
    by (auto simp: boot_def initInterfaces_def put_slots_def slots_of_def map_res_slots split: sum.splits)
qed

lemma new_Intf_inv: "intf_inv (new_Intf ifname v rs)"
  by (simp add: intf_inv_def adj_inv_def flood_inv_def new_Intf_def)

lemma boot_interfaces_fresh:
  "i \<in> set (boot_interfaces routeList ifaces) \<Longrightarrow> \<exists>ifname v. i = new_Intf ifname v (routeList ifname)"
  by (auto simp: boot_interfaces_def v4_intfs_def split: sum.splits net_addr.splits if_splits)

lemma boot_node:
  assumes "boot routeList net_interfaces = Inr n"
  shows "sid n = '''' \<and> UpdateDB n = NilNode \<and> TopoDB n = NilNode \<and> sequenceNumber n = 0 \<and>
    (\<forall>i \<in> set (interfaces n). \<exists>ifname v. i = new_Intf ifname v (routeList ifname))"
  using assms boot_interfaces_fresh by (auto simp: boot_eq split: sum.splits if_splits)


end
