(* ===== verification/Lsp.thy ===== *)
theory Lsp
  imports Config
begin

text \<open>
  The contents of LSPs (\<^verbatim>\<open>src/update.go\<close>): the TLVs a node advertises (\<^verbatim>\<open>getIPReachTLV\<close>,
  \<^verbatim>\<open>getNeighborTLV\<close>), what a receiver reads out of them (\<^verbatim>\<open>getNeighbors\<close>, \<^verbatim>\<open>lookupNeighbors\<close>,
  \<^verbatim>\<open>getPrefixesFromTLV\<close>, \<^verbatim>\<open>getDirectlyConnectedPrefixes\<close>), and the interface TLV of a hello
  (\<^verbatim>\<open>src/hello.go\<close>).  The one-byte length of a TLV wraps around; the theorems say up to which size the
  advertised TLV is what the receiver reads.
\<close>

section \<open>The code\<close>

record Neighbor =
  systemID_nbr :: string
  metric_nbr :: uint32

text \<open>The body of the inner loop of \<^verbatim>\<open>getIPReachTLV\<close>, run for every route of every interface.\<close>

definition add_route :: "IPNet option \<Rightarrow> IsisTLV \<Rightarrow> IsisTLV" where
  "add_route route tlv =
     (case route of
        None \<Rightarrow> tlv
      | Some r \<Rightarrow> tlv\<lparr>valueTLV := valueTLV tlv @ IP r @ Mask r @ [0x00, 0x00, 0x00, 0x0a],
                     lengthTLV := lengthTLV tlv + 12\<rparr>)"

definition getIPReachTLV :: "Intf list \<Rightarrow> IsisTLV" where
  "getIPReachTLV intfs =
     fold (\<lambda>intf. fold add_route (routes intf)) intfs
       \<lparr>typeTLV = 128, lengthTLV = 0, valueTLV = []\<rparr>"

definition add_neighbor :: "Intf \<Rightarrow> IsisTLV \<Rightarrow> IsisTLV" where
  "add_neighbor intf tlv =
     (if state (adj intf) \<noteq> ''UP'' then tlv
      else tlv\<lparr>valueTLV := ((valueTLV tlv @ [0x00, 0x00, 0x00, 0x0a]) @ neighborSystemID (adj intf)) @ [0x00],
               lengthTLV := lengthTLV tlv + 11\<rparr>)"

definition getNeighborTLV :: "Intf list \<Rightarrow> IsisTLV" where
  "getNeighborTLV intfs =
     fold add_neighbor intfs \<lparr>typeTLV = 2, lengthTLV = 1, valueTLV = [0x00]\<rparr>"

text \<open>
  A slice expression on a TLV value.  The value's capacity is its length, as it is for a TLV that was parsed from
  a frame; a value the node has built by appending may have spare capacity.
\<close>

definition value_slice :: "IsisTLV \<Rightarrow> nat \<Rightarrow> nat \<Rightarrow> bytes res" where
  "value_slice tlv lo hi = reslice (Slice (valueTLV tlv) (length (valueTLV tlv))) lo hi"

text \<open>
  The loop of \<^verbatim>\<open>getNeighbors\<close>; the first argument counts the neighbours still to be read.  The count
  \<^verbatim>\<open>(int(length) - 1) / 11\<close> truncates towards zero, so an empty TLV has none.
\<close>

fun getNeighbors_loop :: "nat \<Rightarrow> IsisTLV \<Rightarrow> nat \<Rightarrow> Neighbor list res" where
  "getNeighbors_loop 0 tlv currentByte = Inr []"
| "getNeighbors_loop (Suc n) tlv currentByte =
     bind_res (value_slice tlv currentByte (currentByte + 4)) (\<lambda>m.
     bind_res (value_slice tlv (currentByte + 4) (currentByte + 4 + 6)) (\<lambda>s.
     bind_res (getNeighbors_loop n tlv (currentByte + 4 + 7)) (\<lambda>rest.
       Inr (\<lparr>systemID_nbr = systemIDToString s, metric_nbr = BigEndian_Uint32 m\<rparr> # rest))))"

definition getNeighbors :: "IsisTLV \<Rightarrow> Neighbor list res" where
  "getNeighbors neighborTLV = getNeighbors_loop ((unat (lengthTLV neighborTLV) - 1) div 11) neighborTLV 1"

fun lookupNeighbors_loop :: "IsisTLV list \<Rightarrow> Neighbor list res" where
  "lookupNeighbors_loop [] = Inr []"
| "lookupNeighbors_loop (currentTLV # next) =
     (if unat (typeTLV currentTLV) = ISIS_NEIGHBORS_TLV then getNeighbors currentTLV
      else lookupNeighbors_loop next)"

definition lookupNeighbors :: "IsisLsp \<Rightarrow> Neighbor list res" where
  "lookupNeighbors lsp = lookupNeighbors_loop (FirstTLV (CoreLsp lsp))"

fun getPrefixes_loop :: "nat \<Rightarrow> IsisTLV \<Rightarrow> nat \<Rightarrow> IPNet list res" where
  "getPrefixes_loop 0 tlv currentPrefix = Inr []"
| "getPrefixes_loop (Suc n) tlv currentPrefix =
     bind_res (value_slice tlv (currentPrefix * 12) (currentPrefix * 12 + 4)) (\<lambda>ip.
     bind_res (value_slice tlv (currentPrefix * 12 + 4) (currentPrefix * 12 + 4 + 4)) (\<lambda>m.
     bind_res (getPrefixes_loop n tlv (currentPrefix + 1)) (\<lambda>rest.
       Inr (\<lparr>IP = ip, Mask = m\<rparr> # rest))))"

definition getPrefixesFromTLV :: "IsisTLV \<Rightarrow> IPNet list res" where
  "getPrefixesFromTLV tlv = getPrefixes_loop (unat (lengthTLV tlv) div 12) tlv 0"

fun prefixes_of_tlvs :: "IsisTLV list \<Rightarrow> IPNet list res" where
  "prefixes_of_tlvs [] = Inr []"
| "prefixes_of_tlvs (currentTLV # next) =
     (if unat (typeTLV currentTLV) = ISIS_IP_INTERNAL_REACH_TLV then getPrefixesFromTLV currentTLV
      else prefixes_of_tlvs next)"

definition getDirectlyConnectedPrefixes :: "IsisLsp avl \<Rightarrow> string \<Rightarrow> IPNet list res" where
  "getDirectlyConnectedPrefixes root sys_id =
     (case AvlSearch root (systemIDToKey sys_id) of
        None \<Rightarrow> Inr []
      | Some lsp \<Rightarrow> prefixes_of_tlvs (FirstTLV (CoreLsp lsp)))"

text \<open>
  \<^verbatim>\<open>getInterfaceTLV\<close>: \<^verbatim>\<open>To4\<close> of an address that is not an IPv4 address is nil and copies nothing.
\<close>

definition getInterfaceTLV :: "Intf \<Rightarrow> IsisTLV" where
  "getInterfaceTLV intf =
     \<lparr>typeTLV = ISIS_IP_INTF_ADDR_TLV, lengthTLV = 4,
      valueTLV = copy_zeroed 4 (case To4 (prefix intf) of None \<Rightarrow> [] | Some ip \<Rightarrow> ip)\<rparr>"

text \<open>The LSP that \<^verbatim>\<open>generateLocalLsp\<close> builds: an empty LSP with the two TLVs linked in.\<close>

definition local_lsp :: "uint32 \<Rightarrow> string \<Rightarrow> Intf list \<Rightarrow> IsisLsp" where
  "local_lsp seq own_sid intfs =
     (let newLsp = buildEmptyLSP seq own_sid
      in newLsp\<lparr>CoreLsp := (CoreLsp newLsp)\<lparr>FirstTLV := [getIPReachTLV intfs, getNeighborTLV intfs]\<rparr>\<rparr>)"

section \<open>What is advertised\<close>

text \<open>The neighbours and the prefixes a node has to advertise.\<close>

definition up_neighbors :: "Intf list \<Rightarrow> bytes list" where
  "up_neighbors intfs = map (\<lambda>i. neighborSystemID (adj i)) (filter (\<lambda>i. state (adj i) = ''UP'') intfs)"

definition connected_routes :: "Intf list \<Rightarrow> IPNet list" where
  "connected_routes intfs = map the (filter (\<lambda>r. r \<noteq> None) (concat (map routes intfs)))"

definition neighbor_bytes :: "bytes \<Rightarrow> bytes" where
  "neighbor_bytes nbr = [0x00, 0x00, 0x00, 0x0a] @ nbr @ [0x00]"

definition route_bytes :: "IPNet \<Rightarrow> bytes" where
  "route_bytes r = IP r @ Mask r @ [0x00, 0x00, 0x00, 0x0a]"

lemma fold_add_neighbor:
  "fold add_neighbor intfs \<lparr>typeTLV = t, lengthTLV = l, valueTLV = v\<rparr> =
     \<lparr>typeTLV = t, lengthTLV = l + word_of_nat (11 * length (up_neighbors intfs)),
      valueTLV = v @ concat (map neighbor_bytes (up_neighbors intfs))\<rparr>"
  by (induction intfs arbitrary: l v)
    (auto simp: add_neighbor_def up_neighbors_def neighbor_bytes_def algebra_simps)

lemma getNeighborTLV_eq:
  "getNeighborTLV intfs = \<lparr>typeTLV = 2, lengthTLV = word_of_nat (1 + 11 * length (up_neighbors intfs)),
     valueTLV = 0x00 # concat (map neighbor_bytes (up_neighbors intfs))\<rparr>"
  by (simp add: getNeighborTLV_def fold_add_neighbor)

lemma fold_add_route:
  "fold add_route rs \<lparr>typeTLV = t, lengthTLV = l, valueTLV = v\<rparr> =
     (let xs = map the (filter (\<lambda>r. r \<noteq> None) rs) in
      \<lparr>typeTLV = t, lengthTLV = l + word_of_nat (12 * length xs),
       valueTLV = v @ concat (map route_bytes xs)\<rparr>)"
  by (induction rs arbitrary: l v)
    (auto simp: add_route_def route_bytes_def Let_def algebra_simps split: option.splits)

lemma getIPReachTLV_eq:
  "getIPReachTLV intfs = \<lparr>typeTLV = 128, lengthTLV = word_of_nat (12 * length (connected_routes intfs)),
     valueTLV = concat (map route_bytes (connected_routes intfs))\<rparr>"
proof -
  have "fold (\<lambda>intf. fold add_route (routes intf)) intfs t = fold add_route (concat (map routes intfs)) t"
    for t by (induction intfs arbitrary: t) auto
  then show ?thesis
    by (simp add: getIPReachTLV_def fold_add_route connected_routes_def Let_def)
qed

section \<open>What is read back\<close>

definition nbr_of :: "bytes \<Rightarrow> Neighbor" where
  "nbr_of b = \<lparr>systemID_nbr = systemIDToString b, metric_nbr = 10\<rparr>"

lemma metric_10 [simp]: "BigEndian_Uint32 [0, 0, 0, 10] = 10"
  by (simp add: BigEndian_Uint32_def be_nat_def)

lemma getNeighbors_loop_advertised:
  assumes "\<forall>n \<in> set nbrs. length n = 6" "valueTLV tlv = pre @ concat (map neighbor_bytes nbrs) @ post"
  shows "getNeighbors_loop (length nbrs) tlv (length pre) = Inr (map nbr_of nbrs)"
  using assms
proof (induction nbrs arbitrary: pre)
  case (Cons n nbrs)
  from Cons.prems have "getNeighbors_loop (length nbrs) tlv (length (pre @ neighbor_bytes n)) =
      Inr (map nbr_of nbrs)" by (intro Cons.IH) auto
  with Cons.prems show ?case
    by (simp add: value_slice_def reslice_def neighbor_bytes_def nbr_of_def add.commute [of 11])
qed simp

lemma getPrefixes_loop_advertised:
  assumes "\<forall>r \<in> set rs. length (IP r) = 4 \<and> length (Mask r) = 4"
    and "valueTLV tlv = pre @ concat (map route_bytes rs) @ post" and "length pre = k * 12"
  shows "getPrefixes_loop (length rs) tlv k = Inr rs"
  using assms
proof (induction rs arbitrary: pre k)
  case (Cons r rs)
  from Cons.prems have "getPrefixes_loop (length rs) tlv (Suc k) = Inr rs"
    by (intro Cons.IH [of "pre @ route_bytes r"]) (auto simp: route_bytes_def)
  with Cons.prems show ?case
    by (simp add: value_slice_def reslice_def route_bytes_def)
qed simp

lemma length_concat_const: "\<forall>x \<in> set xs. length (f x) = n \<Longrightarrow> length (concat (map f xs)) = n * length xs"
  by (induction xs) auto

lemma unat_of_nat_byte: "n < 256 \<Longrightarrow> unat (word_of_nat n :: byte) = n"
  by (simp add: unat_of_nat)

lemma getNeighborTLV_value_length:
  "\<forall>n \<in> set (up_neighbors intfs). length n = 6 \<Longrightarrow>
   length (valueTLV (getNeighborTLV intfs)) = 1 + 11 * length (up_neighbors intfs)"
  by (simp add: getNeighborTLV_eq neighbor_bytes_def length_concat_const [of _ _ 11])

lemma getIPReachTLV_value_length:
  "\<forall>r \<in> set (connected_routes intfs). length (IP r) = 4 \<and> length (Mask r) = 4 \<Longrightarrow>
   length (valueTLV (getIPReachTLV intfs)) = 12 * length (connected_routes intfs)"
  by (simp add: getIPReachTLV_eq route_bytes_def length_concat_const [of _ _ 12])

lemma getNeighbors_getNeighborTLV:
  assumes "\<forall>n \<in> set (up_neighbors intfs). length n = 6" "length (up_neighbors intfs) \<le> 23"
  shows "getNeighbors (getNeighborTLV intfs) = Inr (map nbr_of (up_neighbors intfs))"
proof -
  have "unat (lengthTLV (getNeighborTLV intfs)) = 1 + 11 * length (up_neighbors intfs)"
    using assms(2) by (simp add: getNeighborTLV_eq unat_of_nat_byte del: of_nat_add of_nat_mult of_nat_Suc)
  with getNeighbors_loop_advertised [OF assms(1), of "getNeighborTLV intfs" "[0]" "[]"] show ?thesis
    by (simp add: getNeighbors_def getNeighborTLV_eq)
qed

lemma getPrefixes_getIPReachTLV:
  assumes "\<forall>r \<in> set (connected_routes intfs). length (IP r) = 4 \<and> length (Mask r) = 4"
    and "length (connected_routes intfs) \<le> 21"
  shows "getPrefixesFromTLV (getIPReachTLV intfs) = Inr (connected_routes intfs)"
proof -
  have "unat (lengthTLV (getIPReachTLV intfs)) = 12 * length (connected_routes intfs)"
    using assms(2) by (simp add: getIPReachTLV_eq unat_of_nat_byte del: of_nat_mult)
  with getPrefixes_loop_advertised [OF assms(1), of "getIPReachTLV intfs" "[]" "[]" 0] show ?thesis
    by (simp add: getPrefixesFromTLV_def getIPReachTLV_eq)
qed

lemma local_lsp_fields:
  "Key (local_lsp seq s intfs) = systemIDToKey s" "LspID (local_lsp seq s intfs) = systemIDToLspID s"
  "lsp_seq (local_lsp seq s intfs) = seq"
  "FirstTLV (CoreLsp (local_lsp seq s intfs)) = [getIPReachTLV intfs, getNeighborTLV intfs]"
  by (simp_all add: local_lsp_def buildEmptyLSP_def lsp_seq_def systemIDToKey_LspID Let_def)

lemma wf_getNeighborTLV_iff:
  assumes "\<forall>n \<in> set (up_neighbors intfs). length n = 6"
  shows "wf_tlv (getNeighborTLV intfs) \<longleftrightarrow> length (up_neighbors intfs) \<le> 23"
proof -
  have "unat (lengthTLV (getNeighborTLV intfs)) = (1 + 11 * length (up_neighbors intfs)) mod 256"
    by (simp add: getNeighborTLV_eq unat_of_nat del: of_nat_add of_nat_mult of_nat_Suc)
  then have "wf_tlv (getNeighborTLV intfs) \<longleftrightarrow>
      1 + 11 * length (up_neighbors intfs) = (1 + 11 * length (up_neighbors intfs)) mod 256"
    using getNeighborTLV_value_length [OF assms] by (simp only: wf_tlv_def)
  also have "\<dots> \<longleftrightarrow> 1 + 11 * length (up_neighbors intfs) < 256" by (metis mod_less mod_less_divisor zero_less_numeral)
  finally show ?thesis by auto
qed

lemma wf_getIPReachTLV_iff:
  assumes "\<forall>r \<in> set (connected_routes intfs). length (IP r) = 4 \<and> length (Mask r) = 4"
  shows "wf_tlv (getIPReachTLV intfs) \<longleftrightarrow> length (connected_routes intfs) \<le> 21"
proof -
  have "unat (lengthTLV (getIPReachTLV intfs)) = (12 * length (connected_routes intfs)) mod 256"
    by (simp add: getIPReachTLV_eq unat_of_nat del: of_nat_mult)
  then have "wf_tlv (getIPReachTLV intfs) \<longleftrightarrow>
      12 * length (connected_routes intfs) = (12 * length (connected_routes intfs)) mod 256"
    using getIPReachTLV_value_length [OF assms] by (simp only: wf_tlv_def)
  also have "\<dots> \<longleftrightarrow> 12 * length (connected_routes intfs) < 256" by (metis mod_less mod_less_divisor zero_less_numeral)
  finally show ?thesis by auto
qed

lemma wf_local_lsp_iff:
  assumes "\<forall>n \<in> set (up_neighbors intfs). length n = 6"
    and "\<forall>r \<in> set (connected_routes intfs). length (IP r) = 4 \<and> length (Mask r) = 4"
  shows "wf_lsp (local_lsp seq s intfs) \<longleftrightarrow>
    length (up_neighbors intfs) \<le> 23 \<and> length (connected_routes intfs) \<le> 21"
  using wf_getNeighborTLV_iff [OF assms(1)] wf_getIPReachTLV_iff [OF assms(2)]
  by (auto simp: local_lsp_def buildEmptyLSP_def wf_lsp_def wf_core_def wf_lsp_header_def
      zero_lsp_header_def Let_def)

section \<open>Reading never panics on full TLVs\<close>

text \<open>
  A TLV is full when its value has at least the bytes its length byte announces.  Every parsed TLV is,
  and so are the ones a node builds for itself, even when their length byte has wrapped around.
\<close>

definition tlv_full :: "IsisTLV \<Rightarrow> bool" where
  "tlv_full tlv \<longleftrightarrow> unat (lengthTLV tlv) \<le> length (valueTLV tlv)"

definition lsp_full :: "IsisLsp \<Rightarrow> bool" where
  "lsp_full lsp \<longleftrightarrow> list_all tlv_full (FirstTLV (CoreLsp lsp))"

lemma value_slice_ok: "lo \<le> hi \<Longrightarrow> hi \<le> length (valueTLV tlv) \<Longrightarrow>
    value_slice tlv lo hi = Inr (take (hi - lo) (drop lo (valueTLV tlv)))"
  by (simp add: value_slice_def reslice_def)

lemma getNeighbors_loop_total:
  "cur + 11 * n \<le> length (valueTLV tlv) \<Longrightarrow> \<exists>nbrs. getNeighbors_loop n tlv cur = Inr nbrs"
proof (induction n arbitrary: cur)
  case (Suc n)
  from Suc.prems Suc.IH [of "cur + 4 + 7"] obtain rest where "getNeighbors_loop n tlv (cur + 4 + 7) = Inr rest" by auto
  with Suc.prems show ?case by (simp add: value_slice_ok)
qed simp

lemma getPrefixes_loop_total:
  "12 * (cur + n) \<le> length (valueTLV tlv) \<Longrightarrow> \<exists>ps. getPrefixes_loop n tlv cur = Inr ps"
proof (induction n arbitrary: cur)
  case (Suc n)
  from Suc.prems Suc.IH [of "cur + 1"] obtain rest where "getPrefixes_loop n tlv (cur + 1) = Inr rest" by auto
  with Suc.prems show ?case by (simp add: value_slice_ok)
qed simp

lemma getNeighbors_total: "tlv_full tlv \<Longrightarrow> \<exists>nbrs. getNeighbors tlv = Inr nbrs"
proof (cases "unat (lengthTLV tlv) = 0")
  case False
  assume "tlv_full tlv"
  with False show ?thesis unfolding getNeighbors_def tlv_full_def by (intro getNeighbors_loop_total) linarith
qed (simp add: getNeighbors_def)

lemma lookupNeighbors_total: "lsp_full lsp \<Longrightarrow> \<exists>nbrs. lookupNeighbors lsp = Inr nbrs"
proof -
  have "list_all tlv_full tlvs \<Longrightarrow> \<exists>nbrs. lookupNeighbors_loop tlvs = Inr nbrs" for tlvs
    by (induction tlvs) (auto intro: getNeighbors_total)
  then show "lsp_full lsp \<Longrightarrow> ?thesis" by (simp add: lookupNeighbors_def lsp_full_def)
qed

lemma getPrefixesFromTLV_total: "tlv_full tlv \<Longrightarrow> \<exists>ps. getPrefixesFromTLV tlv = Inr ps"
  unfolding getPrefixesFromTLV_def tlv_full_def
  by (intro getPrefixes_loop_total) (use times_div_less_eq_dividend [of 12 "unat (lengthTLV tlv)"] in simp)

lemma prefixes_of_tlvs_total: "list_all tlv_full tlvs \<Longrightarrow> \<exists>ps. prefixes_of_tlvs tlvs = Inr ps"
  by (induction tlvs) (auto intro: getPrefixesFromTLV_total)

lemma parseTLVs_loop_full:
  "parseTLVs_loop raw i rem acc = Inr tlvs \<Longrightarrow> list_all tlv_full acc \<Longrightarrow> list_all tlv_full tlvs"
proof (induction raw i rem acc rule: parseTLVs_loop.induct)
  case (1 raw i rem acc)
  show ?case
  proof (cases "0 < rem")
    case True
    with "1.prems"(1) obtain ty ln vl where v: "slice_index raw i = Inr ty" "slice_index raw (i + 1) = Inr ln"
      "reslice raw (i + 2) (i + 2 + unat ln) = Inr vl"
      "parseTLVs_loop raw (i + (unat ln + 2)) (rem - (int (unat ln) + 2))
        (acc @ [\<lparr>typeTLV = ty, lengthTLV = ln, valueTLV = copy_zeroed (unat ln) vl\<rparr>]) = Inr tlvs"
      by (subst (asm) parseTLVs_loop.simps) (auto simp: res_simps)
    from "1.IH" [OF True v] "1.prems"(2) show ?thesis by (simp add: tlv_full_def)
  next
    case False
    with "1.prems" show ?thesis by (subst (asm) parseTLVs_loop.simps) auto
  qed
qed

lemma deserializeLsp_full: "deserializeLsp raw = Inr lsp \<Longrightarrow> lsp_full lsp"
  using parseTLVs_loop_full [of raw 41 _ "[]"]
  by (fastforce simp: deserializeLsp_def parseTLVs_def lsp_full_def res_simps Let_def case_prod_beta)

lemma local_lsp_full:
  assumes "\<forall>n \<in> set (up_neighbors intfs). length n = 6"
    and "\<forall>r \<in> set (connected_routes intfs). length (IP r) = 4 \<and> length (Mask r) = 4"
  shows "lsp_full (local_lsp seq s intfs)"
proof -
  have "unat (lengthTLV (getNeighborTLV intfs)) \<le> 1 + 11 * length (up_neighbors intfs)"
    "unat (lengthTLV (getIPReachTLV intfs)) \<le> 12 * length (connected_routes intfs)"
    by (simp_all add: getNeighborTLV_eq getIPReachTLV_eq unat_of_nat del: of_nat_add of_nat_mult of_nat_Suc)
  then show ?thesis
    using getNeighborTLV_value_length [OF assms(1)] getIPReachTLV_value_length [OF assms(2)]
    by (simp add: lsp_full_def local_lsp_fields tlv_full_def)
qed

section \<open>Properties of the advertised LSP\<close>

text \<open>The reference instances of the witnesses: one interface that is up, one that is not.\<close>

definition sample_intf :: "string \<Rightarrow> string \<Rightarrow> bytes \<Rightarrow> Intf" where
  "sample_intf ifname st nbr =
     \<lparr>adj = \<lparr>state = st, neighborSystemID = nbr, metric = 10, intfName = ifname, neighborIP = Some [172, 20, 0, 3]\<rparr>,
      name = ifname, prefix = [172, 20, 0, 2], mask = [255, 255, 0, 0],
      routes = [Some \<lparr>IP = [172, 20, 0, 0], Mask = [255, 255, 0, 0]\<rparr>], lspFloodStates = Map.empty\<rparr>"

text \<open>
  C36: what a node with at most 23 adjacencies up, each with a six-byte system ID, and at most 21 connected
  prefixes, each with a four-byte address and mask, advertises over an interface with a six-byte hardware
  address is what every receiver reads, whatever else is in its receive buffer: the frame decodes to the same LSP, its neighbour list is exactly the systems
  the node is adjacent to, each with metric 10, and its prefix list is exactly the node's routes.
\<close>

theorem advertised_lsp_is_read_back:
  assumes "\<forall>n \<in> set (up_neighbors intfs). length n = 6" and "length (up_neighbors intfs) \<le> 23"
    and "\<forall>r \<in> set (connected_routes intfs). length (IP r) = 4 \<and> length (Mask r) = 4"
    and "length (connected_routes intfs) \<le> 21" and "length mac = 6"
  shows "\<exists>lsp. deserializeLsp (frame_slice (buildEthernetFrame l1_multicast mac
      (serializeLsp (CoreLsp (local_lsp seq s intfs)))) rest) = Inr lsp \<and>
    Key lsp = systemIDToKey s \<and> lsp_seq lsp = seq \<and>
    lookupNeighbors lsp =
      Inr (map (\<lambda>b. \<lparr>systemID_nbr = systemIDToString b, metric_nbr = 10\<rparr>) (up_neighbors intfs)) \<and>
    prefixes_of_tlvs (FirstTLV (CoreLsp lsp)) = Inr (connected_routes intfs)"
proof -
  let ?lsp = "local_lsp seq s intfs"
  have eth: "length (l1_multicast @ mac @ [0x08, 0x00]) = 14" using assms(5) by (simp add: l1_multicast_def)
  from assms have wf: "wf_lsp ?lsp" by (simp add: wf_local_lsp_iff)
  then have "deserializeLsp (frame_slice (buildEthernetFrame l1_multicast mac
      (serializeLsp (CoreLsp ?lsp))) rest) = Inr ?lsp"
    using deserializeLsp_serializeLsp [OF eth, of "CoreLsp ?lsp" rest]
    by (simp add: buildEthernetFrame_def wf_lsp_def)
  moreover have "lookupNeighbors ?lsp = Inr (map nbr_of (up_neighbors intfs))"
    using getNeighbors_getNeighborTLV [OF assms(1,2)]
    by (simp add: lookupNeighbors_def local_lsp_fields ISIS_NEIGHBORS_TLV_def getIPReachTLV_eq getNeighborTLV_eq)
  moreover have "prefixes_of_tlvs (FirstTLV (CoreLsp ?lsp)) = Inr (connected_routes intfs)"
    using getPrefixes_getIPReachTLV [OF assms(3,4)]
    by (simp add: local_lsp_fields ISIS_IP_INTERNAL_REACH_TLV_def getIPReachTLV_eq)
  ultimately show ?thesis by (auto simp: local_lsp_fields nbr_of_def)
qed

theorem advertised_lsp_is_read_back_witness:
  "\<exists>lsp. deserializeLsp (frame_slice (buildEthernetFrame l1_multicast [2, 0x42, 0xac, 0x14, 0, 2]
      (serializeLsp (CoreLsp (local_lsp 5 ''1111.1111.1111''
        [sample_intf ''eth0'' ''UP'' [0x11, 0x11, 0x11, 0x11, 0x11, 0x12], sample_intf ''eth1'' ''NEW'' []])))) []) = Inr lsp \<and>
    lookupNeighbors lsp =
      Inr [\<lparr>systemID_nbr = systemIDToString [0x11, 0x11, 0x11, 0x11, 0x11, 0x12], metric_nbr = 10\<rparr>]"
proof -
  let ?intfs = "[sample_intf ''eth0'' ''UP'' [0x11, 0x11, 0x11, 0x11, 0x11, 0x12], sample_intf ''eth1'' ''NEW'' []]"
  have "up_neighbors ?intfs = [[0x11, 0x11, 0x11, 0x11, 0x11, 0x12]]"
    by (simp add: up_neighbors_def sample_intf_def)
  moreover have "connected_routes ?intfs = replicate 2 \<lparr>IP = [172, 20, 0, 0], Mask = [255, 255, 0, 0]\<rparr>"
    by (simp add: connected_routes_def sample_intf_def numeral_2_eq_2)
  ultimately show ?thesis
    using advertised_lsp_is_read_back [of ?intfs "[2, 0x42, 0xac, 0x14, 0, 2]" 5 "''1111.1111.1111''" "[]"]
    by fastforce
qed

text \<open>
  C37: the one-byte TLV length limits what can be advertised.  The neighbour TLV carries its true length
  exactly up to 23 adjacencies and the reachability TLV exactly up to 21 prefixes; beyond that the
  length byte wraps around while the value keeps growing, and the LSP is no longer well-formed.
\<close>

theorem advertised_length_limit:
  assumes "\<forall>n \<in> set (up_neighbors intfs). length n = 6"
    and "\<forall>r \<in> set (connected_routes intfs). length (IP r) = 4 \<and> length (Mask r) = 4"
  shows "(wf_tlv (getNeighborTLV intfs) \<longleftrightarrow> length (up_neighbors intfs) \<le> 23) \<and>
    (wf_tlv (getIPReachTLV intfs) \<longleftrightarrow> length (connected_routes intfs) \<le> 21) \<and>
    length (valueTLV (getNeighborTLV intfs)) = 1 + 11 * length (up_neighbors intfs) \<and>
    unat (lengthTLV (getNeighborTLV intfs)) = (1 + 11 * length (up_neighbors intfs)) mod 256"
  using wf_getNeighborTLV_iff [OF assms(1)] wf_getIPReachTLV_iff [OF assms(2)]
    getNeighborTLV_value_length [OF assms(1)]
  by (simp add: getNeighborTLV_eq unat_of_nat del: of_nat_add of_nat_mult of_nat_Suc)

theorem advertised_length_limit_witness:
  "\<not> wf_tlv (getNeighborTLV (replicate 24 (sample_intf ''eth0'' ''UP'' [1, 2, 3, 4, 5, 6])))"
proof -
  let ?intfs = "replicate 24 (sample_intf ''eth0'' ''UP'' [1, 2, 3, 4, 5, 6])"
  have "up_neighbors ?intfs = replicate 24 [1, 2, 3, 4, 5, 6]"
    by (simp add: up_neighbors_def sample_intf_def)
  moreover have "\<forall>r \<in> set (connected_routes ?intfs). length (IP r) = 4 \<and> length (Mask r) = 4"
    by (auto simp: connected_routes_def sample_intf_def)
  ultimately show ?thesis using advertised_length_limit [of ?intfs] by simp
qed

end
