(* ===== verification/Update.thy ===== *)
theory Update
  imports Lsp
begin

text \<open>
  The update process (\<^verbatim>\<open>src/update.go\<close>): the generation of the local LSP, the reception of LSPs into
  the link-state database, and their flooding out of the interfaces.

  \<open>isisUpdateInput_step\<close> and \<open>isisUpdate_step\<close> are the bodies of the endless loops of the two
  goroutines; each is the section the code runs between taking and releasing its locks.  Go ranges
  over the flood-state map in an unspecified order, so the order of the keys is an argument of
  \<open>isisUpdate_step\<close>; so is the function that gives an interface's hardware address.
\<close>

section \<open>The code\<close>

text \<open>
  The same few lines occur three times in the code: file a flood state for the LSP if there is none,
  and set its SRM flag.
\<close>

definition set_srm :: "uint64 \<Rightarrow> bytes \<Rightarrow> bool \<Rightarrow> Intf \<Rightarrow> Intf" where
  "set_srm key lspID srm intf =
     (case lspFloodStates intf key of
        None \<Rightarrow> intf\<lparr>lspFloodStates := (lspFloodStates intf)(key \<mapsto>
          \<lparr>LspIDKey = key, LspID_fs = lspID, SRM = srm, SSN = False\<rparr>)\<rparr>
      | Some st \<Rightarrow> intf\<lparr>lspFloodStates := (lspFloodStates intf)(key \<mapsto> st\<lparr>SRM := srm\<rparr>)\<rparr>)"

definition floodNewLsp :: "string \<Rightarrow> IsisLsp \<Rightarrow> Intf list \<Rightarrow> Intf list" where
  "floodNewLsp receive_name receivedLsp intfs =
     map (\<lambda>intf. if receive_name = name intf
        then set_srm (Key receivedLsp) (LspID receivedLsp) False intf
        else set_srm (Key receivedLsp) (LspID receivedLsp) True intf) intfs"

text \<open>
  One received LSP.  The result carries the value sent on the \<^verbatim>\<open>triggerSPF\<close> channel.
\<close>

definition isisUpdateInput_step :: "string \<Rightarrow> go_slice \<Rightarrow> node \<Rightarrow> (node \<times> bool) res" where
  "isisUpdateInput_step receive_name raw n =
     bind_res (deserializeLsp raw) (\<lambda>receivedLsp.
       case AvlSearch (UpdateDB n) (Key receivedLsp) of
         None \<Rightarrow>
           bind_res (AvlInsert (UpdateDB n) (Key receivedLsp) (Some receivedLsp) False) (\<lambda>root.
             Inr (n\<lparr>UpdateDB := root,
                    interfaces := floodNewLsp receive_name receivedLsp (interfaces n)\<rparr>, True))
       | Some lsp \<Rightarrow>
           if lsp_seq lsp < lsp_seq receivedLsp then
             bind_res (AvlInsert (UpdateDB n) (Key receivedLsp) (Some receivedLsp) True) (\<lambda>root.
               Inr (n\<lparr>UpdateDB := root,
                      interfaces := floodNewLsp receive_name receivedLsp (interfaces n)\<rparr>, True))
           else Inr (n, False))"

definition generateLocalLsp :: "node \<Rightarrow> node res" where
  "generateLocalLsp n =
     (let seq = sequenceNumber n + 1;
          newLsp = local_lsp seq (sid n) (interfaces n)
      in bind_res (AvlInsert (UpdateDB n) (Key newLsp) (Some newLsp) True) (\<lambda>root.
           Inr (n\<lparr>sequenceNumber := seq, UpdateDB := root,
                  interfaces := map (set_srm (Key newLsp) (LspID newLsp) True) (interfaces n)\<rparr>)))"

text \<open>The body of the loop of \<^verbatim>\<open>isisUpdate\<close> for one flood state: the interface and the frames sent.\<close>

definition flood_one ::
  "IsisLsp avl \<Rightarrow> bytes \<Rightarrow> uint64 \<Rightarrow> Intf \<times> bytes list \<Rightarrow> Intf \<times> bytes list" where
  "flood_one db mac key acc = (case acc of (intf, sent) \<Rightarrow>
     (case lspFloodStates intf key of
        None \<Rightarrow> (intf, sent)
      | Some st \<Rightarrow>
          if SRM st \<and> state (adj intf) = ''UP'' then
            (case AvlSearch db (LspIDKey st) of
               None \<Rightarrow> (intf, sent)
             | Some lsp \<Rightarrow>
                 (intf\<lparr>lspFloodStates := (lspFloodStates intf)(key \<mapsto> st\<lparr>SRM := False\<rparr>)\<rparr>,
                  sent @ [buildEthernetFrame l1_multicast mac (serializeLsp (CoreLsp lsp))]))
          else (intf, sent)))"

definition isisUpdate_step ::
  "(string \<Rightarrow> bytes) \<Rightarrow> uint64 list \<Rightarrow> nat \<Rightarrow> node \<Rightarrow> (node \<times> bytes list) res" where
  "isisUpdate_step getMac key_order i n =
     (if i < length (interfaces n) then
        (let intf = interfaces n ! i;
             (intf', sent) = fold (flood_one (UpdateDB n) (getMac (name intf))) key_order (intf, [])
         in Inr (n\<lparr>interfaces := (interfaces n)[i := intf']\<rparr>, sent))
      else Inl IndexOutOfRange)"

section \<open>The abstract database\<close>

text \<open>
  What the database promises: per key the newest LSP seen so far.  \<open>accept\<close> is the reception of one
  LSP on this level.
\<close>

type_synonym lsdb = "uint64 \<rightharpoonup> IsisLsp"

definition accept :: "IsisLsp \<Rightarrow> lsdb \<Rightarrow> lsdb" where
  "accept r db = (case db (Key r) of
     None \<Rightarrow> db(Key r \<mapsto> r)
   | Some l \<Rightarrow> if lsp_seq l < lsp_seq r then db(Key r \<mapsto> r) else db)"

definition db_abs :: "IsisLsp avl \<Rightarrow> lsdb" where
  "db_abs t = AvlSearch t"

text \<open>Every stored LSP is filed under its own key, which is that of its ID, and no data is nil.\<close>

definition stored_ok :: "IsisLsp \<Rightarrow> bool" where
  "stored_ok lsp \<longleftrightarrow> length (LspID lsp) = 8 \<and> Key lsp = lspIDToKey (LspID lsp) \<and>
     LspID_hdr (LspHeader (CoreLsp lsp)) = LspID lsp \<and>
     length (SequenceNumber (LspHeader (CoreLsp lsp))) = 4"

definition updatedb_inv :: "IsisLsp avl \<Rightarrow> bool" where
  "updatedb_inv t \<longleftrightarrow> avl_inv t \<and>
     (\<forall>k d. (k, d) \<in> set (AvlGetAll t) \<longrightarrow> (\<exists>lsp. d = Some lsp \<and> Key lsp = k \<and> stored_ok lsp))"

text \<open>Every LSP an interface has a flood state for is in the database.\<close>

definition flooding_inv :: "node \<Rightarrow> bool" where
  "flooding_inv n \<longleftrightarrow> (\<forall>intf \<in> set (interfaces n). intf_inv intf \<and>
     (\<forall>k \<in> dom (lspFloodStates intf). db_abs (UpdateDB n) k \<noteq> None))"

definition update_inv :: "node \<Rightarrow> bool" where
  "update_inv n \<longleftrightarrow> updatedb_inv (UpdateDB n) \<and> flooding_inv n"

section \<open>The database\<close>

lemma read_fixed_length [simp]: "length (fst (read_fixed n bs)) = n"
  by (simp add: read_fixed_def)

lemma deserializeLsp_stored_ok: "deserializeLsp raw = Inr lsp \<Longrightarrow> stored_ok lsp"
  by (auto simp: deserializeLsp_def stored_ok_def read_lsp_header_def Let_def res_simps case_prod_beta)

lemma updatedb_inv_search:
  assumes "updatedb_inv t" "db_abs t k = Some lsp"
  shows "Key lsp = k \<and> stored_ok lsp"
proof -
  from assms have "(k, Some lsp) \<in> set (AvlGetAll t)"
    by (simp add: updatedb_inv_def db_abs_def avl.get_eq_Some)
  with assms(1) show ?thesis unfolding updatedb_inv_def by blast
qed

lemma updatedb_inv_None:
  assumes "updatedb_inv t" "db_abs t k = None"
  shows "k \<notin> dom (map_of (AvlGetAll t))"
proof
  assume "k \<in> dom (map_of (AvlGetAll t))"
  then obtain d where d: "(k, d) \<in> set (AvlGetAll t)" by (auto dest: map_of_SomeD)
  with assms(1) obtain lsp where "d = Some lsp" by (fastforce simp: updatedb_inv_def)
  with d assms show False by (simp add: updatedb_inv_def db_abs_def avl.get_eq_Some [symmetric])
qed

lemma insert_entry_set: "sorted_keys ps \<Longrightarrow> set (insert_entry k d ow ps) \<subseteq> insert (k, d) (set ps)"
  by (induction k d ow ps rule: insert_entry.induct) auto

text \<open>Storing an LSP under its key: what both the reception and the local generation do.\<close>

lemma updatedb_put:
  assumes "updatedb_inv t" "stored_ok lsp" "ow \<or> db_abs t (Key lsp) = None"
  shows "\<exists>t'. AvlInsert t (Key lsp) (Some lsp) ow = Inr t' \<and> updatedb_inv t' \<and>
    db_abs t' = (db_abs t)(Key lsp \<mapsto> lsp)"
proof -
  from assms(1) have inv: "avl_inv t" by (simp add: updatedb_inv_def)
  then obtain t' where t': "AvlInsert t (Key lsp) (Some lsp) ow = Inr t'" "avl_inv t'"
    "entries t' = insert_entry (Key lsp) (Some lsp) ow (entries t)" by (rule AvlInsert_ok)
  have "set (AvlGetAll t') \<subseteq> insert (Key lsp, Some lsp) (set (AvlGetAll t))"
    using insert_entry_set [of "entries t" "Key lsp" "Some lsp" ow] inv
    by (simp add: AvlGetAll_entries t'(3) avl_inv_def bst_def)
  with assms(1,2) t'(2) have "updatedb_inv t'" unfolding updatedb_inv_def by blast
  moreover have "db_abs t' = (db_abs t)(Key lsp \<mapsto> lsp)"
  proof
    fix k
    have "AvlSearch t' (Key lsp) = Some lsp"
      using assms(3) updatedb_inv_None [OF assms(1)] avl.get_put_same [OF inv t'(1)]
      by (auto simp: db_abs_def)
    then show "db_abs t' k = ((db_abs t)(Key lsp \<mapsto> lsp)) k"
      using avl.get_put_other [OF inv t'(1), of k] by (simp add: db_abs_def)
  qed
  ultimately show ?thesis using t'(1) by blast
qed

lemma db_abs_NilNode [simp]: "db_abs NilNode = Map.empty"
  by (simp add: db_abs_def fun_eq_iff)

lemma updatedb_inv_NilNode [simp]: "updatedb_inv NilNode"
  by (simp add: updatedb_inv_def avl.invar_empty avl.get_all_empty)

section \<open>Flood states\<close>

lemma set_srm_frame [simp]:
  "adj (set_srm k b srm intf) = adj intf" "name (set_srm k b srm intf) = name intf"
  "routes (set_srm k b srm intf) = routes intf" "prefix (set_srm k b srm intf) = prefix intf"
  "mask (set_srm k b srm intf) = mask intf"
  by (simp_all add: set_srm_def split: option.splits)

lemma set_srm_dom [simp]: "dom (lspFloodStates (set_srm k b srm intf)) = insert k (dom (lspFloodStates intf))"
  by (auto simp: set_srm_def split: option.splits)

lemma set_srm_other: "k' \<noteq> k \<Longrightarrow> lspFloodStates (set_srm k b srm intf) k' = lspFloodStates intf k'"
  by (simp add: set_srm_def split: option.splits)

lemma set_srm_same: "\<exists>st. lspFloodStates (set_srm k b srm intf) k = Some st \<and> SRM st = srm"
  by (simp add: set_srm_def split: option.splits)

lemma set_srm_inv:
  "intf_inv intf \<Longrightarrow> length b = 8 \<Longrightarrow> lspIDToKey b = k \<Longrightarrow> intf_inv (set_srm k b srm intf)"
  by (auto simp: intf_inv_def flood_inv_def set_srm_def split: option.splits)

text \<open>Marking an LSP that is in the database keeps the flooding invariant.\<close>

lemma flooding_inv_mark:
  assumes "flooding_inv n" "stored_ok lsp" "db' = (db_abs (UpdateDB n))(Key lsp \<mapsto> lsp)"
    and "db_abs (UpdateDB n') = db'"
    and "interfaces n' = map (\<lambda>intf. set_srm (Key lsp) (LspID lsp) (f intf) intf) (interfaces n)"
  shows "flooding_inv n'"
  using assms by (auto simp: flooding_inv_def stored_ok_def intro!: set_srm_inv)

section \<open>Reception\<close>

lemma isisUpdateInput_accept:
  assumes "updatedb_inv (UpdateDB n)" "deserializeLsp raw = Inr r"
    and "accept r (db_abs (UpdateDB n)) = (db_abs (UpdateDB n))(Key r \<mapsto> r)"
    and "db_abs (UpdateDB n) (Key r) \<noteq> Some r"
  shows "\<exists>root. isisUpdateInput_step ifname raw n = Inr (n\<lparr>UpdateDB := root,
      interfaces := floodNewLsp ifname r (interfaces n)\<rparr>, True) \<and>
    updatedb_inv root \<and> db_abs root = (db_abs (UpdateDB n))(Key r \<mapsto> r)"
proof (cases "db_abs (UpdateDB n) (Key r)")
  case None
  from updatedb_put [OF assms(1) deserializeLsp_stored_ok [OF assms(2)], of False] None obtain root where
    "AvlInsert (UpdateDB n) (Key r) (Some r) False = Inr root" "updatedb_inv root"
    "db_abs root = (db_abs (UpdateDB n))(Key r \<mapsto> r)" by auto
  with None assms(2) show ?thesis by (auto simp: isisUpdateInput_step_def db_abs_def)
next
  case (Some l)
  with assms(3,4) have seq: "lsp_seq l < lsp_seq r"
    by (auto simp: accept_def fun_eq_iff split: if_splits)
  from updatedb_put [OF assms(1) deserializeLsp_stored_ok [OF assms(2)], of True] obtain root where
    "AvlInsert (UpdateDB n) (Key r) (Some r) True = Inr root" "updatedb_inv root"
    "db_abs root = (db_abs (UpdateDB n))(Key r \<mapsto> r)" by auto
  with Some seq assms(2) show ?thesis by (auto simp: isisUpdateInput_step_def db_abs_def)
qed

lemma accept_cases:
  obtains "accept r db = db(Key r \<mapsto> r)" "db (Key r) \<noteq> Some r"
  | l where "accept r db = db" "db (Key r) = Some l" "lsp_seq r \<le> lsp_seq l"
proof (cases "db (Key r)")
  case None
  then show thesis by (intro that(1)) (auto simp: accept_def)
next
  case (Some l)
  show thesis
  proof (cases "lsp_seq l < lsp_seq r")
    case True
    with Some show thesis by (intro that(1)) (auto simp: accept_def)
  next
    case False
    with Some show thesis by (intro that(2) [of l]) (auto simp: accept_def not_less)
  qed
qed

lemma isisUpdateInput_reject:
  assumes "deserializeLsp raw = Inr r" "db_abs (UpdateDB n) (Key r) = Some l" "lsp_seq r \<le> lsp_seq l"
  shows "isisUpdateInput_step ifname raw n = Inr (n, False)"
  using assms leD [OF assms(3)] by (simp add: isisUpdateInput_step_def db_abs_def)

lemma isisUpdateInput_refines:
  assumes "update_inv n" "deserializeLsp raw = Inr r"
  shows "\<exists>n' spf. isisUpdateInput_step ifname raw n = Inr (n', spf) \<and> update_inv n' \<and>
    db_abs (UpdateDB n') = accept r (db_abs (UpdateDB n)) \<and>
    n' = n\<lparr>UpdateDB := UpdateDB n', interfaces := interfaces n'\<rparr> \<and>
    (spf \<longleftrightarrow> db_abs (UpdateDB n') \<noteq> db_abs (UpdateDB n)) \<and>
    interfaces n' = (if spf then floodNewLsp ifname r (interfaces n) else interfaces n)"
proof (cases rule: accept_cases [of r "db_abs (UpdateDB n)"])
  case 1
  from assms(1) have db: "updatedb_inv (UpdateDB n)" by (simp add: update_inv_def)
  from isisUpdateInput_accept [OF db assms(2) 1] obtain root where
    root: "isisUpdateInput_step ifname raw n = Inr (n\<lparr>UpdateDB := root,
      interfaces := floodNewLsp ifname r (interfaces n)\<rparr>, True)" "updatedb_inv root"
    "db_abs root = (db_abs (UpdateDB n))(Key r \<mapsto> r)" by blast
  let ?n' = "n\<lparr>UpdateDB := root, interfaces := floodNewLsp ifname r (interfaces n)\<rparr>"
  have fl: "flooding_inv n" using assms(1) by (simp add: update_inv_def)
  have db': "db_abs (UpdateDB ?n') = (db_abs (UpdateDB n))(Key r \<mapsto> r)" using root(3) by simp
  have ifs: "interfaces ?n' =
      map (\<lambda>intf. set_srm (Key r) (LspID r) (ifname \<noteq> name intf) intf) (interfaces n)"
    by (simp add: floodNewLsp_def)
  have "flooding_inv ?n'"
    by (rule flooding_inv_mark [OF fl deserializeLsp_stored_ok [OF assms(2)] refl db' ifs])
  then have inv: "update_inv (n\<lparr>UpdateDB := root, interfaces := floodNewLsp ifname r (interfaces n)\<rparr>)"
    using root(2) by (simp add: update_inv_def)
  have "db_abs root (Key r) = Some r" using root(3) by simp
  with 1(2) have "db_abs root \<noteq> db_abs (UpdateDB n)" by metis
  with root(1,3) inv 1(1) show ?thesis
    by (intro exI [of _ "n\<lparr>UpdateDB := root, interfaces := floodNewLsp ifname r (interfaces n)\<rparr>"]
        exI [of _ True]) simp
next
  case (2 l)
  with isisUpdateInput_reject [OF assms(2) 2(2,3)] assms(1) show ?thesis by auto
qed

section \<open>Runs of receptions\<close>

text \<open>A sequence of receptions, each with the interface it comes in on.\<close>

definition receive_lsps :: "(string \<times> go_slice) list \<Rightarrow> node \<Rightarrow> node res" where
  "receive_lsps = fold_res (\<lambda>(ifname, raw) n.
     bind_res (isisUpdateInput_step ifname raw n) (\<lambda>(n', spf). Inr n'))"

text \<open>
  What the database has to hold under a key after a list of LSPs: the first of those with the highest
  sequence number.
\<close>

definition newest :: "IsisLsp list \<Rightarrow> lsdb" where
  "newest rs k = find (\<lambda>l. Key l = k \<and> (\<forall>r \<in> set rs. Key r = k \<longrightarrow> lsp_seq r \<le> lsp_seq l)) rs"

text \<open>The originator of an LSP never issues two different LSPs with one sequence number.\<close>

definition seq_unique :: "IsisLsp list \<Rightarrow> bool" where
  "seq_unique rs \<longleftrightarrow> (\<forall>a \<in> set rs. \<forall>b \<in> set rs. Key a = Key b \<and> lsp_seq a = lsp_seq b \<longrightarrow> a = b)"

lemma newest_Nil [simp]: "newest [] = Map.empty"
  by (simp add: newest_def fun_eq_iff)

lemma newest_None_iff: "newest rs k = None \<longleftrightarrow> (\<forall>r \<in> set rs. Key r \<noteq> k)"
proof
  assume none: "newest rs k = None"
  show "\<forall>r \<in> set rs. Key r \<noteq> k"
  proof (rule ccontr)
    let ?S = "{r \<in> set rs. Key r = k}"
    assume "\<not> (\<forall>r \<in> set rs. Key r \<noteq> k)"
    then have "finite (lsp_seq ` ?S)" "lsp_seq ` ?S \<noteq> {}" by auto
    from Max_in [OF this] obtain l where "l \<in> ?S" "lsp_seq l = Max (lsp_seq ` ?S)" by auto
    moreover then have "\<forall>r \<in> ?S. lsp_seq r \<le> lsp_seq l" by simp
    ultimately show False using none by (auto simp: newest_def find_None_iff)
  qed
qed (auto simp: newest_def find_None_iff)

lemma newest_Some:
  assumes "newest rs k = Some l"
  shows "l \<in> set rs" "Key l = k" "\<forall>r \<in> set rs. Key r = k \<longrightarrow> lsp_seq r \<le> lsp_seq l"
  using assms by (auto simp: newest_def find_Some_iff)

text \<open>With unique sequence numbers the newest LSP does not depend on the order of the list.\<close>

lemma newest_unique:
  assumes "seq_unique rs"
  shows "newest rs k = Some l \<longleftrightarrow>
    l \<in> set rs \<and> Key l = k \<and> (\<forall>r \<in> set rs. Key r = k \<longrightarrow> lsp_seq r \<le> lsp_seq l)"
proof
  assume l: "l \<in> set rs \<and> Key l = k \<and> (\<forall>r \<in> set rs. Key r = k \<longrightarrow> lsp_seq r \<le> lsp_seq l)"
  then obtain l' where l': "newest rs k = Some l'" using newest_None_iff [of rs k] by fastforce
  from newest_Some [OF this] l have "lsp_seq l' = lsp_seq l" "l' \<in> set rs" "Key l' = k"
    by (auto intro: order_antisym)
  with l assms have "l' = l" by (auto simp: seq_unique_def)
  with l' show "newest rs k = Some l" by simp
qed (use newest_Some in blast)

lemma newest_snoc: "newest (rs @ [r]) = accept r (newest rs)"
proof
  fix k
  show "newest (rs @ [r]) k = accept r (newest rs) k"
  proof (cases "Key r = k")
    case False
    then show ?thesis by (auto simp: newest_def accept_def find_append split: option.splits)
  next
    case key: True
    show ?thesis
    proof (cases "newest rs k")
      case None
      then have "\<forall>x \<in> set rs. Key x \<noteq> k" by (simp add: newest_None_iff)
      then have "find (\<lambda>l. Key l = k \<and> P l) rs = None" for P by (auto simp: find_None_iff)
      with key \<open>\<forall>x \<in> set rs. Key x \<noteq> k\<close> have "newest (rs @ [r]) k = Some r"
        by (auto simp: newest_def find_append)
      with None key show ?thesis by (simp add: accept_def)
    next
      case (Some l)
      note l = newest_Some [OF Some]
      show ?thesis
      proof (cases "lsp_seq l < lsp_seq r")
        case True
        with l have "\<forall>x \<in> set rs. Key x = k \<longrightarrow> lsp_seq x < lsp_seq r" by fastforce
        moreover then have "find (\<lambda>l. Key l = k \<and> (\<forall>x \<in> set (rs @ [r]). Key x = k \<longrightarrow> lsp_seq x \<le> lsp_seq l)) rs = None"
          using key by (fastforce simp: find_None_iff)
        ultimately have "newest (rs @ [r]) k = Some r" using key
          by (auto simp: newest_def find_append less_imp_le)
        with True key Some show ?thesis by (simp add: accept_def)
      next
        case False
        have "find (\<lambda>l. Key l = k \<and> (\<forall>x \<in> set (rs @ [r]). Key x = k \<longrightarrow> lsp_seq x \<le> lsp_seq l)) rs =
            find (\<lambda>l. Key l = k \<and> (\<forall>x \<in> set rs. Key x = k \<longrightarrow> lsp_seq x \<le> lsp_seq l)) rs"
          using l False by (intro find_cong) fastforce+
        with Some have "newest (rs @ [r]) k = Some l" by (simp add: newest_def find_append)
        with False key Some show ?thesis by (simp add: accept_def)
      qed
    qed
  qed
qed

lemma receive_lsps_newest:
  assumes "update_inv n" "db_abs (UpdateDB n) = newest old"
    and "map (\<lambda>ev. deserializeLsp (snd ev)) evs = map Inr rs"
  shows "\<exists>n'. receive_lsps evs n = Inr n' \<and> update_inv n' \<and> db_abs (UpdateDB n') = newest (old @ rs)"
  using assms
proof (induction evs arbitrary: n old rs)
  case Nil
  then show ?case by (simp add: receive_lsps_def)
next
  case (Cons ev evs)
  obtain ifname raw where ev: "ev = (ifname, raw)" by fastforce
  from Cons.prems(3) ev obtain r rs' where rs: "rs = r # rs'" "deserializeLsp raw = Inr r"
    "map (\<lambda>ev. deserializeLsp (snd ev)) evs = map Inr rs'" by (cases rs) auto
  from isisUpdateInput_refines [OF Cons.prems(1) rs(2), of ifname] obtain n' spf where
    n': "isisUpdateInput_step ifname raw n = Inr (n', spf)" "update_inv n'"
    "db_abs (UpdateDB n') = newest (old @ [r])" using Cons.prems(2) by (auto simp: newest_snoc)
  from Cons.IH [OF n'(2,3) rs(3)] n'(1) ev rs(1) show ?case by (simp add: receive_lsps_def)
qed

section \<open>Flooding out of one interface\<close>

text \<open>The frame that carries an LSP of the database.\<close>

definition lsp_frame :: "bytes \<Rightarrow> IsisLsp \<Rightarrow> bytes" where
  "lsp_frame mac lsp = buildEthernetFrame l1_multicast mac (serializeLsp (CoreLsp lsp))"

definition needs_flooding :: "Intf \<Rightarrow> uint64 \<Rightarrow> bool" where
  "needs_flooding intf k = (case lspFloodStates intf k of None \<Rightarrow> False | Some st \<Rightarrow> SRM st)"

definition clear_srm :: "Intf \<Rightarrow> Intf" where
  "clear_srm intf = intf\<lparr>lspFloodStates := (\<lambda>k. map_option (\<lambda>st. st\<lparr>SRM := False\<rparr>) (lspFloodStates intf k))\<rparr>"

text \<open>One flood state while the adjacency is up, and the LSP is in the database.\<close>

lemma flood_one_up:
  assumes "state (adj intf) = ''UP''" "flood_inv (lspFloodStates intf)"
    and "k \<in> dom (lspFloodStates intf)" "AvlSearch db k = Some lsp"
  shows "flood_one db mac k (intf, sent) =
    (intf\<lparr>lspFloodStates := (lspFloodStates intf)(k := map_option (\<lambda>st. st\<lparr>SRM := False\<rparr>) (lspFloodStates intf k))\<rparr>,
     sent @ (if needs_flooding intf k then [lsp_frame mac lsp] else []))"
proof -
  from assms(3) obtain st where st: "lspFloodStates intf k = Some st" by blast
  with assms(2) have "LspIDKey st = k" by (auto simp: flood_inv_def)
  moreover have "\<not> SRM st \<Longrightarrow> st\<lparr>SRM := False\<rparr> = st" by simp
  ultimately show ?thesis using assms st
    by (cases "SRM st") (auto simp: flood_one_def needs_flooding_def lsp_frame_def fun_upd_idem)
qed

lemma flood_one_down: "state (adj intf) \<noteq> ''UP'' \<Longrightarrow> flood_one db mac k (intf, sent) = (intf, sent)"
  by (simp add: flood_one_def split: option.splits)

lemma fold_flood_one_down:
  "state (adj intf) \<noteq> ''UP'' \<Longrightarrow> fold (flood_one db mac) ks (intf, sent) = (intf, sent)"
  by (induction ks) (simp_all add: flood_one_down)

lemma flood_inv_clear:
  "flood_inv m \<Longrightarrow> flood_inv (m(k := map_option (\<lambda>st. st\<lparr>SRM := b\<rparr>) (m k)))"
  by (auto simp: flood_inv_def)

lemma fold_flood_one_up:
  assumes "state (adj intf) = ''UP''" "flood_inv (lspFloodStates intf)" "distinct ks"
    and "set ks \<subseteq> dom (lspFloodStates intf)" "\<forall>k \<in> set ks. AvlSearch db k \<noteq> None"
  shows "fold (flood_one db mac) ks (intf, sent) =
    (intf\<lparr>lspFloodStates := (\<lambda>k. if k \<in> set ks
        then map_option (\<lambda>st. st\<lparr>SRM := False\<rparr>) (lspFloodStates intf k) else lspFloodStates intf k)\<rparr>,
     sent @ map (\<lambda>k. lsp_frame mac (the (AvlSearch db k))) (filter (needs_flooding intf) ks))"
  using assms
proof (induction ks arbitrary: intf sent)
  case (Cons k ks)
  let ?m = "(lspFloodStates intf)(k := map_option (\<lambda>st. st\<lparr>SRM := False\<rparr>) (lspFloodStates intf k))"
  let ?intf = "intf\<lparr>lspFloodStates := ?m\<rparr>"
  from Cons.prems(4,5) obtain lsp where lsp: "AvlSearch db k = Some lsp" "k \<in> dom (lspFloodStates intf)"
    by fastforce
  note one = flood_one_up [OF Cons.prems(1,2) lsp(2,1)]
  let ?sent = "sent @ (if needs_flooding intf k then [lsp_frame mac lsp] else [])"
  have "dom ?m = dom (lspFloodStates intf)" using lsp(2) by auto
  with Cons.prems have "state (adj ?intf) = ''UP''" "flood_inv (lspFloodStates ?intf)" "distinct ks"
    "set ks \<subseteq> dom (lspFloodStates ?intf)" "\<forall>k \<in> set ks. AvlSearch db k \<noteq> None"
    using flood_inv_clear [OF Cons.prems(2)] by simp_all
  from Cons.IH [OF this, of ?sent] have IH: "fold (flood_one db mac) ks (?intf, ?sent) =
      (?intf\<lparr>lspFloodStates := (\<lambda>k'. if k' \<in> set ks
          then map_option (\<lambda>st. st\<lparr>SRM := False\<rparr>) (?m k') else ?m k')\<rparr>,
       ?sent @ map (\<lambda>k. lsp_frame mac (the (AvlSearch db k))) (filter (needs_flooding ?intf) ks))"
    by (simp cong del: if_weak_cong)
  have "\<forall>k' \<in> set ks. needs_flooding ?intf k' = needs_flooding intf k'"
    using Cons.prems(3) by (auto simp: needs_flooding_def)
  then have flt: "filter (needs_flooding ?intf) ks = filter (needs_flooding intf) ks" by (simp cong: filter_cong)
  have upd: "(\<lambda>k'. if k' \<in> set ks then map_option (\<lambda>st. st\<lparr>SRM := False\<rparr>) (?m k') else ?m k') =
      (\<lambda>k'. if k' \<in> set (k # ks) then map_option (\<lambda>st. st\<lparr>SRM := False\<rparr>) (lspFloodStates intf k')
        else lspFloodStates intf k')" using Cons.prems(3) by (auto simp: fun_eq_iff)
  show ?case unfolding fold_simps(2) one IH flt upd using lsp(1) by simp
qed simp

text \<open>One round of the flooding goroutine.\<close>

lemma isisUpdate_step_sends:
  assumes "update_inv n" "i < length (interfaces n)" "distinct ks"
    and "set ks = dom (lspFloodStates (interfaces n ! i))"
  shows "isisUpdate_step getMac ks i n =
    (let intf = interfaces n ! i in
     if state (adj intf) = ''UP''
     then Inr (n\<lparr>interfaces := (interfaces n)[i := clear_srm intf]\<rparr>,
       map (\<lambda>k. lsp_frame (getMac (name intf)) (the (db_abs (UpdateDB n) k))) (filter (needs_flooding intf) ks))
     else Inr (n, []))"
proof -
  let ?intf = "interfaces n ! i"
  from assms(1,2) have inv: "flood_inv (lspFloodStates ?intf)"
    "\<forall>k \<in> dom (lspFloodStates ?intf). AvlSearch (UpdateDB n) k \<noteq> None"
    using nth_mem [OF assms(2)] unfolding update_inv_def flooding_inv_def intf_inv_def db_abs_def by blast+
  have "(\<lambda>k. if k \<in> dom (lspFloodStates ?intf)
      then map_option (\<lambda>st. st\<lparr>SRM := False\<rparr>) (lspFloodStates ?intf k) else lspFloodStates ?intf k) =
    (\<lambda>k. map_option (\<lambda>st. st\<lparr>SRM := False\<rparr>) (lspFloodStates ?intf k))"
    by (auto simp: fun_eq_iff domIff)
  then show ?thesis
    using assms(2-4) inv fold_flood_one_up [of ?intf ks "UpdateDB n" "getMac (name ?intf)" "[]"]
      fold_flood_one_down [of ?intf "UpdateDB n" "getMac (name ?intf)" ks "[]"]
    by (simp add: isisUpdate_step_def Let_def clear_srm_def db_abs_def)
qed

lemma clear_srm_inv:
  "intf_inv intf \<Longrightarrow> intf_inv (clear_srm intf)" "dom (lspFloodStates (clear_srm intf)) = dom (lspFloodStates intf)"
  by (auto simp: intf_inv_def flood_inv_def clear_srm_def)

lemma isisUpdate_step_inv:
  assumes "update_inv n" "i < length (interfaces n)" "distinct ks"
    and "set ks = dom (lspFloodStates (interfaces n ! i))" "isisUpdate_step getMac ks i n = Inr (n', sent)"
  shows "update_inv n'"
proof (cases "state (adj (interfaces n ! i)) = ''UP''")
  case True
  with isisUpdate_step_sends [OF assms(1-4), of getMac] assms(5)
  have n': "n' = n\<lparr>interfaces := (interfaces n)[i := clear_srm (interfaces n ! i)]\<rparr>" by (simp add: Let_def)
  have "interfaces n ! i \<in> set (interfaces n)" using assms(2) by simp
  then have "\<forall>intf \<in> set ((interfaces n)[i := clear_srm (interfaces n ! i)]). intf_inv intf \<and>
      (\<forall>k \<in> dom (lspFloodStates intf). db_abs (UpdateDB n) k \<noteq> None)"
    using assms(1) set_update_subset_insert [of "interfaces n" i] clear_srm_inv
    unfolding update_inv_def flooding_inv_def by blast
  with assms(1) show ?thesis by (simp add: n' update_inv_def flooding_inv_def)
qed (use isisUpdate_step_sends [OF assms(1-4), of getMac] assms(1,5) in \<open>simp add: Let_def\<close>)

section \<open>The local LSP\<close>

lemma stored_ok_local_lsp: "stored_ok (local_lsp seq s intfs)"
  by (simp add: stored_ok_def local_lsp_def buildEmptyLSP_def Let_def)

lemma generateLocalLsp_ok:
  assumes "update_inv n"
  defines "lsp \<equiv> local_lsp (sequenceNumber n + 1) (sid n) (interfaces n)"
  obtains root where "generateLocalLsp n = Inr (n\<lparr>sequenceNumber := sequenceNumber n + 1, UpdateDB := root,
      interfaces := map (set_srm (systemIDToKey (sid n)) (systemIDToLspID (sid n)) True) (interfaces n)\<rparr>)"
    "db_abs root = (db_abs (UpdateDB n))(systemIDToKey (sid n) \<mapsto> lsp)"
    "update_inv (n\<lparr>sequenceNumber := sequenceNumber n + 1, UpdateDB := root,
      interfaces := map (set_srm (systemIDToKey (sid n)) (systemIDToLspID (sid n)) True) (interfaces n)\<rparr>)"
proof -
  have ok: "stored_ok lsp" by (simp add: lsp_def stored_ok_local_lsp)
  have fields: "Key lsp = systemIDToKey (sid n)" "LspID lsp = systemIDToLspID (sid n)"
    by (simp_all add: lsp_def local_lsp_fields)
  from assms(1) have inv: "updatedb_inv (UpdateDB n)" "flooding_inv n" by (simp_all add: update_inv_def)
  from updatedb_put [OF inv(1) ok, of True] obtain root where
    root: "AvlInsert (UpdateDB n) (Key lsp) (Some lsp) True = Inr root" "updatedb_inv root"
      "db_abs root = (db_abs (UpdateDB n))(Key lsp \<mapsto> lsp)" by auto
  let ?n' = "n\<lparr>sequenceNumber := sequenceNumber n + 1, UpdateDB := root,
      interfaces := map (set_srm (systemIDToKey (sid n)) (systemIDToLspID (sid n)) True) (interfaces n)\<rparr>"
  have gen: "generateLocalLsp n = Inr ?n'"
    using root(1) fields by (simp add: generateLocalLsp_def Let_def lsp_def)
  have db: "db_abs (UpdateDB ?n') = (db_abs (UpdateDB n))(Key lsp \<mapsto> lsp)" using root(3) by simp
  have ifs: "interfaces ?n' = map (\<lambda>intf. set_srm (Key lsp) (LspID lsp) True intf) (interfaces n)"
    by (simp add: fields)
  have "flooding_inv ?n'" by (rule flooding_inv_mark [OF inv(2) ok refl db ifs])
  with root(2) have "update_inv ?n'" by (simp add: update_inv_def)
  with gen root(3) fields show thesis by (intro that [of root]) simp_all
qed

section \<open>Properties of the update process\<close>

text \<open>
  The reference instances of the witnesses: a node with one adjacency up and an empty database, and
  the same node with one LSP to flood.
\<close>

definition sample_node :: node where
  "sample_node = \<lparr>sid = ''1111.1111.1111'',
     interfaces = [sample_intf ''eth0'' ''UP'' [0x11, 0x11, 0x11, 0x11, 0x11, 0x12], sample_intf ''eth1'' ''NEW'' []],
     UpdateDB = NilNode, TopoDB = NilNode, sequenceNumber = 0\<rparr>"

definition sample_lsp :: IsisLsp where
  "sample_lsp = buildEmptyLSP 7 ''1111.1111.1113''"

definition sample_flooding_node :: node where
  "sample_flooding_node = sample_node\<lparr>
     UpdateDB := AvlNode (Key sample_lsp) NilNode NilNode (Some sample_lsp) 1,
     interfaces := map (set_srm (Key sample_lsp) (LspID sample_lsp) True) (interfaces sample_node)\<rparr>"

lemma wf_sample_lsp: "wf_lsp sample_lsp" "stored_ok sample_lsp" "lsp_seq sample_lsp = 7"
  by (simp_all add: sample_lsp_def wf_lsp_def wf_core_def wf_lsp_header_def stored_ok_def buildEmptyLSP_def
      zero_lsp_header_def lsp_seq_def Let_def)

lemma update_inv_sample_node: "update_inv sample_node"
  by (simp add: update_inv_def flooding_inv_def sample_node_def sample_intf_def intf_inv_def adj_inv_def flood_inv_def)

lemma update_inv_sample_flooding_node: "update_inv sample_flooding_node"
proof -
  from update_inv_sample_node have fl: "flooding_inv sample_node" by (simp add: update_inv_def)
  have db: "db_abs (UpdateDB sample_flooding_node) = (db_abs (UpdateDB sample_node))(Key sample_lsp \<mapsto> sample_lsp)"
    by (simp add: sample_flooding_node_def sample_node_def db_abs_def fun_eq_iff)
  have ifs: "interfaces sample_flooding_node =
      map (\<lambda>intf. set_srm (Key sample_lsp) (LspID sample_lsp) True intf) (interfaces sample_node)"
    by (simp add: sample_flooding_node_def)
  have "flooding_inv sample_flooding_node"
    by (rule flooding_inv_mark [OF fl wf_sample_lsp(2) refl db ifs])
  moreover have "updatedb_inv (UpdateDB sample_flooding_node)"
    using wf_sample_lsp(2)
    by (simp add: sample_flooding_node_def updatedb_inv_def avl_inv_def bst_def AvlGetAll_entries)
  ultimately show ?thesis by (simp add: update_inv_def)
qed

lemma sample_lsp_frame: "deserializeLsp (frame_slice (lsp_frame [2, 0x42, 0xac, 0x14, 0, 2] sample_lsp) rest) = Inr sample_lsp"
  using deserializeLsp_serializeLsp [of "l1_multicast @ [2, 0x42, 0xac, 0x14, 0, 2] @ [0x08, 0x00]" "CoreLsp sample_lsp" rest]
    wf_sample_lsp(1)
  by (simp add: lsp_frame_def buildEthernetFrame_def wf_lsp_def l1_multicast_def)

text \<open>
  C3: the reception of an LSP never panics and implements \<open>accept\<close>: the database changes exactly when
  the LSP is new or has a higher sequence number than the stored copy, and then holds it under its
  key; SPF is triggered exactly when the database changed; and exactly then the LSP is marked for
  flooding on every interface, except that the mark is removed on the one it came in on.  Nothing else of the
  node changes and the invariant of the database and of the flood states is kept.
\<close>

theorem isisUpdateInput_correct:
  assumes "update_inv n" and "deserializeLsp raw = Inr r"
  shows "\<exists>n' spf. isisUpdateInput_step ifname raw n = Inr (n', spf) \<and> update_inv n' \<and>
    db_abs (UpdateDB n') = accept r (db_abs (UpdateDB n)) \<and>
    (spf \<longleftrightarrow> db_abs (UpdateDB n') \<noteq> db_abs (UpdateDB n)) \<and>
    n' = n\<lparr>UpdateDB := UpdateDB n', interfaces := interfaces n'\<rparr> \<and>
    length (interfaces n') = length (interfaces n) \<and>
    (\<forall>i < length (interfaces n). \<forall>k.
       adj (interfaces n' ! i) = adj (interfaces n ! i) \<and>
       (if spf \<and> k = Key r then needs_flooding (interfaces n' ! i) k \<longleftrightarrow> name (interfaces n ! i) \<noteq> ifname
        else lspFloodStates (interfaces n' ! i) k = lspFloodStates (interfaces n ! i) k))"
proof -
  from isisUpdateInput_refines [OF assms, of ifname] obtain n' spf where
    n': "isisUpdateInput_step ifname raw n = Inr (n', spf)" "update_inv n'"
      "db_abs (UpdateDB n') = accept r (db_abs (UpdateDB n))"
      "n' = n\<lparr>UpdateDB := UpdateDB n', interfaces := interfaces n'\<rparr>"
      "spf \<longleftrightarrow> db_abs (UpdateDB n') \<noteq> db_abs (UpdateDB n)"
      "interfaces n' = (if spf then floodNewLsp ifname r (interfaces n) else interfaces n)" by blast
  have "needs_flooding (set_srm k b srm intf) k \<longleftrightarrow> srm" for k b srm intf
    using set_srm_same [of k b srm intf] by (auto simp: needs_flooding_def)
  then have "\<forall>i < length (interfaces n). \<forall>k. adj (interfaces n' ! i) = adj (interfaces n ! i) \<and>
       (if spf \<and> k = Key r then needs_flooding (interfaces n' ! i) k \<longleftrightarrow> name (interfaces n ! i) \<noteq> ifname
        else lspFloodStates (interfaces n' ! i) k = lspFloodStates (interfaces n ! i) k)"
    by (auto simp: n'(6) floodNewLsp_def set_srm_other)
  moreover have "length (interfaces n') = length (interfaces n)" by (simp add: n'(6) floodNewLsp_def)
  ultimately show ?thesis using n'(1-5) by blast
qed

theorem isisUpdateInput_correct_witness:
  "\<exists>n'. isisUpdateInput_step ''eth0'' (frame_slice (lsp_frame [2, 0x42, 0xac, 0x14, 0, 2] sample_lsp) [0]) sample_node =
      Inr (n', True) \<and> db_abs (UpdateDB n') (Key sample_lsp) = Some sample_lsp \<and>
    \<not> needs_flooding (interfaces n' ! 0) (Key sample_lsp) \<and> needs_flooding (interfaces n' ! 1) (Key sample_lsp)"
proof -
  from isisUpdateInput_correct [OF update_inv_sample_node sample_lsp_frame [of "[0]"], of "''eth0''"]
  obtain n' spf where n': "isisUpdateInput_step ''eth0'' (frame_slice (lsp_frame [2, 0x42, 0xac, 0x14, 0, 2] sample_lsp) [0]) sample_node = Inr (n', spf)"
      "db_abs (UpdateDB n') = accept sample_lsp (db_abs (UpdateDB sample_node))"
      "spf \<longleftrightarrow> db_abs (UpdateDB n') \<noteq> db_abs (UpdateDB sample_node)"
      "\<forall>i < length (interfaces sample_node). \<forall>k. adj (interfaces n' ! i) = adj (interfaces sample_node ! i) \<and>
       (if spf \<and> k = Key sample_lsp then needs_flooding (interfaces n' ! i) k \<longleftrightarrow> name (interfaces sample_node ! i) \<noteq> ''eth0''
        else lspFloodStates (interfaces n' ! i) k = lspFloodStates (interfaces sample_node ! i) k)" by blast
  have db: "db_abs (UpdateDB sample_node) = Map.empty" by (simp add: sample_node_def)
  then have new: "db_abs (UpdateDB n') (Key sample_lsp) = Some sample_lsp" by (simp add: n'(2) accept_def)
  with n'(3) db have spf: "spf" by auto
  have "needs_flooding (interfaces n' ! i) (Key sample_lsp) \<longleftrightarrow> name (interfaces sample_node ! i) \<noteq> ''eth0''"
    if "i < 2" for i using n'(4) that spf by (simp add: sample_node_def)
  from this [of 0] this [of 1] new n'(1) spf show ?thesis by (auto simp: sample_node_def sample_intf_def)
qed

text \<open>
  C5: whatever sequence of LSPs a node with an empty database receives, on whatever interfaces, it does not
  panic, and its database then holds under every key the newest LSP received (the first one of those
  with the highest sequence number), and nothing else.
\<close>

theorem lsdb_is_newest:
  assumes "update_inv n" and "db_abs (UpdateDB n) = Map.empty"
    and "map (\<lambda>ev. deserializeLsp (snd ev)) evs = map Inr rs"
  shows "\<exists>n'. receive_lsps evs n = Inr n' \<and> update_inv n' \<and> db_abs (UpdateDB n') = newest rs"
  using receive_lsps_newest [OF assms(1), of "[]"] assms(2,3) by simp

theorem lsdb_is_newest_witness:
  "\<exists>n'. receive_lsps [(''eth0'', frame_slice (lsp_frame [2, 0x42, 0xac, 0x14, 0, 2] sample_lsp) []),
      (''eth1'', frame_slice (lsp_frame [2, 0x42, 0xac, 0x14, 0, 2] sample_lsp) [1])] sample_node = Inr n' \<and>
    db_abs (UpdateDB n') = newest [sample_lsp, sample_lsp]"
  using lsdb_is_newest [OF update_inv_sample_node, of
      "[(''eth0'', frame_slice (lsp_frame [2, 0x42, 0xac, 0x14, 0, 2] sample_lsp) []),
        (''eth1'', frame_slice (lsp_frame [2, 0x42, 0xac, 0x14, 0, 2] sample_lsp) [1])]" "[sample_lsp, sample_lsp]"]
  by (auto simp: sample_lsp_frame sample_node_def)

text \<open>
  C4: link-state databases converge.  Two nodes whose databases are empty and that receive the same set of
  LSPs, in any orders, with any repetitions and on any interfaces, end with the same database, provided
  no two different LSPs of the set have the same ID and the same sequence number.  The proviso is on the
  originators: a daemon that restarts counts from 0 again and may break it, and then the first LSP
  received stays.
\<close>

theorem lsdb_convergence:
  assumes "update_inv n" and "db_abs (UpdateDB n) = Map.empty"
    and "update_inv m" and "db_abs (UpdateDB m) = Map.empty"
    and "map (\<lambda>ev. deserializeLsp (snd ev)) evs = map Inr rs"
    and "map (\<lambda>ev. deserializeLsp (snd ev)) evs' = map Inr rs'"
    and "set rs = set rs'" and "seq_unique rs"
  shows "\<exists>n' m'. receive_lsps evs n = Inr n' \<and> receive_lsps evs' m = Inr m' \<and>
    db_abs (UpdateDB n') = db_abs (UpdateDB m')"
proof -
  from receive_lsps_newest [OF assms(1), of "[]" evs rs] assms(2,5) obtain n' where
    n': "receive_lsps evs n = Inr n'" "db_abs (UpdateDB n') = newest rs" by auto
  from receive_lsps_newest [OF assms(3), of "[]" evs' rs'] assms(4,6) obtain m' where
    m': "receive_lsps evs' m = Inr m'" "db_abs (UpdateDB m') = newest rs'" by auto
  from assms(7,8) have "seq_unique rs'" by (simp add: seq_unique_def)
  with assms(7,8) have "newest rs k = Some l \<longleftrightarrow> newest rs' k = Some l" for k l by (simp add: newest_unique)
  then have "newest rs = newest rs'" by (metis (no_types) ext not_Some_eq)
  with n' m' show ?thesis by simp
qed

theorem lsdb_convergence_witness:
  "\<exists>n' m'. receive_lsps [(''eth0'', frame_slice (lsp_frame [2, 0x42, 0xac, 0x14, 0, 2] sample_lsp) [])] sample_node = Inr n' \<and>
    receive_lsps [(''eth1'', frame_slice (lsp_frame [2, 0x42, 0xac, 0x14, 0, 2] sample_lsp) []),
      (''eth0'', frame_slice (lsp_frame [2, 0x42, 0xac, 0x14, 0, 2] sample_lsp) [1])] (sample_node\<lparr>interfaces := []\<rparr>) = Inr m' \<and>
    db_abs (UpdateDB n') = db_abs (UpdateDB m')"
  using lsdb_convergence [OF update_inv_sample_node, where m = "sample_node\<lparr>interfaces := []\<rparr>"
      and evs = "[(''eth0'', frame_slice (lsp_frame [2, 0x42, 0xac, 0x14, 0, 2] sample_lsp) [])]"
      and evs' = "[(''eth1'', frame_slice (lsp_frame [2, 0x42, 0xac, 0x14, 0, 2] sample_lsp) []),
        (''eth0'', frame_slice (lsp_frame [2, 0x42, 0xac, 0x14, 0, 2] sample_lsp) [1])]"
      and rs = "[sample_lsp]" and rs' = "[sample_lsp, sample_lsp]"]
  by (simp add: sample_lsp_frame sample_node_def seq_unique_def update_inv_def flooding_inv_def)

text \<open>
  C6: one round of the flooding goroutine, in whatever order it walks the flood states: while the
  adjacency is up it sends exactly one frame per LSP marked on the interface, with the LSP the database
  holds, and clears exactly those marks; while it is not up it sends nothing and changes nothing.  The branch
  that reports a marked LSP missing from the database is never taken, and the invariant is kept.
\<close>

theorem isisUpdate_floods:
  assumes "update_inv n" and "i < length (interfaces n)" and "distinct ks"
    and "set ks = dom (lspFloodStates (interfaces n ! i))"
  shows "\<exists>n' sent. isisUpdate_step getMac ks i n = Inr (n', sent) \<and> update_inv n' \<and>
    UpdateDB n' = UpdateDB n \<and> (\<forall>j. j \<noteq> i \<longrightarrow> interfaces n' ! j = interfaces n ! j) \<and>
    (if state (adj (interfaces n ! i)) = ''UP''
     then (\<forall>k. \<not> needs_flooding (interfaces n' ! i) k) \<and>
       map Some sent = map (\<lambda>k. map_option (lsp_frame (getMac (name (interfaces n ! i)))) (db_abs (UpdateDB n) k))
         (filter (needs_flooding (interfaces n ! i)) ks)
     else n' = n \<and> sent = [])"
proof (cases "state (adj (interfaces n ! i)) = ''UP''")
  case True
  let ?intf = "interfaces n ! i"
  let ?n' = "n\<lparr>interfaces := (interfaces n)[i := clear_srm ?intf]\<rparr>"
  let ?sent = "map (\<lambda>k. lsp_frame (getMac (name ?intf)) (the (db_abs (UpdateDB n) k))) (filter (needs_flooding ?intf) ks)"
  from isisUpdate_step_sends [OF assms, of getMac] True
  have step: "isisUpdate_step getMac ks i n = Inr (?n', ?sent)" by (simp add: Let_def)
  have "\<not> needs_flooding (clear_srm ?intf) k" for k
    by (simp add: needs_flooding_def clear_srm_def split: option.splits)
  moreover have "\<exists>lsp. db_abs (UpdateDB n) k = Some lsp" if "k \<in> set ks" for k
    using assms(1,4) nth_mem [OF assms(2)] that unfolding update_inv_def flooding_inv_def by blast
  then have "map Some ?sent = map (\<lambda>k. map_option (lsp_frame (getMac (name ?intf))) (db_abs (UpdateDB n) k))
      (filter (needs_flooding ?intf) ks)" by fastforce
  ultimately show ?thesis
    using step True assms(2) isisUpdate_step_inv [OF assms step]
    by (intro exI [of _ ?n'] exI [of _ ?sent]) (simp add: nth_list_update)
next
  case False
  with isisUpdate_step_sends [OF assms, of getMac] assms(1) show ?thesis by (simp add: Let_def)
qed

theorem isisUpdate_floods_witness:
  "\<exists>n'. isisUpdate_step (\<lambda>_. [2, 0x42, 0xac, 0x14, 0, 2]) [Key sample_lsp] 0 sample_flooding_node =
      Inr (n', [lsp_frame [2, 0x42, 0xac, 0x14, 0, 2] sample_lsp]) \<and> \<not> needs_flooding (interfaces n' ! 0) (Key sample_lsp)"
proof -
  have dom: "set [Key sample_lsp] = dom (lspFloodStates (interfaces sample_flooding_node ! 0))"
    by (simp add: sample_flooding_node_def sample_node_def sample_intf_def)
  have up: "state (adj (interfaces sample_flooding_node ! 0)) = ''UP''"
    by (simp add: sample_flooding_node_def sample_node_def sample_intf_def)
  have need: "needs_flooding (interfaces sample_flooding_node ! 0) (Key sample_lsp)"
    by (simp add: sample_flooding_node_def sample_node_def sample_intf_def needs_flooding_def set_srm_def)
  have db: "db_abs (UpdateDB sample_flooding_node) (Key sample_lsp) = Some sample_lsp"
    by (simp add: sample_flooding_node_def db_abs_def)
  have len: "0 < length (interfaces sample_flooding_node)" by (simp add: sample_flooding_node_def sample_node_def)
  from isisUpdate_floods [OF update_inv_sample_flooding_node len _ dom, of "\<lambda>_. [2, 0x42, 0xac, 0x14, 0, 2]"] up
  obtain n' sent where "isisUpdate_step (\<lambda>_. [2, 0x42, 0xac, 0x14, 0, 2]) [Key sample_lsp] 0 sample_flooding_node = Inr (n', sent)"
    "\<forall>k. \<not> needs_flooding (interfaces n' ! 0) k"
    "map Some sent = [Some (lsp_frame [2, 0x42, 0xac, 0x14, 0, 2] sample_lsp)]" by (auto simp: need db)
  then show ?thesis by auto
qed

text \<open>
  C8: generating the local LSP never panics.  The sequence number goes up by one (modulo 2 to the 32),
  the database holds the new LSP, built from the current adjacencies and routes, under the node's own key and
  is otherwise unchanged, the LSP is marked for flooding on every interface, and the invariant is kept.
\<close>

theorem generateLocalLsp_correct:
  assumes "update_inv n"
  shows "\<exists>n'. generateLocalLsp n = Inr n' \<and> update_inv n' \<and>
    unat (sequenceNumber n') = (unat (sequenceNumber n) + 1) mod 2 ^ 32 \<and>
    db_abs (UpdateDB n') = (db_abs (UpdateDB n))
      (systemIDToKey (sid n) \<mapsto> local_lsp (sequenceNumber n') (sid n) (interfaces n)) \<and>
    sid n' = sid n \<and> TopoDB n' = TopoDB n \<and>
    map adj (interfaces n') = map adj (interfaces n) \<and>
    (\<forall>intf \<in> set (interfaces n'). needs_flooding intf (systemIDToKey (sid n)))"
proof -
  from generateLocalLsp_ok [OF assms] obtain root where
    n': "generateLocalLsp n = Inr (n\<lparr>sequenceNumber := sequenceNumber n + 1, UpdateDB := root,
      interfaces := map (set_srm (systemIDToKey (sid n)) (systemIDToLspID (sid n)) True) (interfaces n)\<rparr>)"
    "db_abs root = (db_abs (UpdateDB n))(systemIDToKey (sid n) \<mapsto>
       local_lsp (sequenceNumber n + 1) (sid n) (interfaces n))"
    "update_inv (n\<lparr>sequenceNumber := sequenceNumber n + 1, UpdateDB := root,
      interfaces := map (set_srm (systemIDToKey (sid n)) (systemIDToLspID (sid n)) True) (interfaces n)\<rparr>)" .
  have "needs_flooding (set_srm k b True intf) k" for k b intf
    using set_srm_same [of k b True intf] by (auto simp: needs_flooding_def)
  with n' show ?thesis by (simp add: unat_word_ariths)
qed

theorem generateLocalLsp_correct_witness:
  "\<exists>n'. generateLocalLsp sample_node = Inr n' \<and> unat (sequenceNumber n') = 1 \<and>
    (\<forall>intf \<in> set (interfaces n'). needs_flooding intf (systemIDToKey ''1111.1111.1111''))"
proof -
  have s: "sid sample_node = ''1111.1111.1111''" "sequenceNumber sample_node = 0" by (simp_all add: sample_node_def)
  from generateLocalLsp_correct [OF update_inv_sample_node] show ?thesis unfolding s by auto
qed

text \<open>
  C7: flooding reaches the neighbour.  When an interface is up and a well-formed LSP of the database is
  marked on it, one round of the flooding goroutine sends a frame, and a neighbour that receives this
  frame (whatever else is in its receive buffer) does not panic.  If the neighbour had no LSP with that ID, or one
  with a lower sequence number, it ends with exactly this LSP, every field and TLV included, and starts
  the decision process; if it had one with the same or a higher number, it keeps that one and does not.
  Its entries for all other IDs stay as they were.
\<close>

theorem flooding_reaches_neighbour:
  assumes "update_inv n" and "i < length (interfaces n)" and "distinct ks"
    and "set ks = dom (lspFloodStates (interfaces n ! i))"
    and "state (adj (interfaces n ! i)) = ''UP''" and "needs_flooding (interfaces n ! i) k"
    and "db_abs (UpdateDB n) k = Some lsp" and "wf_lsp lsp"
    and "length (getMac (name (interfaces n ! i))) = 6" and "update_inv m"
  shows "\<exists>n' sent m' spf frame. isisUpdate_step getMac ks i n = Inr (n', sent) \<and> frame \<in> set sent \<and>
    isisUpdateInput_step ifname (frame_slice frame rest) m = Inr (m', spf) \<and>
    db_abs (UpdateDB m') = (db_abs (UpdateDB m))(k := (case db_abs (UpdateDB m) k of
        None \<Rightarrow> Some lsp
      | Some l \<Rightarrow> if lsp_seq l < lsp_seq lsp then Some lsp else Some l)) \<and>
    (spf \<longleftrightarrow> (case db_abs (UpdateDB m) k of None \<Rightarrow> True | Some l \<Rightarrow> lsp_seq l < lsp_seq lsp))"
proof -
  let ?mac = "getMac (name (interfaces n ! i))"
  from assms(6) have "k \<in> set ks" by (auto simp: assms(4) needs_flooding_def split: option.splits)
  with isisUpdate_step_sends [OF assms(1-4), of getMac] assms(5-7) obtain n' sent where
    step: "isisUpdate_step getMac ks i n = Inr (n', sent)" "lsp_frame ?mac lsp \<in> set sent"
    by (force simp: Let_def)
  have key: "Key lsp = k" using updatedb_inv_search assms(1,7) by (auto simp: update_inv_def)
  have "deserializeLsp (frame_slice (lsp_frame ?mac lsp) rest) = Inr lsp"
    using deserializeLsp_serializeLsp [of "l1_multicast @ ?mac @ [0x08, 0x00]" "CoreLsp lsp" rest] assms(8,9)
    by (simp add: lsp_frame_def buildEthernetFrame_def wf_lsp_def l1_multicast_def)
  from isisUpdateInput_refines [OF assms(10) this, of ifname] obtain m' spf where
    m': "isisUpdateInput_step ifname (frame_slice (lsp_frame ?mac lsp) rest) m = Inr (m', spf)"
      "db_abs (UpdateDB m') = accept lsp (db_abs (UpdateDB m))"
      "spf \<longleftrightarrow> accept lsp (db_abs (UpdateDB m)) \<noteq> db_abs (UpdateDB m)" by metis
  have acc: "accept lsp db = db(k := (case db k of None \<Rightarrow> Some lsp
      | Some l \<Rightarrow> if lsp_seq l < lsp_seq lsp then Some lsp else Some l))" for db
    by (auto simp: accept_def key fun_upd_idem split: option.split)
  have new: "accept lsp db \<noteq> db \<longleftrightarrow> (case db k of None \<Rightarrow> True | Some l \<Rightarrow> lsp_seq l < lsp_seq lsp)" for db
    by (auto simp: accept_def key fun_upd_idem_iff split: option.split)
  show ?thesis
    by (intro exI conjI, rule step(1), rule step(2), rule m'(1)) (simp only: m'(2) acc, simp only: m'(3) new)
qed

theorem flooding_reaches_neighbour_witness:
  "\<exists>n' sent m' frame.
    isisUpdate_step (\<lambda>_. [2, 0x42, 0xac, 0x14, 0, 2]) [Key sample_lsp] 0 sample_flooding_node = Inr (n', sent) \<and>
    frame \<in> set sent \<and> isisUpdateInput_step ''eth1'' (frame_slice frame [9]) sample_node = Inr (m', True) \<and>
    db_abs (UpdateDB m') = [Key sample_lsp \<mapsto> sample_lsp]"
proof -
  have need: "needs_flooding (interfaces sample_flooding_node ! 0) (Key sample_lsp)"
    by (simp add: sample_flooding_node_def sample_node_def sample_intf_def needs_flooding_def set_srm_def)
  have db: "db_abs (UpdateDB sample_flooding_node) (Key sample_lsp) = Some sample_lsp"
    by (simp add: sample_flooding_node_def db_abs_def)
  have dom: "set [Key sample_lsp] = dom (lspFloodStates (interfaces sample_flooding_node ! 0))"
    and up: "state (adj (interfaces sample_flooding_node ! 0)) = ''UP''"
    and len: "0 < length (interfaces sample_flooding_node)"
    by (simp_all add: sample_flooding_node_def sample_node_def sample_intf_def)
  have empty: "db_abs (UpdateDB sample_node) = Map.empty" by (simp add: sample_node_def)
  from flooding_reaches_neighbour [OF update_inv_sample_flooding_node len _ dom up need db wf_sample_lsp(1) _
      update_inv_sample_node, of "\<lambda>_. [2, 0x42, 0xac, 0x14, 0, 2]" "''eth1''" "[9]"]
  obtain n' sent m' spf frame where
    "isisUpdate_step (\<lambda>_. [2, 0x42, 0xac, 0x14, 0, 2]) [Key sample_lsp] 0 sample_flooding_node = Inr (n', sent)"
    "frame \<in> set sent" "isisUpdateInput_step ''eth1'' (frame_slice frame [9]) sample_node = Inr (m', spf)" "spf"
    "db_abs (UpdateDB m') = [Key sample_lsp \<mapsto> sample_lsp]"
    unfolding empty by auto
  then show ?thesis by (intro exI conjI) simp_all
qed

end
