(* ===== verification/Hello.thy ===== *)
theory Hello
  imports Update
begin

text \<open>
  The hello protocol (\<^verbatim>\<open>src/hello.go\<close>): sending hellos on an interface, receiving them, and the
  three-way handshake that brings an adjacency up and triggers a new local LSP.

  \<open>isisHelloSend_step\<close> and \<open>isisHelloRecv_step\<close> are the bodies of the endless loops of the two
  goroutines of interface number \<open>i\<close>; they return the node and the frames put on the send channel.
  The function that gives an interface's hardware address is an argument.
\<close>

section \<open>The code\<close>

definition sendHello :: "(string \<Rightarrow> bytes) \<Rightarrow> Intf \<Rightarrow> string \<Rightarrow> IsisTLV option \<Rightarrow> bytes" where
  "sendHello getMac intf own_sid neighborsTLV =
     (let hello_l1_lan = buildL1HelloPDU (systemIDToBytes own_sid);
          hello = (case neighborsTLV of
             None \<Rightarrow> hello_l1_lan
           | Some tlv \<Rightarrow> hello_l1_lan\<lparr>FirstTLV_hello := [tlv, getInterfaceTLV intf]\<rparr>)
      in buildEthernetFrame l1_multicast (getMac (name intf)) (serializeIsisHelloPDU hello))"

text \<open>
  \<^verbatim>\<open>recvHello\<close>: \<open>None\<close> for a frame that is not sent to the multicast address, else the hello and the
  hardware address of its sender.  The log line indexes the six address bytes.
\<close>

definition recvHello :: "go_slice \<Rightarrow> (IsisLanHelloPDU \<times> bytes) option res" where
  "recvHello hello =
     bind_res (reslice hello 0 6) (\<lambda>dst.
       if dst = l1_multicast then
         bind_res (map_res (slice_index hello) [6, 7, 8, 9, 10, 11]) (\<lambda>logged.
           bind_res (deserializeIsisHelloPDU hello) (\<lambda>received_hello.
             bind_res (reslice hello 6 12) (\<lambda>sourceMac.
               Inr (Some (received_hello, sourceMac)))))
       else Inr None)"

definition isisHelloSend_step :: "(string \<Rightarrow> bytes) \<Rightarrow> nat \<Rightarrow> node \<Rightarrow> bytes list res" where
  "isisHelloSend_step getMac i n =
     (if i < length (interfaces n) then
        (let intf = interfaces n ! i
         in if sid n \<noteq> '''' \<and> state (adj intf) \<noteq> ''UP''
            then Inr [sendHello getMac intf (sid n) None] else Inr [])
      else Inl IndexOutOfRange)"

text \<open>The fields of the adjacency that the last message of the handshake sets.\<close>

definition adj_up :: "bytes \<Rightarrow> bytes \<Rightarrow> Adjacency \<Rightarrow> Adjacency" where
  "adj_up sourceSystemID ip a =
     a\<lparr>state := ''UP'', metric := 10, neighborSystemID := copy_zeroed 6 sourceSystemID,
       neighborIP := Some (copy_zeroed 4 ip)\<rparr>"

definition adj_init :: "Adjacency \<Rightarrow> Adjacency" where
  "adj_init a = (if state a \<noteq> ''UP'' then a\<lparr>state := ''INIT''\<rparr> else a)"

definition set_adj :: "nat \<Rightarrow> (Adjacency \<Rightarrow> Adjacency) \<Rightarrow> node \<Rightarrow> node" where
  "set_adj i f n = n\<lparr>interfaces := (interfaces n)
     [i := (interfaces n ! i)\<lparr>adj := f (adj (interfaces n ! i))\<rparr>]\<rparr>"

definition isisHelloRecv_step ::
  "(string \<Rightarrow> bytes) \<Rightarrow> nat \<Rightarrow> go_slice \<Rightarrow> node \<Rightarrow> (node \<times> bytes list) res" where
  "isisHelloRecv_step getMac i raw n =
     (if i < length (interfaces n) then
        bind_res (recvHello raw) (\<lambda>rsp.
          case rsp of
            None \<Rightarrow> Inr (n, [])
          | Some (lanHelloPDU, sourceMac) \<Rightarrow>
              if systemIDToString (SourceSystemID (LanHelloHeader lanHelloPDU)) = sid n then Inr (n, [])
              else (case FirstTLV_hello lanHelloPDU of
                 [] \<Rightarrow>
                   (let neighborsTLV = \<lparr>typeTLV = 6, lengthTLV = 6, valueTLV = sourceMac\<rparr>;
                        n' = set_adj i adj_init n
                    in Inr (n', [sendHello getMac (interfaces n' ! i) (sid n) (Some neighborsTLV)]))
               | tlv # next \<Rightarrow>
                   if valueTLV tlv = getMac (name (interfaces n ! i)) then
                     (case next of
                        [] \<Rightarrow> Inl NilDereference
                      | tlv2 # _ \<Rightarrow>
                          bind_res (generateLocalLsp (set_adj i
                              (adj_up (SourceSystemID (LanHelloHeader lanHelloPDU)) (valueTLV tlv2)) n))
                            (\<lambda>n'. Inr (n', [])))
                   else Inr (n, [])))
      else Inl IndexOutOfRange)"

section \<open>The adjacency\<close>

lemma set_adj_simps [simp]:
  "sid (set_adj i f n) = sid n" "UpdateDB (set_adj i f n) = UpdateDB n" "TopoDB (set_adj i f n) = TopoDB n"
  "sequenceNumber (set_adj i f n) = sequenceNumber n" "length (interfaces (set_adj i f n)) = length (interfaces n)"
  "i < length (interfaces n) \<Longrightarrow> adj (interfaces (set_adj i f n) ! i) = f (adj (interfaces n ! i))"
  "i < length (interfaces n) \<Longrightarrow> name (interfaces (set_adj i f n) ! i) = name (interfaces n ! i)"
  "i < length (interfaces n) \<Longrightarrow> prefix (interfaces (set_adj i f n) ! i) = prefix (interfaces n ! i)"
  "j \<noteq> i \<Longrightarrow> interfaces (set_adj i f n) ! j = interfaces n ! j"
  by (simp_all add: set_adj_def)

lemma adj_inv_up: "adj_inv (adj_up s ip a)"
  by (simp add: adj_inv_def adj_up_def)

lemma adj_inv_init: "adj_inv a \<Longrightarrow> adj_inv (adj_init a)"
  by (auto simp: adj_inv_def adj_init_def)

lemma update_inv_set_adj:
  assumes "update_inv n" "i < length (interfaces n)" "adj_inv (f (adj (interfaces n ! i)))"
  shows "update_inv (set_adj i f n)"
proof -
  let ?intf = "(interfaces n ! i)\<lparr>adj := f (adj (interfaces n ! i))\<rparr>"
  from assms(1) have all: "\<forall>intf \<in> set (interfaces n). intf_inv intf \<and>
     (\<forall>k \<in> dom (lspFloodStates intf). db_abs (UpdateDB n) k \<noteq> None)"
    by (simp add: update_inv_def flooding_inv_def)
  from bspec [OF all nth_mem [OF assms(2)]] assms(3)
  have "intf_inv ?intf \<and> (\<forall>k \<in> dom (lspFloodStates ?intf). db_abs (UpdateDB n) k \<noteq> None)"
    by (simp add: intf_inv_def)
  with all set_update_subset_insert [of "interfaces n" i ?intf] have
    "\<forall>intf \<in> set ((interfaces n)[i := ?intf]). intf_inv intf \<and>
     (\<forall>k \<in> dom (lspFloodStates intf). db_abs (UpdateDB n) k \<noteq> None)" by blast
  with assms(1) show ?thesis by (simp add: update_inv_def flooding_inv_def set_adj_def)
qed

lemma update_inv_adj_init:
  assumes "update_inv n" "i < length (interfaces n)"
  shows "update_inv (set_adj i adj_init n)"
proof -
  from assms have "adj_inv (adj (interfaces n ! i))" by (simp add: update_inv_def flooding_inv_def intf_inv_def)
  then show ?thesis by (intro update_inv_set_adj assms adj_inv_init)
qed

section \<open>Messages\<close>

text \<open>A hello that was sent, as its receiver sees it.\<close>

lemma recvHello_sendHello:
  assumes "length (getMac (name intf)) = 6" "\<And>t. tlv = Some t \<Longrightarrow> wf_tlv t"
  obtains pdu where "recvHello (frame_slice (sendHello getMac intf s tlv) rest) = Inr (Some (pdu, getMac (name intf)))"
    "SourceSystemID (LanHelloHeader pdu) = systemIDToBytes s"
    "FirstTLV_hello pdu = (case tlv of None \<Rightarrow> [] | Some t \<Rightarrow> [t, getInterfaceTLV intf])"
proof -
  let ?mac = "getMac (name intf)"
  let ?pdu = "case tlv of None \<Rightarrow> buildL1HelloPDU (systemIDToBytes s)
    | Some t \<Rightarrow> (buildL1HelloPDU (systemIDToBytes s))\<lparr>FirstTLV_hello := [t, getInterfaceTLV intf]\<rparr>"
  let ?eth = "l1_multicast @ ?mac @ [0x08, 0x00]"
  have eth: "length ?eth = 14" using assms(1) by (simp add: l1_multicast_def)
  have hdr: "wf_hello_header (LanHelloHeader ?pdu)" "SourceSystemID (LanHelloHeader ?pdu) = systemIDToBytes s"
    by (simp_all add: buildL1HelloPDU_def wf_hello_header_def split: option.split)
  have tlvs: "FirstTLV_hello ?pdu = (case tlv of None \<Rightarrow> [] | Some t \<Rightarrow> [t, getInterfaceTLV intf])"
    by (simp add: buildL1HelloPDU_def split: option.split)
  have "wf_tlv (getInterfaceTLV intf)" by (simp add: wf_tlv_def getInterfaceTLV_def)
  with assms(2) have wf: "list_all wf_tlv (FirstTLV_hello ?pdu)" by (simp add: tlvs split: option.split)
  have frame: "sendHello getMac intf s tlv = ?eth @ serializeIsisHelloPDU ?pdu"
    by (simp add: sendHello_def buildEthernetFrame_def Let_def)
  from deserialize_serialize_hello [OF eth hdr(1) wf, of rest] obtain hello where
    hello: "deserializeIsisHelloPDU (frame_slice (sendHello getMac intf s tlv) rest) = Inr hello"
      "SourceSystemID (LanHelloHeader hello) = systemIDToBytes s"
      "FirstTLV_hello hello = (case tlv of None \<Rightarrow> [] | Some t \<Rightarrow> [t, getInterfaceTLV intf])"
    unfolding frame hdr(2) tlvs by blast
  have "reslice (frame_slice (sendHello getMac intf s tlv) rest) 0 6 = Inr l1_multicast"
    "reslice (frame_slice (sendHello getMac intf s tlv) rest) 6 12 = Inr ?mac"
    "map_res (slice_index (frame_slice (sendHello getMac intf s tlv) rest)) [6, 7, 8, 9, 10, 11] =
      Inr (map ((!) (sendHello getMac intf s tlv @ rest)) [6, 7, 8, 9, 10, 11])"
    using assms(1)
    by (simp_all add: frame reslice_def slice_index_def frame_slice_def l1_multicast_def)
  with hello that show thesis by (simp add: recvHello_def)
qed

text \<open>The node's answer to a hello without TLVs, and to a hello that lists its own address.\<close>

lemma recv_first_hello:
  assumes "i < length (interfaces n)" "recvHello raw = Inr (Some (pdu, mac))" "FirstTLV_hello pdu = []"
    and "systemIDToString (SourceSystemID (LanHelloHeader pdu)) \<noteq> sid n"
  shows "isisHelloRecv_step getMac i raw n = Inr (set_adj i adj_init n,
    [sendHello getMac (interfaces (set_adj i adj_init n) ! i) (sid n)
      (Some \<lparr>typeTLV = 6, lengthTLV = 6, valueTLV = mac\<rparr>)])"
  using assms by (simp add: isisHelloRecv_step_def Let_def)

lemma recv_confirming_hello:
  assumes "update_inv n" "i < length (interfaces n)" "recvHello raw = Inr (Some (pdu, mac))"
    and "FirstTLV_hello pdu = t # t2 # ts" "valueTLV t = getMac (name (interfaces n ! i))"
    and "systemIDToString (SourceSystemID (LanHelloHeader pdu)) \<noteq> sid n"
  defines "n1 \<equiv> set_adj i (adj_up (SourceSystemID (LanHelloHeader pdu)) (valueTLV t2)) n"
  obtains n' where "isisHelloRecv_step getMac i raw n = Inr (n', [])" "update_inv n'" "sid n' = sid n"
    "TopoDB n' = TopoDB n" "length (interfaces n') = length (interfaces n)"
    "adj (interfaces n' ! i) = adj_up (SourceSystemID (LanHelloHeader pdu)) (valueTLV t2) (adj (interfaces n ! i))"
    "\<And>j. j < length (interfaces n) \<Longrightarrow> j \<noteq> i \<Longrightarrow> adj (interfaces n' ! j) = adj (interfaces n ! j)"
    "\<And>j. j < length (interfaces n) \<Longrightarrow> name (interfaces n' ! j) = name (interfaces n ! j) \<and>
      prefix (interfaces n' ! j) = prefix (interfaces n ! j)"
    "db_abs (UpdateDB n') = (db_abs (UpdateDB n))
      (systemIDToKey (sid n) \<mapsto> local_lsp (sequenceNumber n + 1) (sid n) (interfaces n1))"
    "\<And>intf. intf \<in> set (interfaces n') \<Longrightarrow> needs_flooding intf (systemIDToKey (sid n))"
proof -
  have "update_inv n1" unfolding n1_def by (intro update_inv_set_adj assms(1,2) adj_inv_up)
  from generateLocalLsp_ok [OF this] obtain root where
    gen: "generateLocalLsp n1 = Inr (n1\<lparr>sequenceNumber := sequenceNumber n1 + 1, UpdateDB := root,
      interfaces := map (set_srm (systemIDToKey (sid n1)) (systemIDToLspID (sid n1)) True) (interfaces n1)\<rparr>)"
    "db_abs root = (db_abs (UpdateDB n1))(systemIDToKey (sid n1) \<mapsto>
       local_lsp (sequenceNumber n1 + 1) (sid n1) (interfaces n1))"
    "update_inv (n1\<lparr>sequenceNumber := sequenceNumber n1 + 1, UpdateDB := root,
      interfaces := map (set_srm (systemIDToKey (sid n1)) (systemIDToLspID (sid n1)) True) (interfaces n1)\<rparr>)" .
  let ?n' = "n1\<lparr>sequenceNumber := sequenceNumber n1 + 1, UpdateDB := root,
      interfaces := map (set_srm (systemIDToKey (sid n1)) (systemIDToLspID (sid n1)) True) (interfaces n1)\<rparr>"
  have n1: "sid n1 = sid n" "TopoDB n1 = TopoDB n" "UpdateDB n1 = UpdateDB n" "sequenceNumber n1 = sequenceNumber n"
    "length (interfaces n1) = length (interfaces n)" by (simp_all add: n1_def)
  have nth: "name (interfaces n1 ! j) = name (interfaces n ! j) \<and> prefix (interfaces n1 ! j) = prefix (interfaces n ! j)"
    for j by (cases "j = i") (simp_all add: n1_def assms(2))
  have "isisHelloRecv_step getMac i raw n = Inr (?n', [])"
    using gen(1) assms(2-6) unfolding n1_def [symmetric] by (simp add: isisHelloRecv_step_def n1_def [symmetric])
  moreover have "needs_flooding (set_srm k b True intf) k" for k b intf
    using set_srm_same [of k b True intf] by (auto simp: needs_flooding_def)
  moreover have "adj (interfaces ?n' ! i) = adj_up (SourceSystemID (LanHelloHeader pdu)) (valueTLV t2) (adj (interfaces n ! i))"
    using assms(2) by (simp add: n1_def)
  moreover have "adj (interfaces ?n' ! j) = adj (interfaces n ! j)" if "j < length (interfaces n)" "j \<noteq> i" for j
    using that by (simp add: n1_def)
  ultimately show thesis using gen(2,3) nth by (intro that [of ?n']) (auto simp: n1)
qed

text \<open>
  Half of the handshake: the periodic hello of a node that is not adjacent yet, the peer's answer, and
  the adjacency it brings up.
\<close>

lemma handshake_exchange:
  assumes "update_inv x" "i < length (interfaces x)" "j < length (interfaces y)"
    and "state (adj (interfaces x ! i)) \<noteq> ''UP''" "sid x \<noteq> []"
    and "length (macX (name (interfaces x ! i))) = 6" "length (macY (name (interfaces y ! j))) = 6"
    and "systemIDToString (systemIDToBytes (sid x)) \<noteq> sid y"
    and "systemIDToString (systemIDToBytes (sid y)) \<noteq> sid x"
  defines "up \<equiv> adj_up (systemIDToBytes (sid y)) (valueTLV (getInterfaceTLV (interfaces y ! j)))"
  defines "h \<equiv> sendHello macX (interfaces x ! i) (sid x) None"
    and "reply \<equiv> sendHello macY (interfaces (set_adj j adj_init y) ! j) (sid y)
      (Some \<lparr>typeTLV = 6, lengthTLV = 6, valueTLV = macX (name (interfaces x ! i))\<rparr>)"
  obtains x' where "isisHelloSend_step macX i x = Inr [h]"
    "isisHelloRecv_step macY j (frame_slice h r1) y = Inr (set_adj j adj_init y, [reply])"
    "isisHelloRecv_step macX i (frame_slice reply r2) x = Inr (x', [])"
    "update_inv x'" "sid x' = sid x" "length (interfaces x') = length (interfaces x)"
    "adj (interfaces x' ! i) = up (adj (interfaces x ! i))"
    "\<And>k. k < length (interfaces x) \<Longrightarrow> k \<noteq> i \<Longrightarrow> adj (interfaces x' ! k) = adj (interfaces x ! k)"
    "\<And>k. k < length (interfaces x) \<Longrightarrow> name (interfaces x' ! k) = name (interfaces x ! k) \<and>
      prefix (interfaces x' ! k) = prefix (interfaces x ! k)"
    "db_abs (UpdateDB x') = (db_abs (UpdateDB x))
      (systemIDToKey (sid x) \<mapsto> local_lsp (sequenceNumber x + 1) (sid x) (interfaces (set_adj i up x)))"
    "\<And>intf. intf \<in> set (interfaces x') \<Longrightarrow> needs_flooding intf (systemIDToKey (sid x))"
proof -
  let ?X = "interfaces x ! i" and ?Y = "interfaces (set_adj j adj_init y) ! j"
  let ?tlv = "\<lparr>typeTLV = 6, lengthTLV = 6, valueTLV = macX (name ?X)\<rparr>"
  have wf: "wf_tlv ?tlv" using assms(6) by (simp add: wf_tlv_def)
  have addr: "getInterfaceTLV ?Y = getInterfaceTLV (interfaces y ! j)" using assms(3) by (simp add: getInterfaceTLV_def)
  have 1: "isisHelloSend_step macX i x = Inr [h]"
    using assms(2,4,5) by (simp add: isisHelloSend_step_def h_def Let_def)
  obtain p where p: "recvHello (frame_slice h r1) = Inr (Some (p, macX (name ?X)))"
    "SourceSystemID (LanHelloHeader p) = systemIDToBytes (sid x)" "FirstTLV_hello p = []"
    using recvHello_sendHello [of macX ?X None "sid x" r1] assms(6) unfolding h_def by auto
  have 2: "isisHelloRecv_step macY j (frame_slice h r1) y = Inr (set_adj j adj_init y, [reply])"
    using recv_first_hello [OF assms(3) p(1,3)] p(2) assms(8) by (simp add: reply_def)
  obtain q where q: "recvHello (frame_slice reply r2) = Inr (Some (q, macY (name ?Y)))"
    "SourceSystemID (LanHelloHeader q) = systemIDToBytes (sid y)" "FirstTLV_hello q = [?tlv, getInterfaceTLV ?Y]"
    using recvHello_sendHello [of macY ?Y "Some ?tlv" "sid y" r2] assms(3,7) wf unfolding reply_def by auto
  show thesis
  proof (rule recv_confirming_hello [OF assms(1,2) q(1,3), of macX], goal_cases)
    case (3 x')
    then show ?case using 1 2 unfolding q(2) addr up_def [symmetric] by (intro that [of x'])
  qed (use q(2) assms(9) in simp_all)
qed

lemma handshake_half:
  assumes "update_inv x" "i < length (interfaces x)" "j < length (interfaces y)"
    and "state (adj (interfaces x ! i)) \<noteq> ''UP''" "sid x \<noteq> []"
    and "length (macX (name (interfaces x ! i))) = 6" "length (macY (name (interfaces y ! j))) = 6"
    and "systemIDToString (systemIDToBytes (sid x)) \<noteq> sid y"
    and "systemIDToString (systemIDToBytes (sid y)) \<noteq> sid x"
  obtains h reply x' where "isisHelloSend_step macX i x = Inr [h]"
    "isisHelloRecv_step macY j (frame_slice h r1) y = Inr (set_adj j adj_init y, [reply])"
    "isisHelloRecv_step macX i (frame_slice reply r2) x = Inr (x', [])"
    "update_inv x'" "sid x' = sid x" "length (interfaces x') = length (interfaces x)"
    "adj (interfaces x' ! i) = adj_up (systemIDToBytes (sid y)) (valueTLV (getInterfaceTLV (interfaces y ! j)))
       (adj (interfaces x ! i))"
    "name (interfaces x' ! i) = name (interfaces x ! i)"
    "getInterfaceTLV (interfaces x' ! i) = getInterfaceTLV (interfaces x ! i)"
    "db_abs (UpdateDB x') (systemIDToKey (sid x)) \<noteq> None"
    "needs_flooding (interfaces x' ! i) (systemIDToKey (sid x))"
proof (rule handshake_exchange [where macX = macX and macY = macY, OF assms, of r1 r2], goal_cases)
  case (1 x')
  from 1 assms(2) show ?case by (intro that [of _ _ x']) (simp_all add: getInterfaceTLV_def)
qed

lemma recvHello_lengths:
  "recvHello raw = Inr (Some (pdu, mac)) \<Longrightarrow> length (SourceSystemID (LanHelloHeader pdu)) = 6 \<and> length mac = 6"
  by (auto simp: recvHello_def deserializeIsisHelloPDU_def reslice_def res_simps Let_def read_hello_header_def
      case_prod_beta split: if_splits)

text \<open>
  What a received hello can do to the node.  A frame that is no hello, the node's own hello and a hello that
  starts with somebody else's address are ignored.
\<close>

definition hello_ignored :: "(string \<Rightarrow> bytes) \<Rightarrow> nat \<Rightarrow> go_slice \<Rightarrow> node \<Rightarrow> bool" where
  "hello_ignored getMac i raw n \<longleftrightarrow> recvHello raw = Inr None \<or>
     (\<exists>pdu mac. recvHello raw = Inr (Some (pdu, mac)) \<and>
        (systemIDToString (SourceSystemID (LanHelloHeader pdu)) = sid n \<or>
         (\<exists>t ts. FirstTLV_hello pdu = t # ts \<and> valueTLV t \<noteq> getMac (name (interfaces n ! i)))))"

lemma isisHelloRecv_stepE:
  assumes "isisHelloRecv_step getMac i raw n = Inr (n', sent)"
  obtains (same) "n' = n" "sent = []" "hello_ignored getMac i raw n"
  | (first) pdu mac where "recvHello raw = Inr (Some (pdu, mac))" "FirstTLV_hello pdu = []"
      "systemIDToString (SourceSystemID (LanHelloHeader pdu)) \<noteq> sid n" "n' = set_adj i adj_init n"
      "sent = [sendHello getMac (interfaces n ! i) (sid n) (Some \<lparr>typeTLV = 6, lengthTLV = 6, valueTLV = mac\<rparr>)]"
  | (confirm) pdu mac t t2 ts where "recvHello raw = Inr (Some (pdu, mac))" "FirstTLV_hello pdu = t # t2 # ts"
      "valueTLV t = getMac (name (interfaces n ! i))"
      "systemIDToString (SourceSystemID (LanHelloHeader pdu)) \<noteq> sid n" "sent = []"
      "generateLocalLsp (set_adj i (adj_up (SourceSystemID (LanHelloHeader pdu)) (valueTLV t2)) n) = Inr n'"
proof -
  from assms have i: "i < length (interfaces n)" by (simp add: isisHelloRecv_step_def split: if_splits)
  with assms obtain rsp where rsp: "recvHello raw = Inr rsp" by (auto simp: isisHelloRecv_step_def res_simps)
  have answer: "sendHello getMac (interfaces (set_adj i adj_init n) ! i) s t = sendHello getMac (interfaces n ! i) s t"
    for s t using i by (simp add: sendHello_def getInterfaceTLV_def Let_def split: option.split)
  show thesis
  proof (cases rsp)
    case None
    with assms i rsp that(1) show ?thesis by (simp add: isisHelloRecv_step_def hello_ignored_def)
  next
    case (Some r)
    then obtain pdu mac where r: "rsp = Some (pdu, mac)" by (cases r) auto
    show ?thesis
    proof (cases "systemIDToString (SourceSystemID (LanHelloHeader pdu)) = sid n")
      case True
      with assms i rsp r that(1) show ?thesis by (simp add: isisHelloRecv_step_def hello_ignored_def)
    next
      case False
      with assms i rsp r that show ?thesis
        by (auto simp: isisHelloRecv_step_def hello_ignored_def answer res_simps Let_def split: list.splits if_splits)
    qed
  qed
qed

lemma isisHelloRecv_index: "isisHelloRecv_step getMac i raw n = Inr r \<Longrightarrow> i < length (interfaces n)"
  by (simp add: isisHelloRecv_step_def split: if_splits)

lemma isisHelloRecv_panic:
  assumes "update_inv n" and "i < length (interfaces n)"
  shows "isisHelloRecv_step getMac i raw n = Inl e \<longleftrightarrow>
    recvHello raw = Inl e \<or>
    e = NilDereference \<and> (\<exists>pdu mac t. recvHello raw = Inr (Some (pdu, mac)) \<and> FirstTLV_hello pdu = [t] \<and>
      systemIDToString (SourceSystemID (LanHelloHeader pdu)) \<noteq> sid n \<and>
      valueTLV t = getMac (name (interfaces n ! i)))"
proof -
  have gen: "generateLocalLsp (set_adj i (adj_up s ip) n) \<noteq> Inl e" for s ip
    by (rule generateLocalLsp_ok [OF update_inv_set_adj [where f = "adj_up s ip", OF assms adj_inv_up]]) simp
  show ?thesis
  proof (cases "recvHello raw")
    case (Inl e')
    with assms(2) show ?thesis by (simp add: isisHelloRecv_step_def)
  next
    case (Inr rsp)
    with assms(2) gen show ?thesis
      by (cases rsp) (auto simp: isisHelloRecv_step_def res_simps Let_def split: list.splits if_splits)
  qed
qed

section \<open>Properties of the hello protocol\<close>

text \<open>The reference instance of the witnesses: a second node on the link, not adjacent to anything yet.\<close>

definition sample_peer :: node where
  "sample_peer = \<lparr>sid = ''1111.1111.1112'', interfaces = [sample_intf ''eth0'' ''NEW'' []],
     UpdateDB = NilNode, TopoDB = NilNode, sequenceNumber = 0\<rparr>"

lemma update_inv_sample_peer: "update_inv sample_peer"
  by (simp add: update_inv_def flooding_inv_def sample_peer_def sample_intf_def intf_inv_def adj_inv_def flood_inv_def)

text \<open>
  C12: the adjacency state machine.  Whenever a received frame is handled without a panic, exactly one of
  three things has happened.  A frame that is no hello, the node's own hello, and a hello whose first
  TLV is not this interface's own address change nothing and are not answered.  A hello of another
  system without TLVs takes an adjacency that is not up to INIT, leaves one that is up as it is, changes
  nothing else, and is answered with one hello that lists the sender's address.  A hello of another system whose first TLV
  is this interface's own address takes the adjacency up, with that system's ID, metric 10 and
  the address in the second TLV; the node's own LSP is generated from the new adjacencies under the next
  sequence number, replaces the one in the database, is marked on every interface, and nothing is sent.
  The other adjacencies, the system ID and the topology database stay, an adjacency that is up
  stays up, and the invariant of the node is kept.
\<close>

theorem adjacency_transitions:
  assumes "update_inv n" and "isisHelloRecv_step getMac i raw n = Inr (n', sent)"
  shows "update_inv n' \<and> i < length (interfaces n) \<and> length (interfaces n') = length (interfaces n) \<and>
    sid n' = sid n \<and> TopoDB n' = TopoDB n \<and>
    (\<forall>j < length (interfaces n). j \<noteq> i \<longrightarrow> adj (interfaces n' ! j) = adj (interfaces n ! j)) \<and>
    (state (adj (interfaces n ! i)) = ''UP'' \<longrightarrow> state (adj (interfaces n' ! i)) = ''UP'') \<and>
    (n' = n \<and> sent = [] \<and> hello_ignored getMac i raw n \<or>
     (\<exists>pdu mac. recvHello raw = Inr (Some (pdu, mac)) \<and> FirstTLV_hello pdu = [] \<and>
       systemIDToString (SourceSystemID (LanHelloHeader pdu)) \<noteq> sid n \<and>
       n' = n\<lparr>interfaces := (interfaces n)[i := (interfaces n ! i)\<lparr>adj :=
         (if state (adj (interfaces n ! i)) = ''UP'' then adj (interfaces n ! i)
          else (adj (interfaces n ! i))\<lparr>state := ''INIT''\<rparr>)\<rparr>]\<rparr> \<and>
       sent = [sendHello getMac (interfaces n ! i) (sid n) (Some \<lparr>typeTLV = 6, lengthTLV = 6, valueTLV = mac\<rparr>)]) \<or>
     (\<exists>pdu mac t t2 ts. recvHello raw = Inr (Some (pdu, mac)) \<and> FirstTLV_hello pdu = t # t2 # ts \<and>
       systemIDToString (SourceSystemID (LanHelloHeader pdu)) \<noteq> sid n \<and>
       valueTLV t = getMac (name (interfaces n ! i)) \<and> sent = [] \<and>
       adj (interfaces n' ! i) = (adj (interfaces n ! i))\<lparr>state := ''UP'', metric := 10,
         neighborSystemID := copy_zeroed 6 (SourceSystemID (LanHelloHeader pdu)),
         neighborIP := Some (copy_zeroed 4 (valueTLV t2))\<rparr> \<and>
       db_abs (UpdateDB n') = (db_abs (UpdateDB n))(systemIDToKey (sid n) \<mapsto>
         local_lsp (sequenceNumber n + 1) (sid n)
           ((interfaces n)[i := (interfaces n ! i)\<lparr>adj := adj (interfaces n' ! i)\<rparr>])) \<and>
       (\<forall>intf \<in> set (interfaces n'). needs_flooding intf (systemIDToKey (sid n)))))"
proof -
  note i = isisHelloRecv_index [OF assms(2)]
  from assms(2) show ?thesis
  proof (cases rule: isisHelloRecv_stepE)
    case same
    with assms(1) i show ?thesis by simp
  next
    case (first pdu mac)
    have n': "n' = n\<lparr>interfaces := (interfaces n)[i := (interfaces n ! i)\<lparr>adj :=
        (if state (adj (interfaces n ! i)) = ''UP'' then adj (interfaces n ! i)
         else (adj (interfaces n ! i))\<lparr>state := ''INIT''\<rparr>)\<rparr>]\<rparr>"
      using first(4) by (simp add: set_adj_def adj_init_def)
    from update_inv_adj_init [OF assms(1) i] first i have
      "update_inv n'" "length (interfaces n') = length (interfaces n)" "sid n' = sid n" "TopoDB n' = TopoDB n"
      "\<forall>j < length (interfaces n). j \<noteq> i \<longrightarrow> adj (interfaces n' ! j) = adj (interfaces n ! j)"
      "state (adj (interfaces n ! i)) = ''UP'' \<longrightarrow> state (adj (interfaces n' ! i)) = ''UP''"
      by (simp_all add: adj_init_def)
    with first(1-3,5) n' i show ?thesis by blast
  next
    case (confirm pdu mac t t2 ts)
    define up where "up = adj_up (SourceSystemID (LanHelloHeader pdu)) (valueTLV t2)"
    from recv_confirming_hello [OF assms(1) i confirm(1,2), of getMac] confirm(3,4) obtain n'' where
      n'': "isisHelloRecv_step getMac i raw n = Inr (n'', [])" "update_inv n''" "sid n'' = sid n"
      "TopoDB n'' = TopoDB n" "length (interfaces n'') = length (interfaces n)"
      "adj (interfaces n'' ! i) = up (adj (interfaces n ! i))"
      "\<forall>j < length (interfaces n). j \<noteq> i \<longrightarrow> adj (interfaces n'' ! j) = adj (interfaces n ! j)"
      "db_abs (UpdateDB n'') = (db_abs (UpdateDB n))
        (systemIDToKey (sid n) \<mapsto> local_lsp (sequenceNumber n + 1) (sid n) (interfaces (set_adj i up n)))"
      "\<forall>intf \<in> set (interfaces n''). needs_flooding intf (systemIDToKey (sid n))"
      unfolding up_def by metis
    from n''(1) assms(2) have [simp]: "n'' = n'" by simp
    have "interfaces (set_adj i up n) = (interfaces n)[i := (interfaces n ! i)\<lparr>adj := adj (interfaces n' ! i)\<rparr>]"
      using n''(6) by (simp add: set_adj_def)
    moreover have "adj (interfaces n' ! i) = (adj (interfaces n ! i))\<lparr>state := ''UP'', metric := 10,
         neighborSystemID := copy_zeroed 6 (SourceSystemID (LanHelloHeader pdu)),
         neighborIP := Some (copy_zeroed 4 (valueTLV t2))\<rparr>" using n''(6) by (simp add: up_def adj_up_def)
    moreover from this have "state (adj (interfaces n' ! i)) = ''UP''" by simp
    ultimately show ?thesis using n''(2-5,7-9) i confirm(1-5) by simp
  qed
qed

theorem adjacency_transitions_witness:
  "state (adj (interfaces sample_peer ! 0)) = ''NEW'' \<and>
   (\<exists>n' sent. isisHelloRecv_step (\<lambda>_. [2, 0, 0, 0, 0, 2]) 0
      (frame_slice (sendHello (\<lambda>_. [2, 0, 0, 0, 0, 1]) (interfaces sample_node ! 1) ''1111.1111.1111'' None) []) sample_peer =
      Inr (n', sent) \<and> update_inv n' \<and> state (adj (interfaces n' ! 0)) = ''INIT'' \<and> length sent = 1)"
proof -
  let ?raw = "frame_slice (sendHello (\<lambda>_. [2, 0, 0, 0, 0, 1]) (interfaces sample_node ! 1) ''1111.1111.1111'' None) []"
  have other: "systemIDToString (systemIDToBytes ''1111.1111.1111'') \<noteq> ''1111.1111.1112''" by code_simp
  obtain pdu where "recvHello ?raw = Inr (Some (pdu, [2, 0, 0, 0, 0, 1]))"
    "SourceSystemID (LanHelloHeader pdu) = systemIDToBytes ''1111.1111.1111''" "FirstTLV_hello pdu = []"
    by (rule recvHello_sendHello [of "\<lambda>_. [2, 0, 0, 0, 0, 1]" "interfaces sample_node ! 1" None "''1111.1111.1111''" "[]"]) auto
  note pdu = this
  moreover have "0 < length (interfaces sample_peer)" "sid sample_peer = ''1111.1111.1112''" by (simp_all add: sample_peer_def)
  ultimately obtain n' sent where step: "isisHelloRecv_step (\<lambda>_. [2, 0, 0, 0, 0, 2]) 0 ?raw sample_peer = Inr (n', sent)"
    using recv_first_hello [of 0 sample_peer ?raw pdu "[2, 0, 0, 0, 0, 1]" "\<lambda>_. [2, 0, 0, 0, 0, 2]"] other by auto
  have new: "state (adj (interfaces sample_peer ! 0)) = ''NEW''" by (simp add: sample_peer_def sample_intf_def)
  have "\<not> hello_ignored (\<lambda>_. [2, 0, 0, 0, 0, 2]) 0 ?raw sample_peer"
    using pdu other by (simp add: hello_ignored_def sample_peer_def)
  with adjacency_transitions [OF update_inv_sample_peer step] pdu(1,3) new
  have "update_inv n' \<and> state (adj (interfaces n' ! 0)) = ''INIT'' \<and> length sent = 1" by auto
  with step new show ?thesis by blast
qed

text \<open>
  C30: when the receiving goroutine takes the daemon down.  It panics exactly when the frame cannot be
  decoded, or when the hello is from another system, carries a single TLV, and that TLV holds the
  interface's own address: the code then reads the value of a second TLV that does not exist.
\<close>

theorem isisHelloRecv_panics_iff:
  assumes "update_inv n" and "i < length (interfaces n)"
  shows "isisHelloRecv_step getMac i raw n = Inl e \<longleftrightarrow>
    recvHello raw = Inl e \<or>
    e = NilDereference \<and> (\<exists>pdu mac t. recvHello raw = Inr (Some (pdu, mac)) \<and> FirstTLV_hello pdu = [t] \<and>
      systemIDToString (SourceSystemID (LanHelloHeader pdu)) \<noteq> sid n \<and>
      valueTLV t = getMac (name (interfaces n ! i)))"
  by (rule isisHelloRecv_panic [OF assms])

theorem isisHelloRecv_panics_iff_witness:
  "isisHelloRecv_step (\<lambda>_. [2, 0, 0, 0, 0, 2]) 0 (frame_slice (buildEthernetFrame l1_multicast [2, 0, 0, 0, 0, 1]
      (serializeIsisHelloPDU ((buildL1HelloPDU [1, 2, 3, 4, 5, 6])
        \<lparr>FirstTLV_hello := [\<lparr>typeTLV = 6, lengthTLV = 6, valueTLV = [2, 0, 0, 0, 0, 2]\<rparr>]\<rparr>))) []) sample_peer = Inl NilDereference"
proof -
  have "recvHello (frame_slice (buildEthernetFrame l1_multicast [2, 0, 0, 0, 0, 1]
      (serializeIsisHelloPDU ((buildL1HelloPDU [1, 2, 3, 4, 5, 6])
        \<lparr>FirstTLV_hello := [\<lparr>typeTLV = 6, lengthTLV = 6, valueTLV = [2, 0, 0, 0, 0, 2]\<rparr>]\<rparr>))) []) =
    Inr (Some (\<lparr>Header_hello = zero_pdu_header,
      LanHelloHeader = (read_hello_header (replicate 20 0))\<lparr>SourceSystemID := [1, 2, 3, 4, 5, 6]\<rparr>,
      FirstTLV_hello = [\<lparr>typeTLV = 6, lengthTLV = 6, valueTLV = [2, 0, 0, 0, 0, 2]\<rparr>]\<rparr>, [2, 0, 0, 0, 0, 1]))"
    by code_simp
  moreover have "systemIDToString [1, 2, 3, 4, 5, 6] \<noteq> ''1111.1111.1112''" by code_simp
  ultimately show ?thesis
    by (subst isisHelloRecv_panics_iff [OF update_inv_sample_peer]) (simp_all add: sample_peer_def sample_intf_def)
qed



text \<open>
  A node without a system ID takes part in the protocol all the same.  Its sending goroutine stays
  silent, as intended, but its receiving goroutine does not look at the configuration: a hello without TLVs
  from anyone moves the adjacency to INIT and is answered with a hello whose source system ID is all
  zeros.
\<close>

lemma unconfigured_node_answers:
  assumes "i < length (interfaces n)" and "sid n = ''''" and "length (getMac (name (interfaces n ! i))) = 6"
    and "recvHello raw = Inr (Some (pdu, mac))" and "FirstTLV_hello pdu = []"
  shows "isisHelloSend_step getMac i n = Inr [] \<and>
    (\<exists>n' h answer. isisHelloRecv_step getMac i raw n = Inr (n', [h]) \<and>
      state (adj (interfaces n' ! i)) = (if state (adj (interfaces n ! i)) = ''UP'' then ''UP'' else ''INIT'') \<and>
      recvHello (frame_slice h []) = Inr (Some (answer, getMac (name (interfaces n ! i)))) \<and>
      SourceSystemID (LanHelloHeader answer) = replicate 6 0 \<and>
      map valueTLV (FirstTLV_hello answer) = [mac, valueTLV (getInterfaceTLV (interfaces n ! i))])"
proof -
  let ?n' = "set_adj i adj_init n"
  let ?tlv = "\<lparr>typeTLV = 6, lengthTLV = 6, valueTLV = mac\<rparr>"
  from recvHello_lengths [OF assms(4)] have "systemIDToString (SourceSystemID (LanHelloHeader pdu)) \<noteq> sid n" "wf_tlv ?tlv"
    by (auto simp: assms(2) systemIDToString_def wf_tlv_def)
  moreover have "systemIDToBytes '''' = replicate 6 0" by code_simp
  moreover obtain answer where
    "recvHello (frame_slice (sendHello getMac (interfaces ?n' ! i) '''' (Some ?tlv)) []) =
      Inr (Some (answer, getMac (name (interfaces ?n' ! i))))"
    "SourceSystemID (LanHelloHeader answer) = systemIDToBytes ''''"
    "FirstTLV_hello answer = [?tlv, getInterfaceTLV (interfaces ?n' ! i)]"
    using recvHello_sendHello [of getMac "interfaces ?n' ! i" "Some ?tlv" "''''" "[]"] assms(1,3) calculation(2) by auto
  ultimately show ?thesis
    using recv_first_hello [OF assms(1,4,5)] assms(1,2)
    by (simp add: isisHelloSend_step_def adj_init_def getInterfaceTLV_def Let_def)
qed

end
