(* ===== verification/Dijkstra.thy ===== *)
theory Dijkstra
  imports Prelude
begin

text \<open>
  The specification of the decision process and the argument that a label-setting computation meets
  it, apart from the code: walks that leave the local system over one of its links and follow links of
  the link-state database without returning to the local system, the least cost of such a walk, and
  the invariant of settled and tentative labels that ends in the least costs.

  The locale \<open>link_state_graph\<close> is the interface to the decision process: its links, the set of
  systems they name and the bounds on their costs.  It is interpreted on the code's data in
  \<open>Decision\<close>.
\<close>

section \<open>Walks and least costs\<close>

text \<open>
  \<open>seed h v d\<close>: the local system reaches \<open>v\<close> directly over its own link \<open>h\<close> at cost \<open>d\<close>;
  \<open>edge u v w\<close>: system \<open>u\<close> advertises the neighbour \<open>v\<close> at cost \<open>w\<close>.
\<close>

inductive walk ::
  "('h \<Rightarrow> 'v \<Rightarrow> nat \<Rightarrow> bool) \<Rightarrow> ('v \<Rightarrow> 'v \<Rightarrow> nat \<Rightarrow> bool) \<Rightarrow> 'v \<Rightarrow> 'h \<Rightarrow> 'v \<Rightarrow> nat \<Rightarrow> bool"
  for seed edge src where
  start: "seed h v d \<Longrightarrow> walk seed edge src h v d"
| extend: "walk seed edge src h u d \<Longrightarrow> edge u v w \<Longrightarrow> v \<noteq> src \<Longrightarrow> walk seed edge src h v (d + w)"

definition shortest ::
  "('h \<Rightarrow> 'v \<Rightarrow> nat \<Rightarrow> bool) \<Rightarrow> ('v \<Rightarrow> 'v \<Rightarrow> nat \<Rightarrow> bool) \<Rightarrow> 'v \<Rightarrow> 'v \<Rightarrow> nat \<Rightarrow> bool" where
  "shortest seed edge src v d \<longleftrightarrow>
     (\<exists>h. walk seed edge src h v d) \<and> (\<forall>h d'. walk seed edge src h v d' \<longrightarrow> d \<le> d')"

lemma shortest_unique: "shortest seed edge src v d \<Longrightarrow> shortest seed edge src v d' \<Longrightarrow> d = d'"
  unfolding shortest_def by (meson le_antisym)

lemma shortest_exists: "walk seed edge src h v d \<Longrightarrow> \<exists>d'. shortest seed edge src v d'"
proof -
  assume "walk seed edge src h v d"
  then have "\<exists>d h. walk seed edge src h v d" by blast
  from LeastI_ex [OF this] Least_le [of "\<lambda>d. \<exists>h. walk seed edge src h v d"] show ?thesis
    unfolding shortest_def by blast
qed

text \<open>Relaxing a link of a settled system with label \<open>c\<close>: settled labels do not change.\<close>

definition relax :: "nat \<Rightarrow> 'v \<Rightarrow> nat \<Rightarrow> 'v set \<Rightarrow> ('v \<rightharpoonup> nat) \<Rightarrow> ('v \<rightharpoonup> nat)" where
  "relax c v w S L = (if v \<in> S then L
     else L(v \<mapsto> (case L v of None \<Rightarrow> c + w | Some d \<Rightarrow> min d (c + w))))"

section \<open>The label-setting invariant\<close>

locale link_state_graph =
  fixes seed :: "'h \<Rightarrow> 'v \<Rightarrow> nat \<Rightarrow> bool" and edge :: "'v \<Rightarrow> 'v \<Rightarrow> nat \<Rightarrow> bool" and src :: 'v
    and U :: "'v set" and D W :: nat
  assumes finite_U: "finite U"
    and seed_law: "seed h v d \<Longrightarrow> v \<noteq> src \<and> v \<in> U \<and> d \<le> D"
    and edge_law: "edge u v w \<Longrightarrow> v \<in> U \<and> w \<le> W"
begin

text \<open>
  \<open>L\<close> holds the labels, \<open>S\<close> the settled and \<open>F\<close> the tentative systems (a system reached over
  parallel links may be in both).  The links \<open>todo\<close> of the system \<open>b\<close> that was settled last
  need not be relaxed yet.
\<close>

definition labels_inv :: "('v \<rightharpoonup> nat) \<Rightarrow> 'v set \<Rightarrow> 'v set \<Rightarrow> 'v \<Rightarrow> ('v \<times> nat) set \<Rightarrow> bool" where
  "labels_inv L S F b todo \<longleftrightarrow>
     dom L = S \<union> F \<and> src \<in> S \<and> src \<notin> F \<and> S \<union> F \<subseteq> insert src U \<and>
     (\<forall>v d. L v = Some d \<longrightarrow> d \<le> D + W * card (dom L)) \<and>
     (\<forall>v d. L v = Some d \<longrightarrow> v \<noteq> src \<longrightarrow> (\<exists>h. walk seed edge src h v d)) \<and>
     (\<forall>h v d. seed h v d \<longrightarrow> (\<exists>d' \<le> d. L v = Some d')) \<and>
     (\<forall>u \<in> S. \<forall>v \<in> F. the (L u) \<le> the (L v)) \<and>
     (\<forall>u \<in> S. u \<noteq> src \<longrightarrow> (\<forall>v w. edge u v w \<longrightarrow> v \<noteq> src \<longrightarrow>
        u = b \<and> (v, w) \<in> todo \<or> (\<exists>d \<le> the (L u) + w. L v = Some d)))"

lemma labels_invD:
  assumes "labels_inv L S F b todo"
  shows "dom L = S \<union> F" "src \<in> S" "src \<notin> F" "S \<union> F \<subseteq> insert src U"
    and "L v = Some d \<Longrightarrow> d \<le> D + W * card (dom L)"
    and "L v = Some d \<Longrightarrow> v \<noteq> src \<Longrightarrow> \<exists>h. walk seed edge src h v d"
    and "seed h v d \<Longrightarrow> \<exists>d' \<le> d. L v = Some d'"
    and "u \<in> S \<Longrightarrow> v \<in> F \<Longrightarrow> the (L u) \<le> the (L v)"
    and "u \<in> S \<Longrightarrow> u \<noteq> src \<Longrightarrow> edge u v w \<Longrightarrow> v \<noteq> src \<Longrightarrow>
      u = b \<and> (v, w) \<in> todo \<or> (\<exists>d \<le> the (L u) + w. L v = Some d)"
  using assms unfolding labels_inv_def by blast+

lemma finite_labels: "labels_inv L S F b todo \<Longrightarrow> finite (dom L) \<and> card (dom L) \<le> card U + 1"
proof -
  assume inv: "labels_inv L S F b todo"
  have sub: "dom L \<subseteq> insert src U" using labels_invD(1,4) [OF inv] by simp
  have "card (dom L) \<le> card (insert src U)" by (rule card_mono [OF _ sub]) (simp add: finite_U)
  also have "\<dots> \<le> card U + 1" using finite_U by (simp add: card_insert_if)
  finally show ?thesis using finite_subset [OF sub] finite_U by simp
qed

text \<open>No label, and no sum of a label and a cost, gets past the bound.\<close>

lemma label_bound:
  assumes "labels_inv L S F b todo" "L u = Some c" "w \<le> W"
  shows "c + w \<le> D + W * (card U + 2)"
proof -
  have "c \<le> D + W * card (dom L)" by (rule labels_invD(5) [OF assms(1,2)])
  also have "\<dots> \<le> D + W * (card U + 1)" 
    using finite_labels [OF assms(1)] by (intro add_left_mono mult_le_mono2) simp
  finally show ?thesis using assms(3) by simp
qed

text \<open>Settling a tentative system with the least label.\<close>

lemma labels_settle:
  assumes "labels_inv L S F b0 {}" "b \<in> F" "\<forall>x \<in> F. the (L b) \<le> the (L x)" "F' \<subseteq> F" "F \<subseteq> insert b F'"
  shows "labels_inv L (insert b S) F' b {(v, w). edge b v w}"
    and "\<forall>u \<in> insert b S. the (L u) \<le> the (L b)"
proof -
  note inv = labels_invD [OF assms(1)]
  show "\<forall>u \<in> insert b S. the (L u) \<le> the (L b)" using inv(8) assms(2) by blast
  have "dom L = insert b S \<union> F'" using inv(1) assms(2,4,5) by blast
  moreover have "\<forall>u \<in> insert b S. \<forall>v \<in> F'. the (L u) \<le> the (L v)" using inv(8) assms(3,4) by blast
  moreover have "insert b S \<union> F' \<subseteq> insert src U" using inv(4) assms(2,4) by blast
  moreover have "\<forall>u \<in> insert b S. u \<noteq> src \<longrightarrow> (\<forall>v w. edge u v w \<longrightarrow> v \<noteq> src \<longrightarrow>
      u = b \<and> (v, w) \<in> {(v, w). edge b v w} \<or> (\<exists>d \<le> the (L u) + w. L v = Some d))" using inv(9) by blast
  moreover have "src \<in> insert b S" "src \<notin> F'" using inv(2,3) assms(4) by blast+
  ultimately show "labels_inv L (insert b S) F' b {(v, w). edge b v w}"
    using assms(1) unfolding labels_inv_def by (elim conjE) (intro conjI; assumption)
qed

text \<open>Relaxing one of the links that are left.\<close>

lemma labels_relax_settled:
  assumes inv: "labels_inv L S F b (insert (v, w) todo)" and b: "b \<in> S" and v: "v \<in> S"
    and max: "\<forall>u \<in> S. the (L u) \<le> the (L b)"
  shows "labels_inv L S F b todo"
proof -
  obtain d where d: "L v = Some d" using labels_invD(1) [OF inv] v by blast
  with max v have "\<exists>d \<le> the (L b) + w. L v = Some d" by fastforce
  with inv show ?thesis unfolding labels_inv_def by blast
qed

lemma labels_relax_tentative:
  assumes inv: "labels_inv L S F b (insert (v, w) todo)" and b: "b \<in> S" "b \<noteq> src" and v: "v \<notin> S"
    and e: "edge b v w" and max: "\<forall>u \<in> S. the (L u) \<le> the (L b)"
  defines "m \<equiv> (case L v of None \<Rightarrow> the (L b) + w | Some d \<Rightarrow> min d (the (L b) + w))"
  shows "labels_inv (L(v \<mapsto> m)) S (insert v F) b todo"
proof -
  note iD = labels_invD [OF inv]
  from iD(1) b(1) obtain c where c: "L b = Some c" by blast
  have vs: "v \<noteq> src" "v \<in> U" and w: "w \<le> W" using v iD(2) edge_law [OF e] by blast+
  have fin: "finite (dom L)" using finite_labels [OF inv] by simp
  have old: "m \<le> d" if "L v = Some d" for d using that by (simp add: m_def)
  have mc: "m \<le> c + w" using c by (simp add: m_def split: option.split)
  have cm: "c \<le> m"
  proof (cases "L v")
    case None
    then show ?thesis using c by (simp add: m_def)
  next
    case (Some d)
    then have "v \<in> F" using iD(1) v by blast
    from iD(8) [OF b(1) this] Some c show ?thesis by (simp add: m_def)
  qed
  have wk: "\<exists>h. walk seed edge src h v m"
  proof (cases "L v = Some m")
    case True
    then show ?thesis by (rule iD(6)) (rule vs(1))
  next
    case False
    then have "m = c + w" using c by (auto simp: m_def min_def split: option.splits if_splits)
    with iD(6) [OF c b(2)] e vs(1) show ?thesis by (auto intro: walk.extend)
  qed
  have grow: "D + W * card (dom L) \<le> D + W * card (dom (L(v \<mapsto> m)))"
    using fin by (intro add_left_mono mult_le_mono2 card_mono) auto
  have bound: "m \<le> D + W * card (dom (L(v \<mapsto> m)))"
  proof (cases "L v")
    case None
    then have "card (dom (L(v \<mapsto> m))) = card (dom L) + 1" using fin by (simp add: domIff)
    with iD(5) [OF c] mc w show ?thesis by simp
  next
    case (Some d)
    from old [OF Some] iD(5) [OF Some] grow show ?thesis by (rule order_trans [OF order_trans])
  qed
  have val: "the ((L(v \<mapsto> m)) u) = the (L u)" if "u \<in> S" for u using that v by auto
  show ?thesis unfolding labels_inv_def
  proof (intro conjI allI impI ballI)
    fix x d assume "(L(v \<mapsto> m)) x = Some d"
    then show "d \<le> D + W * card (dom (L(v \<mapsto> m)))"
      using bound order_trans [OF iD(5) grow, of x d] by (cases "x = v") simp_all
  next
    fix x d assume "(L(v \<mapsto> m)) x = Some d" "x \<noteq> src"
    then show "\<exists>h. walk seed edge src h x d" using wk iD(6) [of x d] by (auto split: if_splits)
  next
    fix h x d assume "seed h x d"
    then show "\<exists>d' \<le> d. (L(v \<mapsto> m)) x = Some d'" using iD(7) [of h x d] old by fastforce
  next
    fix u x assume "u \<in> S" "x \<in> insert v F"
    then show "the ((L(v \<mapsto> m)) u) \<le> the ((L(v \<mapsto> m)) x)"
      using val iD(8) [of u x] max c cm by fastforce
  next
    fix u x z assume "u \<in> S" "u \<noteq> src" "edge u x z" "x \<noteq> src"
    then show "u = b \<and> (x, z) \<in> todo \<or> (\<exists>d \<le> the ((L(v \<mapsto> m)) u) + z. (L(v \<mapsto> m)) x = Some d)"
      using iD(9) [of u x z] val old mc c by (auto split: if_splits)
  qed (use iD(1-4) v vs in auto)
qed

text \<open>The start: the local system settled at cost 0, every seed tentative at a label it allows.\<close>

lemma labels_init:
  assumes "dom L = insert src F" "src \<notin> F" "L src = Some 0"
    and "\<And>v d. L v = Some d \<Longrightarrow> v \<noteq> src \<Longrightarrow> \<exists>h. seed h v d"
    and "\<And>h v d. seed h v d \<Longrightarrow> \<exists>d' \<le> d. L v = Some d'"
  shows "labels_inv L {src} F b {}"
proof -
  have "F \<subseteq> U" using assms(1,2,4) seed_law by (fastforce simp: dom_def set_eq_iff)
  moreover have "d \<le> D + W * card (dom L)" if "L v = Some d" for v d
  proof (cases "v = src")
    case True
    with that assms(3) show ?thesis by simp
  next
    case False
    with assms(4) [OF that] seed_law show ?thesis by (meson trans_le_add1)
  qed
  moreover have "\<exists>h. walk seed edge src h v d" if "L v = Some d" "v \<noteq> src" for v d
    using assms(4) [OF that] by (blast intro: walk.start)
  ultimately show ?thesis using assms(1-3,5) unfolding labels_inv_def by auto
qed

text \<open>The end: nothing tentative is left, and the labels are the least costs.\<close>

lemma labels_final:
  assumes inv: "labels_inv L S {} b {}" and v: "v \<noteq> src"
  shows "L v = Some d \<longleftrightarrow> shortest seed edge src v d"
proof -
  have reach: "\<exists>d' \<le> d. L v = Some d'" if "walk seed edge src h v d" for h v d
    using that
  proof (induction rule: walk.induct)
    case (start h v d)
    then show ?case by (rule labels_invD(7) [OF inv])
  next
    case (extend h u d v w)
    then obtain d' where d': "d' \<le> d" "L u = Some d'" by blast
    then have "u \<in> S" using labels_invD(1) [OF inv] by blast
    moreover have "u \<noteq> src" using extend.hyps(1) by (cases rule: walk.cases) (use seed_law in auto)
    ultimately obtain e where "e \<le> d' + w" "L v = Some e"
      using labels_invD(9) [OF inv, of u v w] extend.hyps(2,3) d'(2) by auto
    with d'(1) show ?case by auto
  qed
  show ?thesis
  proof
    assume L: "L v = Some d"
    with labels_invD(6) [OF inv L v] reach show "shortest seed edge src v d" unfolding shortest_def by fastforce
  next
    assume s: "shortest seed edge src v d"
    then obtain h where "walk seed edge src h v d" by (auto simp: shortest_def)
    from reach [OF this] obtain d' where d': "d' \<le> d" "L v = Some d'" by blast
    with labels_invD(6) [OF inv d'(2) v] s show "L v = Some d" by (auto simp: shortest_def intro: le_antisym)
  qed
qed

end

end
