(* ===== verification/Spf.thy ===== *)
theory Spf
  imports Update Dijkstra
begin

text \<open>
  The shortest-path loop of the decision process (\<^verbatim>\<open>src/decision.go\<close>): its parts, its termination,
  and that it settles every system at its least cost (\<open>spf_loop_labels\<close>, by the invariant of
  \<open>Dijkstra\<close>, whose locale is interpreted here on the code's data).

  A \<^verbatim>\<open>Triple\<close> in \<^verbatim>\<open>tent\<close> or \<^verbatim>\<open>paths\<close> is held by exactly one of the two lists (moving the best candidate
  removes it from \<^verbatim>\<open>tent\<close>), so the lists hold the triples themselves.
\<close>

section \<open>The code\<close>

type_synonym lsp_node = "uint64 \<times> IsisLsp option"

text \<open>The type assertion \<^verbatim>\<open>node.data.(*IsisLsp)\<close>.\<close>

definition lsp_data :: "lsp_node \<Rightarrow> IsisLsp res" where
  "lsp_data nd = (case snd nd of None \<Rightarrow> Inl TypeAssertion | Some lsp \<Rightarrow> Inr lsp)"

definition lsp_system :: "IsisLsp \<Rightarrow> string" where
  "lsp_system lsp = systemIDToString (take 6 (LspID lsp))"

text \<open>The body of the loop of \<^verbatim>\<open>getAdjacencies\<close> for one LSP.\<close>

definition visit_lsp :: "Intf list \<Rightarrow> Triple \<Rightarrow> lsp_node \<Rightarrow> Triple list \<Rightarrow> Triple list res" where
  "visit_lsp intfs source nd trips = bind_res (lsp_data nd) (\<lambda>lsp.
     if systemID source = lsp_system lsp then
       bind_res (lookupNeighbors lsp) (\<lambda>neighbors.
         Inr (trips @ map (\<lambda>neighbor. \<lparr>systemID = systemID_nbr neighbor, distance = metric_nbr neighbor,
           adj_ref = getAdjacency intfs (systemID_nbr neighbor)\<rparr>) neighbors))
     else Inr trips)"

definition getAdjacencies :: "Intf list \<Rightarrow> Triple \<Rightarrow> lsp_node list \<Rightarrow> Triple list res" where
  "getAdjacencies intfs source unknown = fold_res (visit_lsp intfs source) unknown []"

definition checkInPaths :: "Triple \<Rightarrow> Triple list \<Rightarrow> bool" where
  "checkInPaths nbr paths = list_ex (\<lambda>path. systemID nbr = systemID path) paths"

definition addAdjToTent ::
  "uint32 \<Rightarrow> adj_ptr option \<Rightarrow> Triple \<Rightarrow> Triple list \<Rightarrow> Triple list \<Rightarrow> Triple list \<times> int" where
  "addAdjToTent currentDistance currentAdj neighbor tent paths =
     (if checkInPaths neighbor paths then (tent, 0)
      else if list_ex (\<lambda>system. systemID neighbor = systemID system) tent then
        (map (\<lambda>system.
           if systemID neighbor = systemID system \<and> distance neighbor + currentDistance < distance system
           then system\<lparr>distance := distance neighbor + currentDistance\<rparr> else system) tent, 0)
      else (tent @ [neighbor\<lparr>distance := distance neighbor + currentDistance, adj_ref := currentAdj\<rparr>], 1))"

text \<open>The scan for the own LSP: the initial paths and the index of the last match.\<close>

fun own_scan :: "string \<Rightarrow> nat \<Rightarrow> lsp_node list \<Rightarrow> Triple list \<times> nat option \<Rightarrow> (Triple list \<times> nat option) res" where
  "own_scan localSystemID i [] acc = Inr acc"
| "own_scan localSystemID i (nd # nodes) (paths, index) =
     bind_res (lsp_data nd) (\<lambda>lsp.
       if lsp_system lsp = localSystemID
       then own_scan localSystemID (i + 1) nodes
         (paths @ [\<lparr>systemID = localSystemID, distance = 0, adj_ref = None\<rparr>], Some i)
       else own_scan localSystemID (i + 1) nodes (paths, index))"

text \<open>\<^verbatim>\<open>tent\<close> at the start: a triple per adjacency that is up, which points to that adjacency.\<close>

definition initial_tent :: "Intf list \<Rightarrow> Triple list" where
  "initial_tent localInterfaces =
     concat (map (\<lambda>(i, intf). if state (adj intf) = ''UP''
       then [\<lparr>systemID = systemIDToString (neighborSystemID (adj intf)), distance = metric (adj intf),
              adj_ref = Some i\<rparr>]
       else []) (zip [0..<length localInterfaces] localInterfaces))"

text \<open>The search for the best candidate: the least distance below the maximum, and its first index.\<close>

fun best_candidate :: "nat \<Rightarrow> Triple list \<Rightarrow> uint32 \<times> nat option \<Rightarrow> uint32 \<times> nat option" where
  "best_candidate i [] best = best"
| "best_candidate i (candidate # tent) (minCostFromSource, bestPathIndex) =
     (if distance candidate < minCostFromSource then best_candidate (i + 1) tent (distance candidate, Some i)
      else best_candidate (i + 1) tent (minCostFromSource, bestPathIndex))"

text \<open>Adding the adjacencies of the best candidate, with the running size of \<^verbatim>\<open>tent\<close>.\<close>

definition add_all ::
  "uint32 \<Rightarrow> adj_ptr option \<Rightarrow> Triple list \<Rightarrow> Triple list \<Rightarrow> Triple list \<times> int \<Rightarrow> Triple list \<times> int" where
  "add_all cost nextHop paths adjs st =
     fold (\<lambda>nbr (tent, tentSize). case addAdjToTent cost nextHop nbr tent paths of
       (tent', added) \<Rightarrow> (tent', tentSize + added)) adjs st"

text \<open>\<^verbatim>\<open>append(xs[:j], xs[j+1:]...)\<close>.\<close>

definition remove_at :: "nat \<Rightarrow> 'a list \<Rightarrow> 'a list" where
  "remove_at j xs = take j xs @ drop (j + 1) xs"

text \<open>One iteration of the main loop: the new \<^verbatim>\<open>tent\<close>, \<^verbatim>\<open>tentSize\<close> and \<^verbatim>\<open>paths\<close>.\<close>

definition spf_step ::
  "Intf list \<Rightarrow> lsp_node list \<Rightarrow> Triple list \<Rightarrow> int \<Rightarrow> Triple list \<Rightarrow> (Triple list \<times> int \<times> Triple list) res" where
  "spf_step intfs unknown tent tentSize paths =
     (case best_candidate 0 tent (- 1, None) of
        (minCostFromSource, None) \<Rightarrow> Inl IndexOutOfRange
      | (minCostFromSource, Some bestPathIndex) \<Rightarrow>
          (let best = tent ! bestPathIndex;
               paths' = paths @ [best]
           in bind_res (getAdjacencies intfs best unknown) (\<lambda>bestAdjacencies.
                let (tent', tentSize') = add_all minCostFromSource (adj_ref best) paths' bestAdjacencies
                      (remove_at bestPathIndex tent, tentSize - 1)
                in Inr (tent', tentSize', paths'))))"

text \<open>
  The links the LSPs describe, and the systems they name.  The main loop ends because every iteration
  settles one candidate and every candidate that is added is one of these systems, not seen before.
\<close>

definition lsp_edge :: "lsp_node list \<Rightarrow> string \<Rightarrow> string \<Rightarrow> uint32 \<Rightarrow> bool" where
  "lsp_edge unknown u v w \<longleftrightarrow> (\<exists>nd \<in> set unknown. \<exists>lsp nbrs nbr. snd nd = Some lsp \<and> lsp_system lsp = u \<and>
     lookupNeighbors lsp = Inr nbrs \<and> nbr \<in> set nbrs \<and> systemID_nbr nbr = v \<and> metric_nbr nbr = w)"

definition named_systems :: "lsp_node list \<Rightarrow> string set" where
  "named_systems unknown = (\<Union>nd \<in> set unknown. case snd nd of None \<Rightarrow> {} | Some lsp \<Rightarrow>
     (case lookupNeighbors lsp of Inl e \<Rightarrow> {} | Inr nbrs \<Rightarrow> systemID_nbr ` set nbrs))"

abbreviation ids :: "Triple list \<Rightarrow> string set" where
  "ids ts \<equiv> systemID ` set ts"

definition spf_measure :: "lsp_node list \<Rightarrow> Triple list \<Rightarrow> Triple list \<Rightarrow> nat" where
  "spf_measure unknown tent paths = card (named_systems unknown - (ids tent \<union> ids paths)) + length tent"

lemma finite_named_systems [simp]: "finite (named_systems unknown)"
  by (auto simp: named_systems_def split: option.split sum.split)

lemma lsp_edge_named: "lsp_edge unknown u v w \<Longrightarrow> v \<in> named_systems unknown"
  by (force simp: lsp_edge_def named_systems_def)

lemma visit_lsp_edges:
  assumes "visit_lsp intfs source nd acc = Inr trips"
  shows "(\<exists>t \<in> set trips. systemID t = v \<and> distance t = w) \<longleftrightarrow>
    (\<exists>t \<in> set acc. systemID t = v \<and> distance t = w) \<or> lsp_edge [nd] (systemID source) v w"
proof -
  from assms obtain lsp where lsp: "snd nd = Some lsp"
    by (auto simp: visit_lsp_def res_simps lsp_data_def split: option.splits)
  show ?thesis
  proof (cases "systemID source = lsp_system lsp")
    case False
    with assms lsp show ?thesis by (auto simp: visit_lsp_def lsp_data_def lsp_edge_def)
  next
    case True
    with assms lsp obtain nbrs where nbrs: "lookupNeighbors lsp = Inr nbrs"
      by (auto simp: visit_lsp_def res_simps lsp_data_def)
    have trips: "trips = acc @ map (\<lambda>neighbor. \<lparr>systemID = systemID_nbr neighbor, distance = metric_nbr neighbor,
           adj_ref = getAdjacency intfs (systemID_nbr neighbor)\<rparr>) nbrs"
      using assms lsp True nbrs by (simp add: visit_lsp_def lsp_data_def)
    have "lsp_edge [nd] (systemID source) v w \<longleftrightarrow> (\<exists>nbr \<in> set nbrs. systemID_nbr nbr = v \<and> metric_nbr nbr = w)"
      using True lsp nbrs by (auto simp: lsp_edge_def)
    then show ?thesis by (auto simp: trips bex_Un)
  qed
qed

lemma lsp_edge_Cons: "lsp_edge (nd # unknown) u v w \<longleftrightarrow> lsp_edge [nd] u v w \<or> lsp_edge unknown u v w"
  by (auto simp: lsp_edge_def)

lemma getAdjacencies_acc:
  assumes "fold_res (visit_lsp intfs source) unknown acc = Inr adjs"
  shows "(\<exists>t \<in> set adjs. systemID t = v \<and> distance t = w) \<longleftrightarrow>
    (\<exists>t \<in> set acc. systemID t = v \<and> distance t = w) \<or> lsp_edge unknown (systemID source) v w"
  using assms
proof (induction unknown arbitrary: acc)
  case Nil
  then show ?case by (simp add: lsp_edge_def)
next
  case (Cons nd unknown)
  from Cons.prems obtain trips where trips: "visit_lsp intfs source nd acc = Inr trips"
    "fold_res (visit_lsp intfs source) unknown trips = Inr adjs" by (auto simp: res_simps)
  from Cons.IH [OF trips(2)] visit_lsp_edges [OF trips(1)] show ?case by (subst lsp_edge_Cons) blast
qed

lemma getAdjacencies_edges:
  assumes "getAdjacencies intfs source unknown = Inr adjs"
  shows "(\<exists>t \<in> set adjs. systemID t = v \<and> distance t = w) \<longleftrightarrow> lsp_edge unknown (systemID source) v w"
  using getAdjacencies_acc [OF assms [unfolded getAdjacencies_def], of v w] by simp

lemma getAdjacencies_named:
  "getAdjacencies intfs source unknown = Inr adjs \<Longrightarrow> ids adjs \<subseteq> named_systems unknown"
  using getAdjacencies_edges lsp_edge_named by blast

section \<open>The loop\<close>

lemma addAdjToTent_cases:
  obtains (settled) "systemID nbr \<in> ids paths" "addAdjToTent c h nbr tent paths = (tent, 0)"
  | (update) "systemID nbr \<notin> ids paths" "systemID nbr \<in> ids tent"
      "addAdjToTent c h nbr tent paths = (map (\<lambda>t. if systemID nbr = systemID t \<and> distance nbr + c < distance t
         then t\<lparr>distance := distance nbr + c\<rparr> else t) tent, 0)"
  | (new) "systemID nbr \<notin> ids paths" "systemID nbr \<notin> ids tent"
      "addAdjToTent c h nbr tent paths = (tent @ [nbr\<lparr>distance := distance nbr + c, adj_ref := h\<rparr>], 1)"
proof -
  have p: "checkInPaths nbr paths \<longleftrightarrow> systemID nbr \<in> ids paths"
    "list_ex (\<lambda>t. systemID nbr = systemID t) tent \<longleftrightarrow> systemID nbr \<in> ids tent"
    by (auto simp: checkInPaths_def list_ex_iff)
  show thesis
    by (cases "systemID nbr \<in> ids paths"; cases "systemID nbr \<in> ids tent")
      (rule that; simp add: addAdjToTent_def p)+
qed

lemma ids_addAdjToTent:
  "ids (fst (addAdjToTent c h nbr tent paths)) = (if systemID nbr \<in> ids paths then ids tent else insert (systemID nbr) (ids tent))"
proof (cases rule: addAdjToTent_cases [of nbr paths c h tent])
  case update
  have "ids (map (\<lambda>t. if systemID nbr = systemID t \<and> distance nbr + c < distance t
         then t\<lparr>distance := distance nbr + c\<rparr> else t) tent) = ids tent"
    unfolding set_map image_image by (intro image_cong) auto
  with update show ?thesis by (simp add: insert_absorb)
qed (auto)

lemma length_addAdjToTent:
  "length (fst (addAdjToTent c h nbr tent paths)) =
    (if systemID nbr \<in> ids paths \<union> ids tent then length tent else length tent + 1)"
  "snd (addAdjToTent c h nbr tent paths) = (if systemID nbr \<in> ids paths \<union> ids tent then 0 else 1)"
  by (cases rule: addAdjToTent_cases [of nbr paths c h tent]; simp)+

lemma add_all_simps [simp]:
  "add_all c h paths [] st = st"
  "add_all c h paths (nbr # adjs) (tent, sz) = add_all c h paths adjs
     (fst (addAdjToTent c h nbr tent paths), sz + snd (addAdjToTent c h nbr tent paths))"
  by (simp_all add: add_all_def case_prod_beta)

lemma spf_measure_add:
  assumes "systemID nbr \<in> named_systems unknown"
  shows "spf_measure unknown (fst (addAdjToTent c h nbr tent paths)) paths \<le> spf_measure unknown tent paths"
proof (cases "systemID nbr \<in> ids paths \<union> ids tent")
  case True
  then show ?thesis
    by (auto simp: spf_measure_def ids_addAdjToTent length_addAdjToTent insert_absorb)
next
  case False
  let ?S = "named_systems unknown - (ids tent \<union> ids paths)"
  have "named_systems unknown - (insert (systemID nbr) (ids tent) \<union> ids paths) = ?S - {systemID nbr}" by auto
  moreover have "card (?S - {systemID nbr}) < card ?S" using assms False by (intro card_Diff1_less) auto
  ultimately show ?thesis using False by (simp add: spf_measure_def ids_addAdjToTent length_addAdjToTent)
qed

lemma spf_measure_add_all:
  "ids adjs \<subseteq> named_systems unknown \<Longrightarrow> add_all c h paths adjs (tent, sz) = (tent', sz') \<Longrightarrow>
    spf_measure unknown tent' paths \<le> spf_measure unknown tent paths"
proof (induction adjs arbitrary: tent sz)
  case (Cons nbr adjs)
  with spf_measure_add [of nbr unknown c h tent paths] show ?case by fastforce
qed simp

lemma best_candidate_index:
  "best_candidate i tent (m, b) = (m', Some j) \<Longrightarrow> (b = Some j \<and> m' = m) \<or> (i \<le> j \<and> j < i + length tent \<and> m' = distance (tent ! (j - i)))"
proof (induction tent arbitrary: i m b)
  case (Cons t tent)
  from Cons.prems Cons.IH [of "i + 1" "distance t" "Some i"] Cons.IH [of "i + 1" m b] show ?case
    by (auto simp: nth_Cons' split: if_splits)
qed simp

lemma remove_at_props:
  assumes "j < length xs"
  shows "insert (xs ! j) (set (remove_at j xs)) = set xs" "length (remove_at j xs) = length xs - 1"
proof -
  from id_take_nth_drop [OF assms] have "set xs = set (take j xs @ xs ! j # drop (Suc j) xs)" by simp
  then show "insert (xs ! j) (set (remove_at j xs)) = set xs" by (simp add: remove_at_def)
  show "length (remove_at j xs) = length xs - 1" using assms by (simp add: remove_at_def)
qed

lemma spf_stepE:
  assumes "spf_step intfs unknown tent sz paths = Inr (tent', sz', paths')"
  obtains m j adjs where "best_candidate 0 tent (- 1, None) = (m, Some j)" "paths' = paths @ [tent ! j]"
    "getAdjacencies intfs (tent ! j) unknown = Inr adjs"
    "add_all m (adj_ref (tent ! j)) paths' adjs (remove_at j tent, sz - 1) = (tent', sz')"
proof -
  obtain m b where best: "best_candidate 0 tent (- 1, None) = (m, b)" by fastforce
  with assms obtain j where b: "b = Some j" by (cases b) (auto simp: spf_step_def)
  with assms best obtain adjs where adjs: "getAdjacencies intfs (tent ! j) unknown = Inr adjs"
    by (auto simp: spf_step_def Let_def res_simps)
  obtain t z where "add_all m (adj_ref (tent ! j)) (paths @ [tent ! j]) adjs (remove_at j tent, sz - 1) = (t, z)"
    by fastforce
  with assms best b adjs show thesis by (intro that [of m j adjs]) (auto simp: spf_step_def Let_def)
qed

lemma spf_step_measure:
  assumes "spf_step intfs unknown tent sz paths = Inr (tent', sz', paths')"
  shows "spf_measure unknown tent' paths' < spf_measure unknown tent paths"
proof -
  from assms obtain m j adjs where
    best: "best_candidate 0 tent (- 1, None) = (m, Some j)" "paths' = paths @ [tent ! j]"
    and adjs: "getAdjacencies intfs (tent ! j) unknown = Inr adjs"
    and add: "add_all m (adj_ref (tent ! j)) paths' adjs (remove_at j tent, sz - 1) = (tent', sz')"
    by (rule spf_stepE)
  from best_candidate_index [OF best(1)] have j: "j < length tent" by simp
  have "ids (remove_at j tent) \<union> ids paths' = systemID ` (insert (tent ! j) (set (remove_at j tent)) \<union> set paths)"
    by (auto simp: best(2))
  then have "ids (remove_at j tent) \<union> ids paths' = ids tent \<union> ids paths"
    by (simp only: remove_at_props(1) [OF j] image_Un)
  then have "spf_measure unknown (remove_at j tent) paths' < spf_measure unknown tent paths"
    using j by (simp add: spf_measure_def remove_at_props(2))
  with spf_measure_add_all [OF getAdjacencies_named [OF adjs] add] show ?thesis by simp
qed

function spf_loop :: "Intf list \<Rightarrow> lsp_node list \<Rightarrow> Triple list \<Rightarrow> int \<Rightarrow> Triple list \<Rightarrow> Triple list res" where
  "spf_loop intfs unknown tent tentSize paths =
     (if tentSize > 0 then
        bind_res (spf_step intfs unknown tent tentSize paths) (\<lambda>(tent', tentSize', paths').
          spf_loop intfs unknown tent' tentSize' paths')
      else Inr paths)"
  by pat_completeness auto

termination spf_loop
  by (relation "measure (\<lambda>(intfs, unknown, tent, tentSize, paths). spf_measure unknown tent paths)")
    (auto simp: spf_step_measure)

declare spf_loop.simps [simp del]

section \<open>The graph of the code's data\<close>

definition seed_link :: "Triple list \<Rightarrow> string \<Rightarrow> adj_ptr option \<Rightarrow> string \<Rightarrow> nat \<Rightarrow> bool" where
  "seed_link seeds src h v d \<longleftrightarrow>
     (\<exists>t \<in> set seeds. adj_ref t = h \<and> systemID t = v \<and> unat (distance t) = d) \<and> v \<noteq> src"

definition edge_link :: "lsp_node list \<Rightarrow> string \<Rightarrow> string \<Rightarrow> nat \<Rightarrow> bool" where
  "edge_link unknown u v d \<longleftrightarrow> (\<exists>w. lsp_edge unknown u v w \<and> unat w = d)"

definition systems :: "Triple list \<Rightarrow> lsp_node list \<Rightarrow> string set" where
  "systems seeds unknown = ids seeds \<union> named_systems unknown"

definition link_costs :: "lsp_node list \<Rightarrow> nat list" where
  "link_costs unknown = concat (map (\<lambda>nd. case snd nd of None \<Rightarrow> [] | Some lsp \<Rightarrow>
     (case lookupNeighbors lsp of Inl e \<Rightarrow> [] | Inr nbrs \<Rightarrow> map (\<lambda>nbr. unat (metric_nbr nbr)) nbrs)) unknown)"

definition max_cost :: "nat list \<Rightarrow> nat" where
  "max_cost ds = foldr max ds 0"

lemma max_cost_ge: "d \<in> set ds \<Longrightarrow> d \<le> max_cost ds"
  by (induction ds) (auto simp: max_cost_def)

lemma link_costs_edge: "lsp_edge unknown u v w \<Longrightarrow> unat w \<in> set (link_costs unknown)"
  by (force simp: lsp_edge_def link_costs_def)

interpretation spf: link_state_graph "seed_link seeds src" "edge_link unknown" src "systems seeds unknown"
    "max_cost (map (\<lambda>t. unat (distance t)) seeds)" "max_cost (link_costs unknown)"
  for seeds src unknown
proof
  show "finite (systems seeds unknown)" by (simp add: systems_def)
  show "v \<noteq> src \<and> v \<in> systems seeds unknown \<and> d \<le> max_cost (map (\<lambda>t. unat (distance t)) seeds)"
    if "seed_link seeds src h v d" for h v d
    using that by (auto simp: seed_link_def systems_def intro!: max_cost_ge)
  show "v \<in> systems seeds unknown \<and> w \<le> max_cost (link_costs unknown)" if "edge_link unknown u v w" for u v w
    using that by (auto simp: edge_link_def systems_def intro: lsp_edge_named max_cost_ge link_costs_edge)
qed

section \<open>The loop settles least costs\<close>

text \<open>The triples of both lists carry the labels \<open>L\<close>.\<close>

definition labelled :: "Triple list \<Rightarrow> (string \<rightharpoonup> nat) \<Rightarrow> bool" where
  "labelled ts L \<longleftrightarrow> (\<forall>t \<in> set ts. L (systemID t) = Some (unat (distance t))) \<and> dom L = ids ts"

lemma labelledD: "labelled ts L \<Longrightarrow> t \<in> set ts \<Longrightarrow> L (systemID t) = Some (unat (distance t))"
  by (simp add: labelled_def)

lemma labelled_set: "set ts = set ts' \<Longrightarrow> labelled ts L = labelled ts' L"
  by (simp add: labelled_def)

text \<open>Adding one adjacency to \<^verbatim>\<open>tent\<close> relaxes its link.\<close>

lemma addAdjToTent_relax:
  assumes lab: "labelled (tent @ paths) L" and wrap: "unat c + unat (distance nbr) < 2 ^ 32"
  shows "labelled (fst (addAdjToTent c h nbr tent paths) @ paths)
    (relax (unat c) (systemID nbr) (unat (distance nbr)) (ids paths) L)"
proof -
  have sum: "unat (distance nbr + c) = unat c + unat (distance nbr)"
    using wrap unat_add_lem [of c "distance nbr"] by (simp add: add.commute [of "distance nbr"])
  show ?thesis
  proof (cases rule: addAdjToTent_cases [of nbr paths c h tent])
    case settled
    with lab show ?thesis by (simp add: relax_def)
  next
    case new
    have "systemID nbr \<notin> dom L" using lab new(1,2) unfolding labelled_def set_append image_Un by blast
    then have none: "L (systemID nbr) = None" by (simp add: domIff)
    have "systemID t \<noteq> systemID nbr" if "t \<in> set (tent @ paths)" for t
      using imageI [OF that, of systemID] new(1,2) unfolding set_append image_Un by (metis UnE)
    then have "\<forall>t \<in> set (tent @ paths). (L(systemID nbr \<mapsto> unat c + unat (distance nbr))) (systemID t) = Some (unat (distance t))"
      using lab by (simp add: labelled_def)
    moreover have "dom L = ids (tent @ paths)" using lab by (simp add: labelled_def)
    ultimately show ?thesis using new none sum by (simp add: labelled_def relax_def ball_Un image_Un)
  next
    case update
    let ?f = "\<lambda>t. if systemID nbr = systemID t \<and> distance nbr + c < distance t
         then t\<lparr>distance := distance nbr + c\<rparr> else t"
    let ?L = "relax (unat c) (systemID nbr) (unat (distance nbr)) (ids paths) L"
    obtain d where d: "L (systemID nbr) = Some d" using lab update(2) by (auto simp: labelled_def)
    have "?L (systemID (?f t)) = Some (unat (distance (?f t)))" if "t \<in> set tent" for t
    proof (cases "systemID nbr = systemID t")
      case True
      then have "d = unat (distance t)" using labelledD [OF lab, of t] that d by simp
      with True d update(1) sum show ?thesis by (auto simp: relax_def word_less_nat_alt)
    next
      case False
      with labelledD [OF lab, of t] that show ?thesis by (auto simp: relax_def)
    qed
    moreover have "?L (systemID t) = Some (unat (distance t))" if "t \<in> set paths" for t
    proof -
      have "systemID t \<noteq> systemID nbr" using imageI [OF that, of systemID] update(1) by metis
      then show ?thesis using labelledD [OF lab, of t] that by (simp add: relax_def)
    qed
    moreover have "dom ?L = ids (map ?f tent @ paths)"
    proof -
      have "ids (map ?f tent) = ids tent"
        unfolding set_map image_image by (intro image_cong) auto
      then show ?thesis using lab update(2) d by (auto simp: relax_def labelled_def image_Un insert_absorb)
    qed
    ultimately show ?thesis unfolding update(3) labelled_def fst_conv set_append set_map by blast
  qed
qed

lemma add_all_size:
  "add_all c h paths adjs (tent, sz) = (tent', sz') \<Longrightarrow> sz' - int (length tent') = sz - int (length tent)"
proof (induction adjs arbitrary: tent sz)
  case (Cons nbr adjs)
  from Cons.IH [of "fst (addAdjToTent c h nbr tent paths)" "sz + snd (addAdjToTent c h nbr tent paths)"] Cons.prems
  show ?case by (simp add: length_addAdjToTent split: if_splits)
qed simp

lemma add_all_invariant:
  assumes "add_all c h paths adjs (tent, sz) = (tent', sz')" "J tent"
    and "\<And>nbr tent. nbr \<in> set adjs \<Longrightarrow> J tent \<Longrightarrow> J (fst (addAdjToTent c h nbr tent paths))"
  shows "J tent'"
  using assms
proof (induction adjs arbitrary: tent sz)
  case (Cons nbr adjs)
  from Cons.IH [OF Cons.prems(1) [unfolded add_all_simps]] Cons.prems(2,3) show ?case by simp
qed simp

text \<open>The bound that keeps every distance below the maximum of a \<^verbatim>\<open>uint32\<close>.\<close>

definition no_overflow :: "Triple list \<Rightarrow> lsp_node list \<Rightarrow> bool" where
  "no_overflow seeds unknown \<longleftrightarrow>
     max_cost (map (\<lambda>t. unat (distance t)) seeds) + max_cost (link_costs unknown) * (card (systems seeds unknown) + 2)
       < 2 ^ 32 - 1"

lemma labels_relax_link:
  assumes inv: "spf.labels_inv seeds src unknown L S F b (insert (v, w) todo)" and b: "b \<in> S" "b \<noteq> src"
    and e: "edge_link unknown b v w" and max: "\<forall>u \<in> S. the (L u) \<le> the (L b)"
  shows "spf.labels_inv seeds src unknown (relax (the (L b)) v w S L) S (if v \<in> S then F else insert v F) b todo"
  using spf.labels_relax_settled [OF inv b(1) _ max] spf.labels_relax_tentative [OF inv b _ e max]
  by (simp add: relax_def)

lemma add_all_labels:
  assumes "labelled (tent @ paths) L"
    and "spf.labels_inv seeds src unknown L (ids paths) (ids tent) b
      ((\<lambda>t. (systemID t, unat (distance t))) ` set adjs)"
    and "b \<in> ids paths" "b \<noteq> src" "L b = Some (unat c)" "\<forall>u \<in> ids paths. the (L u) \<le> the (L b)"
    and "\<forall>t \<in> set adjs. edge_link unknown b (systemID t) (unat (distance t))"
    and "no_overflow seeds unknown" "add_all c h paths adjs (tent, sz) = (tent', sz')"
  shows "\<exists>L'. labelled (tent' @ paths) L' \<and> spf.labels_inv seeds src unknown L' (ids paths) (ids tent') b {}"
  using assms
proof (induction adjs arbitrary: tent sz L)
  case Nil
  then show ?case by auto
next
  case (Cons nbr adjs)
  let ?v = "systemID nbr" and ?w = "unat (distance nbr)"
  let ?tent = "fst (addAdjToTent c h nbr tent paths)"
  let ?L = "relax (unat c) ?v ?w (ids paths) L"
  have e: "edge_link unknown b ?v ?w" using Cons.prems(7) by simp
  have "unat c + ?w \<le> max_cost (map (\<lambda>t. unat (distance t)) seeds) +
      max_cost (link_costs unknown) * (card (systems seeds unknown) + 2)"
    by (rule spf.label_bound [OF Cons.prems(2,5)]) (use spf.edge_law [OF e] in blast)
  with Cons.prems(8) have "unat c + ?w < 2 ^ 32" by (simp add: no_overflow_def)
  from addAdjToTent_relax [OF Cons.prems(1) this] have lab: "labelled (?tent @ paths) ?L" .
  have inv: "spf.labels_inv seeds src unknown ?L (ids paths) (ids ?tent) b
      ((\<lambda>t. (systemID t, unat (distance t))) ` set adjs)"
    using labels_relax_link [OF _ Cons.prems(3,4) e Cons.prems(6),
        of seeds "ids tent" "(\<lambda>t. (systemID t, unat (distance t))) ` set adjs"] Cons.prems(2,5)
    by (simp add: ids_addAdjToTent)
  have same: "?L u = L u" if "u \<in> ids paths" for u using that by (cases "u = ?v") (simp_all add: relax_def)
  show ?case
    by (rule Cons.IH [OF lab inv Cons.prems(3,4)]) (use Cons.prems same in simp_all)
qed

lemma unat_max_uint32: "unat (- 1 :: uint32) = 2 ^ 32 - 1"
  by (simp add: unsigned_minus_1_eq_mask mask_eq_exp_minus_1)

lemma best_candidate_Some: "best_candidate i tent (m, Some j) = (m', b') \<Longrightarrow> b' \<noteq> None"
  by (induction tent arbitrary: i m j) (auto split: if_splits)

lemma best_candidate_least:
  "best_candidate i tent (m, b) = (m', b') \<Longrightarrow> m' \<le> m \<and> (\<forall>t \<in> set tent. m' \<le> distance t) \<and> (b' = None \<longrightarrow> m' = m)"
proof (induction tent arbitrary: i m b)
  case (Cons t tent)
  show ?case
  proof (cases "distance t < m")
    case True
    with Cons.prems have rec: "best_candidate (i + 1) tent (distance t, Some i) = (m', b')" by simp
    from Cons.IH [OF rec] best_candidate_Some [OF rec] True show ?thesis by auto
  next
    case False
    with Cons.prems Cons.IH [of "i + 1" m b] show ?thesis by (auto simp: not_less intro: order_trans)
  qed
qed simp

text \<open>LSPs the loop can read: the type assertion and the neighbour lookup succeed.\<close>

definition readable :: "lsp_node \<Rightarrow> bool" where
  "readable nd \<longleftrightarrow> (\<exists>lsp nbrs. snd nd = Some lsp \<and> lookupNeighbors lsp = Inr nbrs)"

lemma getAdjacencies_ok:
  assumes "\<forall>nd \<in> set unknown. readable nd"
  shows "\<exists>adjs. getAdjacencies intfs source unknown = Inr adjs"
proof -
  have "\<exists>s'. fold_res (visit_lsp intfs source) unknown [] = Inr s' \<and> True"
    by (rule fold_res_invariant) (use assms in \<open>auto simp: visit_lsp_def lsp_data_def readable_def\<close>)
  then show ?thesis by (simp add: getAdjacencies_def)
qed

text \<open>The search finds a candidate: no distance has reached the maximum.\<close>

lemma best_candidate_found:
  assumes "tent \<noteq> []" "\<forall>t \<in> set tent. unat (distance t) < 2 ^ 32 - 1"
  obtains j where "j < length tent" "best_candidate 0 tent (- 1, None) = (distance (tent ! j), Some j)"
    "\<forall>t \<in> set tent. distance (tent ! j) \<le> distance t"
proof -
  obtain m b where best: "best_candidate 0 tent (- 1, None) = (m, b)" by fastforce
  note least = best_candidate_least [OF best]
  have below: "distance t < - 1" if "t \<in> set tent" for t
    using bspec [OF assms(2) that] by (simp add: word_less_nat_alt unat_max_uint32)
  show thesis
  proof (cases b)
    case None
    with least below [of "hd tent"] assms(1) have False by (auto simp: not_less [symmetric])
    then show ?thesis ..
  next
    case (Some j)
    from best_candidate_index [OF best [unfolded Some]] best Some least show ?thesis by (intro that [of j]) auto
  qed
qed

lemma spf_best:
  assumes lab: "labelled (tent @ paths) L" and inv: "spf.labels_inv seeds src unknown L (ids paths) (ids tent) b0 {}"
    and ne: "tent \<noteq> []" and nov: "no_overflow seeds unknown"
  obtains j where "j < length tent" "best_candidate 0 tent (- 1, None) = (distance (tent ! j), Some j)"
    "\<forall>t \<in> set tent. distance (tent ! j) \<le> distance t"
proof (rule best_candidate_found [OF ne])
  show "\<forall>t \<in> set tent. unat (distance t) < 2 ^ 32 - 1"
  proof
    fix t assume "t \<in> set tent"
    with labelledD [OF lab, of t] have "L (systemID t) = Some (unat (distance t))" by simp
    from spf.label_bound [OF inv this, of 0] nov show "unat (distance t) < 2 ^ 32 - 1" by (simp add: no_overflow_def)
  qed
qed

lemma spf_step_labels:
  assumes lab: "labelled (tent @ paths) L" and inv: "spf.labels_inv seeds src unknown L (ids paths) (ids tent) b0 {}"
    and ne: "tent \<noteq> []" and rd: "\<forall>nd \<in> set unknown. readable nd" and nov: "no_overflow seeds unknown"
  obtains tent' best L' where "best \<in> set tent"
    "spf_step intfs unknown tent (int (length tent)) paths = Inr (tent', int (length tent'), paths @ [best])"
    "labelled (tent' @ paths @ [best]) L'"
    "spf.labels_inv seeds src unknown L' (ids (paths @ [best])) (ids tent') (systemID best) {}"
proof -
  obtain j where j: "j < length tent" "best_candidate 0 tent (- 1, None) = (distance (tent ! j), Some j)"
    "\<forall>t \<in> set tent. distance (tent ! j) \<le> distance t" by (rule spf_best [OF lab inv ne nov])
  let ?b = "tent ! j" and ?paths = "paths @ [tent ! j]"
  have bt: "?b \<in> set tent" using j(1) by simp
  obtain adjs where adjs: "getAdjacencies intfs ?b unknown = Inr adjs" using getAdjacencies_ok [OF rd] by blast
  obtain tent' sz' where
    add: "add_all (distance ?b) (adj_ref ?b) ?paths adjs (remove_at j tent, int (length tent) - 1) = (tent', sz')"
    by fastforce
  have sz: "sz' = int (length tent')" using add_all_size [OF add] j(1) remove_at_props(2) [OF j(1)] by simp
  have step: "spf_step intfs unknown tent (int (length tent)) paths = Inr (tent', int (length tent'), ?paths)"
    using j(2) adjs add sz by (simp add: spf_step_def Let_def)
  have "set (remove_at j tent @ ?paths) = set (tent @ paths)" using remove_at_props(1) [OF j(1)] by auto
  then have lab': "labelled (remove_at j tent @ ?paths) L" using lab labelled_set by blast
  have Lb: "L (systemID ?b) = Some (unat (distance ?b))" using labelledD [OF lab, of ?b] bt by simp
  have min: "\<forall>x \<in> ids tent. the (L (systemID ?b)) \<le> the (L x)"
    using labelledD [OF lab] j(3) Lb by (auto simp: word_le_nat_alt)
  have sub: "ids (remove_at j tent) \<subseteq> ids tent" "ids tent \<subseteq> insert (systemID ?b) (ids (remove_at j tent))"
    unfolding image_insert [symmetric] remove_at_props(1) [OF j(1)]
    using remove_at_props(1) [OF j(1)] by blast+
  note edges = getAdjacencies_edges [OF adjs]
  have todo: "{(v, w). edge_link unknown (systemID ?b) v w} = (\<lambda>t. (systemID t, unat (distance t))) ` set adjs"
    using edges by (force simp: edge_link_def)
  have links: "\<forall>t \<in> set adjs. edge_link unknown (systemID ?b) (systemID t) (unat (distance t))"
    using edges by (auto simp: edge_link_def)
  have paths: "ids ?paths = insert (systemID ?b) (ids paths)" by simp
  note settle = spf.labels_settle [OF inv imageI [OF bt] min sub, folded paths, unfolded todo]
  have "systemID ?b \<noteq> src" using spf.labels_invD(3) [OF inv] bt by blast
  from add_all_labels [OF lab' settle(1) _ this Lb settle(2) links nov add]
  obtain L' where "labelled (tent' @ ?paths) L'" "spf.labels_inv seeds src unknown L' (ids ?paths) (ids tent') (systemID ?b) {}"
    by auto
  with that bt step show thesis by blast
qed

text \<open>The loop runs to its end without a panic.\<close>

lemma spf_loop_labels:
  assumes "labelled (tent @ paths) L" "spf.labels_inv seeds src unknown L (ids paths) (ids tent) b {}"
    and "\<forall>nd \<in> set unknown. readable nd" "no_overflow seeds unknown"
  shows "\<exists>paths' L' b'. spf_loop intfs unknown tent (int (length tent)) paths = Inr (paths @ paths') \<and>
    labelled (paths @ paths') L' \<and> spf.labels_inv seeds src unknown L' (ids (paths @ paths')) {} b' {}"
  using assms(1,2)
proof (induction "spf_measure unknown tent paths" arbitrary: tent paths L b rule: less_induct)
  case less
  show ?case
  proof (cases "tent = []")
    case True
    with less.prems show ?thesis by (intro exI [of _ "[]"]) (auto simp: spf_loop.simps)
  next
    case False
    from spf_step_labels [OF less.prems False assms(3,4)] obtain tent' best L' where
      step: "spf_step intfs unknown tent (int (length tent)) paths = Inr (tent', int (length tent'), paths @ [best])"
      and lab: "labelled (tent' @ paths @ [best]) L'"
      and inv: "spf.labels_inv seeds src unknown L' (ids (paths @ [best])) (ids tent') (systemID best) {}" by metis
    from less.hyps [OF spf_step_measure [OF step] lab inv] obtain paths' L'' b' where
      "spf_loop intfs unknown tent' (int (length tent')) (paths @ [best]) = Inr ((paths @ [best]) @ paths')"
      "labelled ((paths @ [best]) @ paths') L''"
      "spf.labels_inv seeds src unknown L'' (ids ((paths @ [best]) @ paths')) {} b' {}" by blast
    with step False show ?thesis by (subst spf_loop.simps) (intro exI [of _ "best # paths'"] exI, auto)
  qed
qed

section \<open>Bounded costs\<close>

text \<open>
  With links of at most a cost \<open>c\<close> no distance exceeds \<open>c\<close> per iteration, so the loop returns as long as
  this stays below the maximum, whatever the graph is.
\<close>

lemma spf_step_bounded:
  assumes ne: "tent \<noteq> []" and rd: "\<forall>nd \<in> set unknown. readable nd"
    and cost: "\<forall>u v w. lsp_edge unknown u v w \<longrightarrow> unat w \<le> c"
    and B: "\<forall>t \<in> set tent. unat (distance t) \<le> B" "B + c < 2 ^ 32 - 1"
  obtains tent' paths' where "spf_step intfs unknown tent (int (length tent)) paths = Inr (tent', int (length tent'), paths')"
    "\<forall>t \<in> set tent'. unat (distance t) \<le> B + c"
proof -
  have "\<forall>t \<in> set tent. unat (distance t) < 2 ^ 32 - 1" using B by fastforce
  then obtain j where j: "j < length tent" "best_candidate 0 tent (- 1, None) = (distance (tent ! j), Some j)"
    by (rule best_candidate_found [OF ne])
  let ?b = "tent ! j" and ?paths = "paths @ [tent ! j]"
  obtain adjs where adjs: "getAdjacencies intfs ?b unknown = Inr adjs" using getAdjacencies_ok [OF rd] by blast
  obtain tent' sz' where
    add: "add_all (distance ?b) (adj_ref ?b) ?paths adjs (remove_at j tent, int (length tent) - 1) = (tent', sz')"
    by fastforce
  have sz: "sz' = int (length tent')" using add_all_size [OF add] j(1) remove_at_props(2) [OF j(1)] by simp
  have "\<forall>t \<in> set tent'. unat (distance t) \<le> B + c"
  proof (rule add_all_invariant [OF add, where J = "\<lambda>tent. \<forall>t \<in> set tent. unat (distance t) \<le> B + c"])
    show "\<forall>t \<in> set (remove_at j tent). unat (distance t) \<le> B + c"
      using remove_at_props(1) [OF j(1)] B(1) by (metis insert_iff trans_le_add1)
    fix nbr :: Triple and tent'' :: "Triple list"
    assume nbr: "nbr \<in> set adjs" and ok: "\<forall>t \<in> set tent''. unat (distance t) \<le> B + c"
    have "unat (distance nbr) \<le> c" using getAdjacencies_edges [OF adjs] nbr cost by blast
    moreover have "unat (distance ?b) \<le> B" using B(1) j(1) by simp
    ultimately have "unat (distance nbr + distance ?b) \<le> B + c"
      using B(2) unat_add_lem [of "distance nbr" "distance ?b"] by simp
    with ok show "\<forall>t \<in> set (fst (addAdjToTent (distance ?b) (adj_ref ?b) nbr tent'' ?paths)). unat (distance t) \<le> B + c"
      by (cases rule: addAdjToTent_cases [of nbr ?paths "distance ?b" "adj_ref ?b" tent'']) auto
  qed
  with that j(2) adjs add sz show thesis by (simp add: spf_step_def Let_def)
qed

lemma spf_loop_returns:
  assumes rd: "\<forall>nd \<in> set unknown. readable nd" and cost: "\<forall>u v w. lsp_edge unknown u v w \<longrightarrow> unat w \<le> c"
    and "\<forall>t \<in> set tent. unat (distance t) \<le> B" "B + c * spf_measure unknown tent paths < 2 ^ 32 - 1"
  shows "\<exists>result. spf_loop intfs unknown tent (int (length tent)) paths = Inr result"
  using assms(3,4)
proof (induction "spf_measure unknown tent paths" arbitrary: tent paths B rule: less_induct)
  case less
  show ?case
  proof (cases "tent = []")
    case True
    then show ?thesis by (simp add: spf_loop.simps)
  next
    case False
    then have "0 < spf_measure unknown tent paths" by (simp add: spf_measure_def)
    then have "c \<le> c * spf_measure unknown tent paths" by simp
    with less.prems(2) have "B + c < 2 ^ 32 - 1" by linarith
    from spf_step_bounded [OF False rd cost less.prems(1) this] obtain tent' paths' where
      step: "spf_step intfs unknown tent (int (length tent)) paths = Inr (tent', int (length tent'), paths')"
      and bound: "\<forall>t \<in> set tent'. unat (distance t) \<le> B + c" by blast
    note meas = spf_step_measure [OF step]
    then have "c * Suc (spf_measure unknown tent' paths') \<le> c * spf_measure unknown tent paths" by (intro mult_le_mono2) simp
    with less.prems(2) have "B + c + c * spf_measure unknown tent' paths' < 2 ^ 32 - 1" unfolding mult_Suc_right by linarith
    from less.hyps [OF meas bound this] step False show ?thesis by (subst spf_loop.simps) auto
  qed
qed

section \<open>Termination\<close>

lemma spf_run_measure:
  assumes "\<And>i. i < k \<Longrightarrow> spf_step intfs unknown (tents i) (sizes i) (ps i) =
      Inr (tents (Suc i), sizes (Suc i), ps (Suc i))"
  shows "k + spf_measure unknown (tents k) (ps k) \<le> spf_measure unknown (tents 0) (ps 0)"
  using assms
proof (induction k)
  case (Suc k)
  then have "k + spf_measure unknown (tents k) (ps k) \<le> spf_measure unknown (tents 0) (ps 0)" by simp
  moreover have "spf_measure unknown (tents (Suc k)) (ps (Suc k)) < spf_measure unknown (tents k) (ps k)"
    by (rule spf_step_measure [OF Suc.prems [of k]]) simp
  ultimately show ?case by simp
qed simp

text \<open>
  C13: the shortest-path loop terminates, whatever the database and the adjacencies are (LSPs with forged
  or contradictory links, costs that overflow).  No run of its iterations is longer than the number of
  candidates it starts with plus the number of systems that the LSPs name as neighbours and that are in
  neither list.
\<close>

theorem spf_steps_bounded:
  assumes "\<And>i. i < k \<Longrightarrow> spf_step intfs unknown (tents i) (sizes i) (ps i) =
      Inr (tents (Suc i), sizes (Suc i), ps (Suc i))"
  shows "k \<le> length (tents 0) + card (named_systems unknown - (ids (tents 0) \<union> ids (ps 0)))"
  using spf_run_measure [where k = k and tents = tents and sizes = sizes and ps = ps, OF assms] by (simp add: spf_measure_def)

theorem spf_steps_bounded_witness:
  "spf_step [] [] [\<lparr>systemID = ''1111.1111.1112'', distance = 10, adj_ref = Some 0\<rparr>] 1 [] =
     Inr ([], 0, [\<lparr>systemID = ''1111.1111.1112'', distance = 10, adj_ref = Some 0\<rparr>]) \<and>
   (1 :: nat) \<le> 1 + card (named_systems [] - {''1111.1111.1112''})"
proof -
  let ?t = "\<lparr>systemID = ''1111.1111.1112'', distance = 10, adj_ref = Some 0\<rparr> :: Triple"
  have step: "spf_step [] [] [?t] 1 [] = Inr ([], 0, [?t])"
    by (simp add: spf_step_def getAdjacencies_def remove_at_def)
  then show ?thesis
    using spf_steps_bounded [of 1 "[]" "[]" "\<lambda>i. if i = 0 then [?t] else []" "\<lambda>i. if i = 0 then 1 else 0"
        "\<lambda>i. if i = 0 then [] else [?t]"] by simp
qed

end
