(* ===== verification/Decision.thy ===== *)
theory Decision
  imports Spf
begin

text \<open>
  The decision process (\<^verbatim>\<open>src/decision.go\<close>) around the shortest-path loop: the scan for the own LSP,
  the topology database and the routes.  What \<^verbatim>\<open>netlink.RouteAdd\<close> does with a request is outside of the
  model: the result of \<open>computeSPF\<close> lists the requests in order.
\<close>

section \<open>The code\<close>

type_synonym route_request = "IPNet \<times> bytes"

text \<open>
  \<^verbatim>\<open>installRouteFromPath\<close>: the requests made for the prefixes of the system at the end of the path.
  The adjacency of the path is a pointer into the interface table.
\<close>

definition installRouteFromPath :: "IsisLsp avl \<Rightarrow> Intf list \<Rightarrow> Triple \<Rightarrow> route_request list res" where
  "installRouteFromPath updateDB intfs path =
     bind_res (getDirectlyConnectedPrefixes updateDB (systemID path)) (\<lambda>prefixes.
       case adj_ref path of
         None \<Rightarrow> Inr []
       | Some p \<Rightarrow> bind_res (adj_deref intfs p) (\<lambda>a.
           case neighborIP a of
             None \<Rightarrow> Inr []
           | Some nh \<Rightarrow> Inr (map (\<lambda>pfx. (pfx, nh)) prefixes)))"

text \<open>The final loop over the paths: the topology database and the requests so far.\<close>

definition store_path :: "node \<Rightarrow> Triple \<Rightarrow> Triple avl \<times> route_request list \<Rightarrow> (Triple avl \<times> route_request list) res" where
  "store_path n path st = (case st of (topo, reqs) \<Rightarrow>
     bind_res (AvlInsert topo (systemIDToKey (systemID path)) (Some path) True) (\<lambda>topo'.
       if systemID path \<noteq> sid n then
         bind_res (installRouteFromPath (UpdateDB n) (interfaces n) path) (\<lambda>rs. Inr (topo', reqs @ rs))
       else Inr (topo', reqs)))"

definition computeSPF :: "string \<Rightarrow> node \<Rightarrow> (node \<times> route_request list) res" where
  "computeSPF localSystemID n =
     (let unknown = AvlGetAll (UpdateDB n);
          tent = initial_tent (interfaces n)
      in bind_res (own_scan localSystemID 0 unknown ([], None)) (\<lambda>(paths, localSystemIDIndex).
           case localSystemIDIndex of
             None \<Rightarrow> Inr (n, [])
           | Some i \<Rightarrow>
               bind_res (spf_loop (interfaces n) (remove_at i unknown) tent (int (length tent)) paths) (\<lambda>paths'.
                 bind_res (fold_res (store_path n) paths' (TopoDB n, [])) (\<lambda>(topo, reqs).
                   Inr (n\<lparr>TopoDB := topo\<rparr>, reqs)))))"

text \<open>One event on the \<^verbatim>\<open>triggerSPF\<close> channel.\<close>

definition isisDecision_step :: "bool \<Rightarrow> node \<Rightarrow> (node \<times> route_request list) res" where
  "isisDecision_step spf n = (if spf then computeSPF (sid n) n else Inr (n, []))"

section \<open>What goes in\<close>

lemma set_initial_tent:
  "t \<in> set (initial_tent intfs) \<longleftrightarrow> (\<exists>i < length intfs. state (adj (intfs ! i)) = ''UP'' \<and>
     t = \<lparr>systemID = systemIDToString (neighborSystemID (adj (intfs ! i))), distance = metric (adj (intfs ! i)),
          adj_ref = Some i\<rparr>)"
  by (force simp: initial_tent_def set_zip)

text \<open>The scan finds the own LSP exactly when there is one.\<close>

lemma own_scan_result:
  assumes "\<forall>nd \<in> set nodes. snd nd \<noteq> None"
  shows "\<exists>k index'. own_scan src i nodes (paths, index) =
      Inr (paths @ replicate k \<lparr>systemID = src, distance = 0, adj_ref = None\<rparr>, index') \<and>
    (if \<exists>nd \<in> set nodes. \<exists>lsp. snd nd = Some lsp \<and> lsp_system lsp = src
     then 0 < k \<and> (\<exists>j lsp. index' = Some (i + j) \<and> j < length nodes \<and> snd (nodes ! j) = Some lsp \<and> lsp_system lsp = src)
     else k = 0 \<and> index' = index)"
  using assms
proof (induction nodes arbitrary: i paths index)
  case (Cons nd nodes)
  then obtain lsp where lsp: "snd nd = Some lsp" by auto
  show ?case
  proof (cases "lsp_system lsp = src")
    case False
    with Cons.IH [of "i + 1" paths index] Cons.prems lsp show ?thesis
      by (fastforce simp: lsp_data_def nth_Cons' split: if_splits)
  next
    case True
    let ?own = "\<lparr>systemID = src, distance = 0, adj_ref = None\<rparr>"
    from Cons.IH [of "i + 1" "paths @ [?own]" "Some i"] Cons.prems obtain k index' where
      rec: "own_scan src (i + 1) nodes (paths @ [?own], Some i) = Inr ((paths @ [?own]) @ replicate k ?own, index')"
      "index' = Some i \<or> (\<exists>j lsp. index' = Some (i + 1 + j) \<and> j < length nodes \<and> snd (nodes ! j) = Some lsp \<and> lsp_system lsp = src)"
      by (auto split: if_splits)
    have "\<exists>j lsp. index' = Some (i + j) \<and> j < length (nd # nodes) \<and> snd ((nd # nodes) ! j) = Some lsp \<and> lsp_system lsp = src"
      using rec(2)
    proof
      assume "index' = Some i"
      with lsp True show ?thesis by (intro exI [of _ 0]) auto
    next
      assume "\<exists>j lsp. index' = Some (i + 1 + j) \<and> j < length nodes \<and> snd (nodes ! j) = Some lsp \<and> lsp_system lsp = src"
      then obtain j where "index' = Some (i + 1 + j)" "j < length nodes" "\<exists>lsp. snd (nodes ! j) = Some lsp \<and> lsp_system lsp = src"
        by blast
      then show ?thesis by (intro exI [of _ "Suc j"]) auto
    qed
    with rec(1) lsp True show ?thesis by (intro exI [of _ "Suc k"] exI [of _ index']) (auto simp: lsp_data_def)
  qed
qed simp

text \<open>All systems of the computation are written in the canonical form, so their keys identify them.\<close>

definition sid_string :: "string \<Rightarrow> bool" where
  "sid_string s \<longleftrightarrow> (\<exists>b. length b = 6 \<and> s = systemIDToString b)"

lemma sid_string_key_inject:
  assumes "sid_string u" "sid_string v" "systemIDToKey u = systemIDToKey v"
  shows "u = v"
proof -
  from assms(1,2) obtain a b where ab: "length a = 6" "u = systemIDToString a" "length b = 6" "v = systemIDToString b"
    by (auto simp: sid_string_def)
  from assms(3) have "systemIDToLspID u = systemIDToLspID v"
    by (simp add: systemIDToKey_LspID lspIDToKey_inject)
  with ab show ?thesis by (simp add: systemIDToLspID_inject systemIDToBytes_systemIDToString)
qed

lemma getNeighbors_loop_strings:
  "getNeighbors_loop k tlv cur = Inr nbrs \<Longrightarrow> nbr \<in> set nbrs \<Longrightarrow> sid_string (systemID_nbr nbr)"
proof (induction k arbitrary: cur nbrs)
  case (Suc k)
  then obtain s m rest where "value_slice tlv (cur + 4) (cur + 4 + 6) = Inr s"
    "getNeighbors_loop k tlv (cur + 4 + 7) = Inr rest"
    "nbrs = \<lparr>systemID_nbr = systemIDToString s, metric_nbr = BigEndian_Uint32 m\<rparr> # rest"
    by (auto simp: res_simps)
  moreover then have "length s = 6" by (auto simp: value_slice_def reslice_def split: if_splits)
  ultimately show ?case using Suc by (auto simp: sid_string_def)
qed simp

lemma named_systems_strings: "v \<in> named_systems unknown \<Longrightarrow> sid_string v"
proof -
  have "lookupNeighbors_loop tlvs = Inr nbrs \<Longrightarrow> nbr \<in> set nbrs \<Longrightarrow> sid_string (systemID_nbr nbr)" for tlvs nbrs nbr
    by (induction tlvs) (auto simp: getNeighbors_def split: if_splits intro: getNeighbors_loop_strings)
  then have "lookupNeighbors lsp = Inr nbrs \<Longrightarrow> nbr \<in> set nbrs \<Longrightarrow> sid_string (systemID_nbr nbr)" for lsp nbrs nbr
    unfolding lookupNeighbors_def by blast
  moreover assume "v \<in> named_systems unknown"
  then obtain nd :: lsp_node where "v \<in> (case snd nd of None \<Rightarrow> {} | Some lsp \<Rightarrow>
     (case lookupNeighbors lsp of Inl e \<Rightarrow> {} | Inr nbrs \<Rightarrow> systemID_nbr ` set nbrs))"
    unfolding named_systems_def by blast
  ultimately show ?thesis by (cases "snd nd"; cases "lookupNeighbors (the (snd nd))") auto
qed

section \<open>The specification of a run\<close>

text \<open>
  The links of a node: its adjacencies that are up, and the links the LSPs of its database describe.
  \<open>spf_walk n h v d\<close>: over the adjacency \<open>h\<close> the node can reach the system \<open>v\<close> at cost \<open>d\<close>.
\<close>

definition spf_seed :: "node \<Rightarrow> adj_ptr option \<Rightarrow> string \<Rightarrow> nat \<Rightarrow> bool" where
  "spf_seed n = seed_link (initial_tent (interfaces n)) (sid n)"

definition spf_walk :: "node \<Rightarrow> adj_ptr option \<Rightarrow> string \<Rightarrow> nat \<Rightarrow> bool" where
  "spf_walk n = walk (spf_seed n) (edge_link (AvlGetAll (UpdateDB n))) (sid n)"

definition spf_shortest :: "node \<Rightarrow> string \<Rightarrow> nat \<Rightarrow> bool" where
  "spf_shortest n = shortest (spf_seed n) (edge_link (AvlGetAll (UpdateDB n))) (sid n)"

text \<open>
  What a run relies on: the invariants of the databases, LSPs whose TLVs are complete, no adjacency
  with the node itself, and costs that cannot overflow.
\<close>

definition lsps_full :: "node \<Rightarrow> bool" where
  "lsps_full n \<longleftrightarrow> (\<forall>k lsp. db_abs (UpdateDB n) k = Some lsp \<longrightarrow> lsp_full lsp)"

definition no_self_adjacency :: "node \<Rightarrow> bool" where
  "no_self_adjacency n \<longleftrightarrow> list_all (\<lambda>intf. state (adj intf) = ''UP'' \<longrightarrow>
     systemIDToString (neighborSystemID (adj intf)) \<noteq> sid n) (interfaces n)"

definition has_own_lsp :: "node \<Rightarrow> bool" where
  "has_own_lsp n \<longleftrightarrow> list_ex (\<lambda>nd. case snd nd of None \<Rightarrow> False | Some lsp \<Rightarrow> lsp_system lsp = sid n) (AvlGetAll (UpdateDB n))"

definition spf_ready :: "node \<Rightarrow> bool" where
  "spf_ready n \<longleftrightarrow> update_inv n \<and> avl_inv (TopoDB n) \<and> lsps_full n \<and> no_self_adjacency n \<and>
     no_overflow (initial_tent (interfaces n)) (AvlGetAll (UpdateDB n))"

lemma spf_walk_start: "spf_seed n h v d \<Longrightarrow> spf_walk n h v d"
  unfolding spf_walk_def by (rule walk.start)

lemma spf_walk_extend:
  "spf_walk n h u d \<Longrightarrow> edge_link (AvlGetAll (UpdateDB n)) u v w \<Longrightarrow> v \<noteq> sid n \<Longrightarrow> spf_walk n h v (d + w)"
  unfolding spf_walk_def by (rule walk.extend)

lemma database_nodes:
  assumes "update_inv n" "lsps_full n" "nd \<in> set (AvlGetAll (UpdateDB n))"
  obtains lsp where "snd nd = Some lsp" "stored_ok lsp" "lsp_full lsp"
proof -
  obtain k d where nd: "nd = (k, d)" by fastforce
  with assms(1,3) obtain lsp where lsp: "d = Some lsp" "stored_ok lsp"
    unfolding update_inv_def updatedb_inv_def by blast
  with assms(1,3) nd have "db_abs (UpdateDB n) k = Some lsp"
    by (simp add: update_inv_def updatedb_inv_def db_abs_def avl.get_eq_Some)
  with assms(2) nd lsp show thesis by (intro that [of lsp]) (auto simp: lsps_full_def)
qed

lemma lsp_system_string: "stored_ok lsp \<Longrightarrow> sid_string (lsp_system lsp)"
  unfolding sid_string_def lsp_system_def stored_ok_def by (intro exI [of _ "take 6 (LspID lsp)"]) simp

lemma database_readable:
  assumes "update_inv n" "lsps_full n" "nd \<in> set (AvlGetAll (UpdateDB n))"
  shows "readable nd" "snd nd \<noteq> None"
  using lookupNeighbors_total by (auto intro: database_nodes [OF assms] simp: readable_def)

lemma up_adjacency:
  assumes "update_inv n" "i < length (interfaces n)" "state (adj (interfaces n ! i)) = ''UP''"
  shows "length (neighborSystemID (adj (interfaces n ! i))) = 6 \<and> metric (adj (interfaces n ! i)) = 10 \<and>
    (\<exists>ip. neighborIP (adj (interfaces n ! i)) = Some ip)"
proof -
  from assms(1) nth_mem [OF assms(2)] have "adj_inv (adj (interfaces n ! i))"
    unfolding update_inv_def flooding_inv_def intf_inv_def by blast
  with assms(3) show ?thesis by (auto simp: adj_inv_def)
qed

lemma seed_facts:
  assumes "update_inv n" "t \<in> set (initial_tent (interfaces n))"
  shows "distance t = 10 \<and> sid_string (systemID t)"
proof -
  from assms(2) obtain i where "i < length (interfaces n)" "state (adj (interfaces n ! i)) = ''UP''"
    "systemID t = systemIDToString (neighborSystemID (adj (interfaces n ! i)))" "distance t = metric (adj (interfaces n ! i))"
    by (auto simp: set_initial_tent)
  with up_adjacency [OF assms(1)] show ?thesis by (auto simp: sid_string_def)
qed

text \<open>The own LSP does not matter: no walk returns to the local system.\<close>

lemma walk_not_src:
  assumes "walk seed edge src h v d" "\<And>h v d. seed h v d \<Longrightarrow> v \<noteq> src"
  shows "v \<noteq> src"
  using assms(1) by (cases rule: walk.cases) (use assms(2) in auto)

lemma walk_mono:
  assumes "walk seed edge src h v d" "\<And>h v d. seed h v d \<Longrightarrow> v \<noteq> src"
    and "\<And>u v w. u \<noteq> src \<Longrightarrow> edge u v w \<Longrightarrow> edge' u v w"
  shows "walk seed edge' src h v d"
  using assms(1)
proof (induction rule: walk.induct)
  case (start h v d)
  then show ?case by (rule walk.start)
next
  case (extend h u d v w)
  have "u \<noteq> src" by (rule walk_not_src [OF extend.hyps(1)]) (rule assms(2))
  with extend assms(3) show ?case by (blast intro: walk.extend)
qed

lemma edge_link_remove_own:
  assumes "i < length nodes" "snd (nodes ! i) = Some own" "lsp_system own = src" "u \<noteq> src"
  shows "edge_link (remove_at i nodes) u v w = edge_link nodes u v w"
proof -
  have "set nodes = insert (nodes ! i) (set (remove_at i nodes))" using remove_at_props(1) [OF assms(1)] by simp
  then show ?thesis using assms(2-4) unfolding edge_link_def lsp_edge_def by auto
qed

lemma spf_walk_remove_own:
  assumes "i < length (AvlGetAll (UpdateDB n))" "snd (AvlGetAll (UpdateDB n) ! i) = Some own" "lsp_system own = sid n"
  shows "walk (spf_seed n) (edge_link (remove_at i (AvlGetAll (UpdateDB n)))) (sid n) = spf_walk n"
proof -
  have seed: "spf_seed n h v d \<Longrightarrow> v \<noteq> sid n" for h v d by (simp add: spf_seed_def seed_link_def)
  show ?thesis
    by (intro ext iffI; unfold spf_walk_def; erule walk_mono) (auto simp: edge_link_remove_own [OF assms] seed)
qed

lemma no_overflow_subset:
  assumes "no_overflow seeds nodes" "set nodes' \<subseteq> set nodes"
  shows "no_overflow seeds nodes'"
proof -
  have "set (link_costs nodes') \<subseteq> set (link_costs nodes)" using assms(2) by (auto simp: link_costs_def)
  moreover have "ds' = [] \<or> max_cost ds' \<in> set ds'" for ds' by (induction ds') (auto simp: max_cost_def max_def)
  ultimately have m: "max_cost (link_costs nodes') \<le> max_cost (link_costs nodes)"
    by (metis (no_types, lifting) foldr.simps(1) id_apply max_cost_def max_cost_ge subsetD zero_le)
  have "systems seeds nodes' \<subseteq> systems seeds nodes" using assms(2) by (auto simp: systems_def named_systems_def)
  then have "card (systems seeds nodes') \<le> card (systems seeds nodes)" by (intro card_mono) (simp add: systems_def)
  then have "max_cost (link_costs nodes') * (card (systems seeds nodes') + 2) \<le>
      max_cost (link_costs nodes) * (card (systems seeds nodes) + 2)" using m by (intro mult_le_mono) auto
  with assms(1) show ?thesis by (simp add: no_overflow_def)
qed

section \<open>A run of the loop on the node's data\<close>

lemma spf_loop_invariant:
  assumes "spf_loop intfs unknown tent sz paths = Inr result" "I tent sz paths"
    and "\<And>tent sz paths tent' sz' paths'. spf_step intfs unknown tent sz paths = Inr (tent', sz', paths') \<Longrightarrow>
      0 < sz \<Longrightarrow> I tent sz paths \<Longrightarrow> I tent' sz' paths'"
  shows "\<exists>tent' sz'. I tent' sz' result \<and> \<not> 0 < sz'"
  using assms(1,2)
proof (induction "spf_measure unknown tent paths" arbitrary: tent sz paths rule: less_induct)
  case less
  show ?case
  proof (cases "0 < sz")
    case False
    with less.prems show ?thesis by (auto simp: spf_loop.simps)
  next
    case True
    with less.prems(1) obtain tent' sz' paths' where step: "spf_step intfs unknown tent sz paths = Inr (tent', sz', paths')"
      and rest: "spf_loop intfs unknown tent' sz' paths' = Inr result"
      by (subst (asm) spf_loop.simps) (auto simp: res_simps)
    from less.hyps [OF spf_step_measure [OF step] rest assms(3) [OF step True less.prems(2)]] show ?thesis .
  qed
qed

text \<open>Next hops are handed on from the local adjacencies.\<close>

lemma spf_step_refs:
  assumes "spf_step intfs unknown tent sz paths = Inr (tent', sz', paths')" "\<forall>t \<in> set tent \<union> set paths. adj_ref t \<in> A"
  shows "\<forall>t \<in> set tent' \<union> set paths'. adj_ref t \<in> A"
proof -
  from assms(1) obtain m j adjs where best: "best_candidate 0 tent (- 1, None) = (m, Some j)" "paths' = paths @ [tent ! j]"
    and add: "add_all m (adj_ref (tent ! j)) paths' adjs (remove_at j tent, sz - 1) = (tent', sz')" by (rule spf_stepE)
  from best_candidate_index [OF best(1)] have j: "j < length tent" by simp
  have rest: "set (remove_at j tent) \<subseteq> set tent" using remove_at_props(1) [OF j] by blast
  have "\<forall>t \<in> set tent'. adj_ref t \<in> A"
  proof (rule add_all_invariant [OF add, where J = "\<lambda>tent. \<forall>t \<in> set tent. adj_ref t \<in> A"])
    show "\<forall>t \<in> set (remove_at j tent). adj_ref t \<in> A" using rest assms(2) by blast
    fix nbr :: Triple and tent'' :: "Triple list" assume "\<forall>t \<in> set tent''. adj_ref t \<in> A"
    then show "\<forall>t \<in> set (fst (addAdjToTent m (adj_ref (tent ! j)) nbr tent'' paths')). adj_ref t \<in> A"
      using assms(2) nth_mem [OF j] by (cases rule: addAdjToTent_cases [of nbr paths' m "adj_ref (tent ! j)" tent'']) auto
  qed
  with assms(2) nth_mem [OF j] best(2) show ?thesis by auto
qed

lemma spf_loop_refs:
  assumes "spf_loop intfs unknown tent sz paths = Inr result" "\<forall>t \<in> set tent \<union> set paths. adj_ref t \<in> A"
  shows "\<forall>t \<in> set result. adj_ref t \<in> A"
  using spf_loop_invariant [OF assms(1), where I = "\<lambda>tent sz paths. \<forall>t \<in> set tent \<union> set paths. adj_ref t \<in> A"]
    assms(2) spf_step_refs by blast

text \<open>
  A candidate keeps the adjacency it was found with until it is settled; only its distance goes down.
\<close>

definition kept :: "Triple \<Rightarrow> Triple list \<Rightarrow> bool" where
  "kept t ts \<longleftrightarrow> (\<exists>t' \<in> set ts. systemID t' = systemID t \<and> adj_ref t' = adj_ref t \<and> distance t' \<le> distance t)"

lemma addAdjToTent_kept:
  assumes "kept t tent"
  shows "kept t (fst (addAdjToTent c h nbr tent paths))"
proof -
  from assms obtain t' where t': "t' \<in> set tent" "systemID t' = systemID t" "adj_ref t' = adj_ref t" "distance t' \<le> distance t"
    by (auto simp: kept_def)
  show ?thesis
  proof (cases rule: addAdjToTent_cases [of nbr paths c h tent])
    case update
    let ?f = "\<lambda>t. if systemID nbr = systemID t \<and> distance nbr + c < distance t then t\<lparr>distance := distance nbr + c\<rparr> else t"
    have "?f t' \<in> set (fst (addAdjToTent c h nbr tent paths))" using t'(1) unfolding update(3) fst_conv set_map by (rule imageI)
    moreover have "systemID (?f t') = systemID t" "adj_ref (?f t') = adj_ref t" "distance (?f t') \<le> distance t"
      using t'(2-4) by auto
    ultimately show ?thesis unfolding kept_def by blast
  qed (use assms in \<open>auto simp: kept_def\<close>)
qed

lemma spf_step_kept:
  assumes "spf_step intfs unknown tent sz paths = Inr (tent', sz', paths')"
    and "sz = int (length tent) \<and> (kept t tent \<or> kept t paths)"
  shows "sz' = int (length tent') \<and> (kept t tent' \<or> kept t paths')"
proof -
  from assms(1) obtain m j adjs where best: "best_candidate 0 tent (- 1, None) = (m, Some j)" "paths' = paths @ [tent ! j]"
    and add: "add_all m (adj_ref (tent ! j)) paths' adjs (remove_at j tent, sz - 1) = (tent', sz')" by (rule spf_stepE)
  from best_candidate_index [OF best(1)] have j: "j < length tent" by simp
  have "kept t tent'" if "kept t (remove_at j tent)"
    by (rule add_all_invariant [OF add, where J = "kept t"]) (use that addAdjToTent_kept in auto)
  moreover have "kept t (remove_at j tent) \<or> kept t paths'"
    using assms(2) unfolding kept_def best(2) remove_at_props(1) [OF j, symmetric] by auto
  moreover have "sz' = int (length tent')"
    using add_all_size [OF add] remove_at_props(2) [OF j] j assms(2) by simp
  ultimately show ?thesis by blast
qed

lemma spf_loop_kept:
  assumes "spf_loop intfs unknown tent (int (length tent)) paths = Inr result" "t \<in> set tent"
  shows "kept t result"
proof -
  have start: "int (length tent) = int (length tent) \<and> (kept t tent \<or> kept t paths)"
    using assms(2) by (auto simp: kept_def)
  from spf_loop_invariant [where I = "\<lambda>tent sz paths. sz = int (length tent) \<and> (kept t tent \<or> kept t paths)",
      OF assms(1) start spf_step_kept]
  show ?thesis by (auto simp: kept_def)
qed

text \<open>The search selects nothing when every candidate is at the largest cost, and only then.\<close>

lemma best_candidate_None:
  "snd (best_candidate i tent (- 1, None)) = None \<longleftrightarrow> (\<forall>t \<in> set tent. distance t = - 1)"
proof (induction tent arbitrary: i)
  case (Cons t tent)
  have "distance t < - 1 \<longleftrightarrow> distance t \<noteq> - 1"
    using word_order.extremum [of "distance t"] by (auto simp: less_le)
  moreover have "snd (best_candidate (i + 1) tent (distance t, Some i)) \<noteq> None"
    using best_candidate_Some by (metis prod.collapse)
  ultimately show ?case using Cons.IH [of "i + 1"] by simp
qed simp

lemma spf_step_panics_iff:
  assumes "\<forall>nd \<in> set unknown. readable nd"
  shows "spf_step intfs unknown tent sz paths = Inl e \<longleftrightarrow> e = IndexOutOfRange \<and> (\<forall>t \<in> set tent. distance t = - 1)"
proof (cases "best_candidate 0 tent (- 1, None)")
  case (Pair m b)
  obtain adjs where "getAdjacencies intfs (tent ! the b) unknown = Inr adjs"
    using getAdjacencies_ok [OF assms] by blast
  with Pair best_candidate_None [of 0 tent] show ?thesis
    by (cases b) (auto simp: spf_step_def Let_def split: prod.split)
qed

text \<open>
  With one cost for all links, labels never go down, so the next hop a system got when it was first
  reached is the first hop of a shortest walk.
\<close>

definition hops_inv :: "Triple list \<Rightarrow> lsp_node list \<Rightarrow> string \<Rightarrow> Triple list \<Rightarrow> int \<Rightarrow> Triple list \<Rightarrow> bool" where
  "hops_inv seeds unknown src tent sz paths \<longleftrightarrow> sz = int (length tent) \<and>
     (\<exists>L b. labelled (tent @ paths) L \<and> spf.labels_inv seeds src unknown L (ids paths) (ids tent) b {}) \<and>
     (\<forall>t \<in> set tent \<union> set paths. systemID t \<noteq> src \<longrightarrow>
        walk (seed_link seeds src) (edge_link unknown) src (adj_ref t) (systemID t) (unat (distance t))) \<and>
     (\<forall>s \<in> set tent. \<forall>t \<in> set tent. unat (distance t) \<le> unat (distance s) + 10)"

lemma addAdjToTent_uniform:
  assumes "distance nbr = 10" "unat c + 10 < 2 ^ 32" "\<forall>t \<in> set tent. unat (distance t) \<le> unat c + 10"
  shows "set (fst (addAdjToTent c h nbr tent paths)) \<subseteq> insert (nbr\<lparr>distance := c + 10, adj_ref := h\<rparr>) (set tent)"
    and "unat (c + 10) = unat c + 10"
proof -
  show sum: "unat (c + 10) = unat c + 10" using unat_add_lem [of c 10] assms(2) by simp
  then have "\<not> distance nbr + c < distance t" if "t \<in> set tent" for t
    using assms(1,3) that by (fastforce simp: word_less_nat_alt add.commute [of _ c])
  then show "set (fst (addAdjToTent c h nbr tent paths)) \<subseteq> insert (nbr\<lparr>distance := c + 10, adj_ref := h\<rparr>) (set tent)"
    by (cases rule: addAdjToTent_cases [of nbr paths c h tent]) (auto simp: assms(1) add.commute)
qed

lemma spf_step_hops:
  assumes step: "spf_step intfs unknown tent sz paths = Inr (tent', sz', paths')" and pos: "0 < sz"
    and inv: "hops_inv seeds unknown src tent sz paths"
    and rd: "\<forall>nd \<in> set unknown. readable nd" and nov: "no_overflow seeds unknown"
    and uni: "\<And>u v w. lsp_edge unknown u v w \<Longrightarrow> w = 10"
  shows "hops_inv seeds unknown src tent' sz' paths'"
proof -
  let ?walk = "\<lambda>t. walk (seed_link seeds src) (edge_link unknown) src (adj_ref t) (systemID t) (unat (distance t))"
  from inv obtain L b where lab: "labelled (tent @ paths) L"
    and labs: "spf.labels_inv seeds src unknown L (ids paths) (ids tent) b {}" and sz: "sz = int (length tent)"
    unfolding hops_inv_def by blast
  have wk: "?walk t" if "t \<in> set tent \<union> set paths" "systemID t \<noteq> src" for t using inv that unfolding hops_inv_def by blast
  have ne: "tent \<noteq> []" using pos sz by auto
  obtain tent2 best L' where st: "spf_step intfs unknown tent (int (length tent)) paths = Inr (tent2, int (length tent2), paths @ [best])"
    and "labelled (tent2 @ paths @ [best]) L'"
      "spf.labels_inv seeds src unknown L' (ids (paths @ [best])) (ids tent2) (systemID best) {}"
    by (rule spf_step_labels [OF lab labs ne rd nov])
  moreover from st step sz have "tent2 = tent'" "sz' = int (length tent2)" "paths' = paths @ [best]" by auto
  ultimately have new: "sz' = int (length tent')" "labelled (tent' @ paths') L'"
    "spf.labels_inv seeds src unknown L' (ids paths') (ids tent') (systemID best) {}" by simp_all
  from step obtain m j adjs where best: "best_candidate 0 tent (- 1, None) = (m, Some j)" "paths' = paths @ [tent ! j]"
    and adjs: "getAdjacencies intfs (tent ! j) unknown = Inr adjs"
    and add: "add_all m (adj_ref (tent ! j)) paths' adjs (remove_at j tent, sz - 1) = (tent', sz')" by (rule spf_stepE)
  from best_candidate_index [OF best(1)] have j: "j < length tent" and m: "m = distance (tent ! j)" by auto
  let ?b = "tent ! j"
  have bt: "?b \<in> set tent" using j by simp
  have bs: "systemID ?b \<noteq> src" and srcp: "src \<in> ids paths" using spf.labels_invD(2,3) [OF labs] bt by blast+
  have rest: "set (remove_at j tent) \<subseteq> set tent" using remove_at_props(1) [OF j] by blast
  have nbr: "distance t = 10" "edge_link unknown (systemID ?b) (systemID t) 10" if "t \<in> set adjs" for t
    using getAdjacencies_edges [OF adjs] uni that by (fastforce simp: edge_link_def)+
  have wrap: "unat m + 10 < 2 ^ 32" if "t \<in> set adjs" for t
  proof -
    have "10 \<le> max_cost (link_costs unknown)" using spf.edge_law [OF nbr(2) [OF that]] by blast
    from spf.label_bound [OF labs _ this, of "systemID ?b" "unat m"] labelledD [OF lab, of ?b] bt m nov
    show ?thesis by (simp add: no_overflow_def)
  qed
  let ?J = "\<lambda>tent. \<forall>t \<in> set tent. unat m \<le> unat (distance t) \<and> unat (distance t) \<le> unat m + 10 \<and>
    (systemID t \<noteq> src \<longrightarrow> ?walk t)"
  have "?J tent'"
  proof (rule add_all_invariant [OF add, where J = ?J])
    have spread: "unat (distance t) \<le> unat m + 10" if "t \<in> set tent" for t
      using inv bt m that unfolding hops_inv_def by blast
    have "unat m \<le> unat (distance t)" if "t \<in> set tent" for t
      using best_candidate_least [OF best(1)] that by (simp add: word_le_nat_alt)
    with spread rest wk show "?J (remove_at j tent)" by blast
    fix t :: Triple and ts :: "Triple list" assume t: "t \<in> set adjs" and J: "?J ts"
    then have le: "\<forall>s \<in> set ts. unat (distance s) \<le> unat m + 10" by blast
    note un = addAdjToTent_uniform(1) [OF nbr(1) [OF t] wrap [OF t] le, of "adj_ref ?b" paths']
      addAdjToTent_uniform(2) [OF nbr(1) [OF t] wrap [OF t] le]
    have "?walk (t\<lparr>distance := m + 10, adj_ref := adj_ref ?b\<rparr>)" if ts: "systemID t \<noteq> src"
    proof -
      have "?walk ?b" by (rule wk) (use bt bs in auto)
      then have "walk (seed_link seeds src) (edge_link unknown) src (adj_ref ?b) (systemID ?b) (unat m)" by (simp add: m)
      from walk.extend [of "seed_link seeds src" "edge_link unknown" src, OF this nbr(2) [OF t] ts]
      show ?thesis using un(2) by simp
    qed
    moreover have "unat m \<le> unat (m + 10)" "unat (m + 10) \<le> unat m + 10" using un(2) by simp_all
    ultimately show "?J (fst (addAdjToTent m (adj_ref ?b) t ts paths'))"
      using un(1) J by (intro ballI) (drule (1) subsetD, elim insertE, simp_all)
  qed
  then have J: "unat m \<le> unat (distance t)" "unat (distance t) \<le> unat m + 10" "systemID t \<noteq> src \<Longrightarrow> ?walk t"
    if "t \<in> set tent'" for t using that by blast+
  have "?walk t" if "t \<in> set tent' \<union> set paths'" "systemID t \<noteq> src" for t
    using that J(3) [of t] wk [of t] bt by (auto simp: best(2))
  moreover have "unat (distance t) \<le> unat (distance s) + 10" if "s \<in> set tent'" "t \<in> set tent'" for s t
    using J(1) [OF that(1)] J(2) [OF that(2)] by simp
  ultimately show ?thesis unfolding hops_inv_def using new by blast
qed

definition own_path :: "node \<Rightarrow> Triple" where
  "own_path n = \<lparr>systemID = sid n, distance = 0, adj_ref = None\<rparr>"

lemma spf_initial_labels:
  assumes "spf_ready n" "0 < k"
  obtains L where "labelled (initial_tent (interfaces n) @ replicate k (own_path n)) L"
    "spf.labels_inv (initial_tent (interfaces n)) (sid n) unknown L (ids (replicate k (own_path n)))
       (ids (initial_tent (interfaces n))) b {}"
proof -
  let ?tent = "initial_tent (interfaces n)"
  define L where "L v = (if v = sid n then Some 0 else if v \<in> ids ?tent then Some (10 :: nat) else None)" for v
  have ten: "distance t = 10 \<and> systemID t \<noteq> sid n" if "t \<in> set ?tent" for t
    using that assms(1) up_adjacency [of n] unfolding set_initial_tent spf_ready_def no_self_adjacency_def list_all_length
    by auto
  then have src: "sid n \<notin> ids ?tent" by force
  have own: "ids (replicate k (own_path n)) = {sid n}" using assms(2) by (simp add: own_path_def)
  have dom: "dom L = insert (sid n) (ids ?tent)" using src by (auto simp: L_def split: if_splits)
  have "labelled (?tent @ replicate k (own_path n)) L"
    unfolding labelled_def using ten dom own assms(2) by (auto simp: L_def own_path_def)
  moreover have "spf.labels_inv ?tent (sid n) unknown L {sid n} (ids ?tent) b {}"
  proof (rule spf.labels_init [OF dom src])
    show "L (sid n) = Some 0" by (simp add: L_def)
    show "\<exists>h. seed_link ?tent (sid n) h v d" if "L v = Some d" "v \<noteq> sid n" for v d
      using that ten by (force simp: L_def seed_link_def split: if_splits)
    show "\<exists>d' \<le> d. L v = Some d'" if "seed_link ?tent (sid n) h v d" for h v d
      using that ten by (force simp: L_def seed_link_def)
  qed
  ultimately show thesis using that own by simp
qed

text \<open>Every link of the database has the cost 10, the only one the daemon ever advertises.\<close>

definition uniform_costs :: "node \<Rightarrow> bool" where
  "uniform_costs n \<longleftrightarrow> list_all (\<lambda>d. d = 10) (link_costs (AvlGetAll (UpdateDB n)))"

lemma spf_loop_hops:
  assumes ready: "spf_ready n"
    and loop: "spf_loop intfs unknown (initial_tent (interfaces n)) (int (length (initial_tent (interfaces n))))
      (replicate k (own_path n)) = Inr paths"
    and lab: "labelled (initial_tent (interfaces n) @ replicate k (own_path n)) L"
    and labs: "spf.labels_inv (initial_tent (interfaces n)) (sid n) unknown L (ids (replicate k (own_path n)))
      (ids (initial_tent (interfaces n))) b {}"
    and rd: "\<forall>nd \<in> set unknown. readable nd" and nov: "no_overflow (initial_tent (interfaces n)) unknown"
    and sub: "set unknown \<subseteq> set (AvlGetAll (UpdateDB n))" and uni: "uniform_costs n"
    and t: "t \<in> set paths" "systemID t \<noteq> sid n"
  shows "walk (seed_link (initial_tent (interfaces n)) (sid n)) (edge_link unknown) (sid n)
    (adj_ref t) (systemID t) (unat (distance t))"
proof -
  let ?tent = "initial_tent (interfaces n)"
  have inv: "update_inv n" using ready by (simp add: spf_ready_def)
  have cost: "w = 10" if "lsp_edge unknown u v w" for u v w
  proof -
    have "lsp_edge (AvlGetAll (UpdateDB n)) u v w" using that sub unfolding lsp_edge_def by blast
    from link_costs_edge [OF this] uni have "unat w = unat (10 :: uint32)" by (auto simp: uniform_costs_def list_all_iff)
    then show ?thesis by (rule unsigned_word_eqI)
  qed
  have ten: "unat (distance t) = 10" if "t \<in> set ?tent" for t using seed_facts [OF inv that] by simp
  have "walk (seed_link ?tent (sid n)) (edge_link unknown) (sid n) (adj_ref s) (systemID s) (unat (distance s))"
    if "s \<in> set ?tent \<union> set (replicate k (own_path n))" "systemID s \<noteq> sid n" for s
    using that by (intro walk.start) (auto simp: seed_link_def own_path_def)
  then have "hops_inv ?tent unknown (sid n) ?tent (int (length ?tent)) (replicate k (own_path n))"
    unfolding hops_inv_def using lab labs ten by auto
  from spf_loop_invariant [where I = "hops_inv ?tent unknown (sid n)", OF loop this]
  obtain tent' sz' where "hops_inv ?tent unknown (sid n) tent' sz' paths"
    using spf_step_hops [OF _ _ _ rd nov] cost by metis
  with t show ?thesis unfolding hops_inv_def by blast
qed

lemma spf_run:
  assumes ready: "spf_ready n" and own: "has_own_lsp n"
  obtains paths where
    "computeSPF (sid n) n = bind_res (fold_res (store_path n) paths (TopoDB n, [])) (\<lambda>(topo, reqs).
       Inr (n\<lparr>TopoDB := topo\<rparr>, reqs))"
    "\<And>t. t \<in> set paths \<Longrightarrow> systemID t \<noteq> sid n \<Longrightarrow> spf_shortest n (systemID t) (unat (distance t))"
    "\<And>v d. spf_shortest n v d \<Longrightarrow> \<exists>t \<in> set paths. systemID t = v \<and> unat (distance t) = d"
    "\<And>t. t \<in> set paths \<Longrightarrow> systemID t = sid n \<Longrightarrow> distance t = 0"
    "\<And>t. t \<in> set paths \<Longrightarrow> sid_string (systemID t)" "own_path n \<in> set paths"
    "\<And>t i. t \<in> set paths \<Longrightarrow> adj_ref t = Some i \<Longrightarrow> i < length (interfaces n)"
    "\<And>t. uniform_costs n \<Longrightarrow> t \<in> set paths \<Longrightarrow> systemID t \<noteq> sid n \<Longrightarrow>
       spf_walk n (adj_ref t) (systemID t) (unat (distance t))"
proof -
  let ?nodes = "AvlGetAll (UpdateDB n)" and ?tent = "initial_tent (interfaces n)"
  have inv: "update_inv n" "lsps_full n" using ready by (simp_all add: spf_ready_def)
  have data: "\<forall>nd \<in> set ?nodes. snd nd \<noteq> None" using database_readable(2) [OF inv] by blast
  from own have "\<exists>nd \<in> set ?nodes. \<exists>lsp. snd nd = Some lsp \<and> lsp_system lsp = sid n"
    unfolding has_own_lsp_def list_ex_iff by (force split: option.splits)
  with own_scan_result [OF data, of "sid n" 0 "[]" None] obtain k i lsp where
    scan: "own_scan (sid n) 0 ?nodes ([], None) = Inr (replicate k (own_path n), Some i)" "0 < k"
    and i: "i < length ?nodes" "snd (?nodes ! i) = Some lsp" "lsp_system lsp = sid n"
    unfolding own_path_def by auto
  let ?unknown = "remove_at i ?nodes"
  have sub: "set ?unknown \<subseteq> set ?nodes" using remove_at_props(1) [OF i(1)] by blast
  have rd: "\<forall>nd \<in> set ?unknown. readable nd"
    using sub database_readable(1) [OF inv] by blast
  have nov: "no_overflow ?tent ?unknown" using ready no_overflow_subset [OF _ sub] by (simp add: spf_ready_def)
  obtain L where lab: "labelled (?tent @ replicate k (own_path n)) L"
    and labs: "spf.labels_inv ?tent (sid n) ?unknown L (ids (replicate k (own_path n))) (ids ?tent) [] {}"
    by (rule spf_initial_labels [OF ready scan(2)])
  from spf_loop_labels [OF lab labs rd nov, of "interfaces n"] obtain paths L' b where
    loop: "spf_loop (interfaces n) ?unknown ?tent (int (length ?tent)) (replicate k (own_path n)) = Inr paths"
    and lab': "labelled paths L'" and labs': "spf.labels_inv ?tent (sid n) ?unknown L' (ids paths) {} b {}"
    and pre: "own_path n \<in> set paths" using scan(2) by (metis UnCI in_set_replicate less_not_refl set_append)
  have final: "L' v = Some d \<longleftrightarrow> spf_shortest n v d" if "v \<noteq> sid n" for v d
    using spf.labels_final [OF labs' that, of d] spf_walk_remove_own [OF i]
    unfolding spf_shortest_def shortest_def spf_walk_def spf_seed_def by simp
  have str: "sid_string v" if "v \<in> ids paths" for v
  proof -
    have "v \<in> insert (sid n) (systems ?tent ?unknown)" using spf.labels_invD(4) [OF labs'] that by blast
    moreover have "sid_string (sid n)" 
      by (rule database_nodes [OF inv nth_mem [OF i(1)]]) (use i(2,3) lsp_system_string [of lsp] in simp)
    moreover have "sid_string v" if "v \<in> ids ?tent" for v
      using that seed_facts [OF inv(1)] by blast
    ultimately show ?thesis using named_systems_strings by (auto simp: systems_def)
  qed
  have refs: "\<forall>t \<in> set paths. adj_ref t \<in> insert None (Some ` {..<length (interfaces n)})"
    by (rule spf_loop_refs [OF loop]) (auto simp: set_initial_tent own_path_def)
  have hops: "spf_walk n (adj_ref t) (systemID t) (unat (distance t))"
    if "uniform_costs n" "t \<in> set paths" "systemID t \<noteq> sid n" for t
    using spf_loop_hops [OF ready loop lab labs rd nov sub that] unfolding spf_seed_def [symmetric] spf_walk_remove_own [OF i] .
  have zero: "distance t = 0" if "t \<in> set paths" "systemID t = sid n" for t
    using labelledD [OF lab' that(1)] labelledD [OF lab' pre] that(2) by (simp add: own_path_def unat_eq_0)
  have complete: "\<exists>t \<in> set paths. systemID t = v \<and> unat (distance t) = d" if sh: "spf_shortest n v d" for v d
  proof -
    have "v \<noteq> sid n" using sh walk_not_src [of "spf_seed n" _ "sid n"]
      unfolding spf_shortest_def shortest_def by (force simp: spf_seed_def seed_link_def)
    from final [OF this, of d] sh have L: "L' v = Some d" by simp
    then have "v \<in> ids paths" using lab' by (metis domI labelled_def)
    then obtain t where "t \<in> set paths" "systemID t = v" by blast
    with labelledD [OF lab', of t] L show ?thesis by auto
  qed
  have run_eq: "computeSPF (sid n) n = bind_res (fold_res (store_path n) paths (TopoDB n, [])) (\<lambda>(topo, reqs).
       Inr (n\<lparr>TopoDB := topo\<rparr>, reqs))"
    using scan loop by (simp add: computeSPF_def Let_def)
  show thesis
    by (rule that [OF run_eq _ complete _ _ pre]) (use final labelledD [OF lab'] zero str refs hops in auto)
qed

section \<open>What comes out\<close>

lemma AvlInsert_overwrite:
  assumes "avl_inv t"
  obtains t' where "AvlInsert t k (Some d) True = Inr t'" "avl_inv t'" "AvlSearch t' = (AvlSearch t)(k \<mapsto> d)"
proof -
  obtain t' where t': "AvlInsert t k (Some d) True = Inr t'" using avl.put_total [OF assms] by blast
  have "AvlSearch t' = (AvlSearch t)(k \<mapsto> d)"
    using avl.get_put_same [OF assms t'] avl.get_put_other [OF assms t'] by (auto simp: fun_eq_iff)
  with t' avl.put_invar [OF assms t'] show thesis by (rule that)
qed

text \<open>The requests for one path: every prefix of the system at its end, over the next hop of the path.\<close>

definition requests :: "node \<Rightarrow> Triple \<Rightarrow> route_request list" where
  "requests n t = (case installRouteFromPath (UpdateDB n) (interfaces n) t of Inl e \<Rightarrow> [] | Inr rs \<Rightarrow> rs)"

lemma store_paths:
  assumes "avl_inv topo" "\<And>t. t \<in> set ps \<Longrightarrow> installRouteFromPath (UpdateDB n) (interfaces n) t = Inr (requests n t)"
  shows "\<exists>topo'. fold_res (store_path n) ps (topo, reqs) =
      Inr (topo', reqs @ concat (map (requests n) (filter (\<lambda>t. systemID t \<noteq> sid n) ps))) \<and> avl_inv topo' \<and>
    AvlSearch topo' = fold (\<lambda>t m. m(systemIDToKey (systemID t) \<mapsto> t)) ps (AvlSearch topo)"
  using assms
proof (induction ps arbitrary: topo reqs)
  case (Cons t ps)
  obtain topo1 where topo1: "AvlInsert topo (systemIDToKey (systemID t)) (Some t) True = Inr topo1" "avl_inv topo1"
    "AvlSearch topo1 = (AvlSearch topo)(systemIDToKey (systemID t) \<mapsto> t)" by (rule AvlInsert_overwrite [OF Cons.prems(1)])
  let ?reqs = "if systemID t \<noteq> sid n then reqs @ requests n t else reqs"
  have "store_path n t (topo, reqs) = Inr (topo1, ?reqs)" using topo1(1) Cons.prems(2) by (simp add: store_path_def)
  with Cons.IH [OF topo1(2), of ?reqs] Cons.prems(2) topo1(3) show ?case by auto
qed simp

lemma fold_updates:
  "fold (\<lambda>t m. m(key t \<mapsto> t)) ps m0 k = (case find (\<lambda>t. key t = k) (rev ps) of None \<Rightarrow> m0 k | Some t \<Rightarrow> Some t)"
  by (induction ps arbitrary: m0) (auto simp: find_append split: option.splits)

lemma installRouteFromPath_ok:
  assumes "update_inv n" "lsps_full n" "\<And>i. adj_ref t = Some i \<Longrightarrow> i < length (interfaces n)"
  shows "installRouteFromPath (UpdateDB n) (interfaces n) t = Inr (requests n t)"
proof -
  have "\<exists>ps. getDirectlyConnectedPrefixes (UpdateDB n) (systemID t) = Inr ps"
    using assms(2) prefixes_of_tlvs_total
    by (auto simp: getDirectlyConnectedPrefixes_def lsps_full_def db_abs_def lsp_full_def split: option.split)
  with assms(3) have "\<exists>rs. installRouteFromPath (UpdateDB n) (interfaces n) t = Inr rs"
    by (auto simp: installRouteFromPath_def adj_deref_def split: option.split)
  then show ?thesis by (auto simp: requests_def)
qed

lemma computeSPF_ok:
  assumes ready: "spf_ready n" and own: "has_own_lsp n"
  obtains paths n' where "computeSPF (sid n) n =
      Inr (n', concat (map (requests n) (filter (\<lambda>t. systemID t \<noteq> sid n) paths)))"
    "n' = n\<lparr>TopoDB := TopoDB n'\<rparr>" "avl_inv (TopoDB n')"
    "\<And>k. AvlSearch (TopoDB n') k = (case find (\<lambda>t. systemIDToKey (systemID t) = k) (rev paths) of
       None \<Rightarrow> AvlSearch (TopoDB n) k | Some t \<Rightarrow> Some t)"
    "\<And>t. t \<in> set paths \<Longrightarrow> systemID t \<noteq> sid n \<Longrightarrow> spf_shortest n (systemID t) (unat (distance t))"
    "\<And>v d. spf_shortest n v d \<Longrightarrow> \<exists>t \<in> set paths. systemID t = v \<and> unat (distance t) = d"
    "\<And>t. t \<in> set paths \<Longrightarrow> systemID t = sid n \<Longrightarrow> distance t = 0"
    "\<And>t. t \<in> set paths \<Longrightarrow> sid_string (systemID t)"
    "\<And>t. uniform_costs n \<Longrightarrow> t \<in> set paths \<Longrightarrow> systemID t \<noteq> sid n \<Longrightarrow>
       spf_walk n (adj_ref t) (systemID t) (unat (distance t))"
proof (rule spf_run [OF assms], goal_cases)
  case (1 paths)
  have inv: "update_inv n" "lsps_full n" "avl_inv (TopoDB n)" using ready by (simp_all add: spf_ready_def)
  from store_paths [OF inv(3), of paths n "[]"] installRouteFromPath_ok [OF inv(1,2)] 1(8) obtain topo where
    topo: "fold_res (store_path n) paths (TopoDB n, []) =
      Inr (topo, concat (map (requests n) (filter (\<lambda>t. systemID t \<noteq> sid n) paths)))" "avl_inv topo"
    "AvlSearch topo = fold (\<lambda>t m. m(systemIDToKey (systemID t) \<mapsto> t)) paths (AvlSearch (TopoDB n))" by fastforce
  show thesis
  proof (rule that [of "n\<lparr>TopoDB := topo\<rparr>" paths])
    show "AvlSearch (TopoDB (n\<lparr>TopoDB := topo\<rparr>)) k = (case find (\<lambda>t. systemIDToKey (systemID t) = k) (rev paths) of
       None \<Rightarrow> AvlSearch (TopoDB n) k | Some t \<Rightarrow> Some t)" for k
      using topo(3) fold_updates [of "\<lambda>t. systemIDToKey (systemID t)" paths "AvlSearch (TopoDB n)" k] by simp
  qed (use 1 topo in simp_all)
qed

lemma find_last_key:
  assumes "t \<in> set ps" "\<And>s. s \<in> set ps \<Longrightarrow> sid_string (systemID s)"
  obtains s where "find (\<lambda>s. systemIDToKey (systemID s) = systemIDToKey (systemID t)) (rev ps) = Some s"
    "s \<in> set ps" "systemID s = systemID t"
proof -
  obtain s where s: "find (\<lambda>s. systemIDToKey (systemID s) = systemIDToKey (systemID t)) (rev ps) = Some s"
    using assms(1) by (metis (mono_tags, lifting) find_None_iff not_None_eq set_rev)
  then have "s \<in> set ps" "systemIDToKey (systemID s) = systemIDToKey (systemID t)"
    by (auto simp: find_Some_iff) (metis length_rev nth_mem set_rev)
  with s assms show thesis by (metis sid_string_key_inject that)
qed

lemma spf_walk_hop: "spf_walk n h v d \<Longrightarrow> \<exists>i. h = Some i \<and> i < length (interfaces n) \<and> state (adj (interfaces n ! i)) = ''UP''"
  unfolding spf_walk_def
  by (induction rule: walk.induct) (auto simp: spf_seed_def seed_link_def set_initial_tent)

lemma requests_eq:
  assumes "adj_ref t = Some i" "i < length (interfaces n)" "neighborIP (adj (interfaces n ! i)) = Some gw"
    and "getDirectlyConnectedPrefixes (UpdateDB n) (systemID t) = Inr pfxs"
  shows "requests n t = map (\<lambda>pfx. (pfx, gw)) pfxs"
  using assms by (simp add: requests_def installRouteFromPath_def adj_deref_def)

lemma path_requests:
  assumes "update_inv n" "spf_walk n (adj_ref t) (systemID t) d"
  obtains i gw where "adj_ref t = Some i" "i < length (interfaces n)" "neighborIP (adj (interfaces n ! i)) = Some gw"
  using spf_walk_hop [OF assms(2)] up_adjacency [OF assms(1)] that by blast

lemma computeSPF_without_own:
  assumes "update_inv n" and "lsps_full n" and "\<not> has_own_lsp n \<or> \<not> canonical_sid (sid n)"
  shows "computeSPF (sid n) n = Inr (n, [])"
proof -
  let ?nodes = "AvlGetAll (UpdateDB n)"
  have data: "\<forall>nd \<in> set ?nodes. snd nd \<noteq> None" using database_readable(2) [OF assms(1,2)] by blast
  have "\<not> (\<exists>nd \<in> set ?nodes. \<exists>lsp. snd nd = Some lsp \<and> lsp_system lsp = sid n)"
  proof
    assume "\<exists>nd \<in> set ?nodes. \<exists>lsp. snd nd = Some lsp \<and> lsp_system lsp = sid n"
    then obtain nd lsp where nd: "nd \<in> set ?nodes" "snd nd = Some lsp" "lsp_system lsp = sid n" by blast
    then have "has_own_lsp n" unfolding has_own_lsp_def list_ex_iff by force
    moreover have "canonical_sid (sid n)"
      by (rule database_nodes [OF assms(1,2) nd(1)])
        (use nd lsp_system_string [of lsp] systemIDToString_canonical in \<open>auto simp: sid_string_def\<close>)
    ultimately show False using assms(3) by blast
  qed
  with own_scan_result [OF data, of "sid n" 0 "[]" None] show ?thesis
    by (auto simp: computeSPF_def Let_def)
qed

section \<open>Reference topologies\<close>

text \<open>LSPs with given links (the four metric bytes and the neighbour) and databases that hold them.\<close>

definition sample_router :: "string \<Rightarrow> byte \<Rightarrow> (bytes \<times> bytes) list \<Rightarrow> IsisLsp" where
  "sample_router s net links =
     (let lsp = buildEmptyLSP 1 s
      in lsp\<lparr>CoreLsp := (CoreLsp lsp)\<lparr>FirstTLV :=
           [\<lparr>typeTLV = 128, lengthTLV = 12, valueTLV = [10, 0, net, 0, 255, 255, 255, 0, 0, 0, 0, 10]\<rparr>,
            \<lparr>typeTLV = 2, lengthTLV = of_nat (1 + 11 * length links),
             valueTLV = 0 # concat (map (\<lambda>(m, b). m @ b @ [0]) links)\<rparr>]\<rparr>\<rparr>)"

definition load_lsps :: "IsisLsp list \<Rightarrow> IsisLsp avl" where
  "load_lsps lsps = fold (\<lambda>lsp t. case AvlInsert t (Key lsp) (Some lsp) True of Inl e \<Rightarrow> t | Inr t' \<Rightarrow> t') lsps NilNode"

lemma load_lsps_inv:
  assumes "\<forall>lsp \<in> set lsps. stored_ok lsp"
  shows "updatedb_inv (load_lsps lsps) \<and> (\<forall>k lsp. db_abs (load_lsps lsps) k = Some lsp \<longrightarrow> lsp \<in> set lsps)"
  using assms
proof (induction lsps rule: rev_induct)
  case (snoc lsp lsps)
  then have inv: "updatedb_inv (load_lsps lsps)" and sub: "\<forall>k l. db_abs (load_lsps lsps) k = Some l \<longrightarrow> l \<in> set lsps"
    by simp_all
  from updatedb_put [OF inv, of lsp True] snoc.prems obtain t' where
    "AvlInsert (load_lsps lsps) (Key lsp) (Some lsp) True = Inr t'" "updatedb_inv t'"
    "db_abs t' = (db_abs (load_lsps lsps))(Key lsp \<mapsto> lsp)" by auto
  with sub show ?case by (auto simp: load_lsps_def split: if_splits)
qed (simp add: load_lsps_def)

text \<open>A node with adjacencies to two neighbours and a database.\<close>

definition sample_spf_node :: "IsisLsp list \<Rightarrow> node" where
  "sample_spf_node lsps =
     (let eth0 = sample_intf ''eth0'' ''UP'' [0x11, 0x11, 0x11, 0x11, 0x11, 0x12];
          eth1 = sample_intf ''eth1'' ''UP'' [0x11, 0x11, 0x11, 0x11, 0x11, 0x13]
      in \<lparr>sid = ''1111.1111.1111'',
          interfaces = [eth0, eth1\<lparr>adj := (adj eth1)\<lparr>neighborIP := Some [172, 21, 0, 3]\<rparr>\<rparr>],
          UpdateDB = load_lsps lsps, TopoDB = NilNode, sequenceNumber = 1\<rparr>)"

lemma sample_spf_node_inv:
  assumes "\<forall>lsp \<in> set lsps. stored_ok lsp \<and> lsp_full lsp"
  shows "update_inv (sample_spf_node lsps) \<and> lsps_full (sample_spf_node lsps) \<and> no_self_adjacency (sample_spf_node lsps)"
proof -
  from assms have db: "updatedb_inv (load_lsps lsps)" "\<forall>k lsp. db_abs (load_lsps lsps) k = Some lsp \<longrightarrow> lsp \<in> set lsps"
    using load_lsps_inv by blast+
  have "update_inv (sample_spf_node lsps)"
    using db(1) by (simp add: update_inv_def flooding_inv_def sample_spf_node_def Let_def sample_intf_def intf_inv_def adj_inv_def flood_inv_def)
  moreover have "lsps_full (sample_spf_node lsps)" using db(2) assms by (auto simp: lsps_full_def sample_spf_node_def Let_def)
  moreover have "no_self_adjacency (sample_spf_node lsps)"
  proof -
    have "systemIDToString [0x11, 0x11, 0x11, 0x11, 0x11, 0x12] \<noteq> ''1111.1111.1111''"
      "systemIDToString [0x11, 0x11, 0x11, 0x11, 0x11, 0x13] \<noteq> ''1111.1111.1111''" by code_simp+
    then show ?thesis by (simp add: no_self_adjacency_def sample_spf_node_def Let_def sample_intf_def)
  qed
  ultimately show ?thesis by blast
qed

lemma sample_bytes:
  "systemIDToBytes ''1111.1111.1111'' = [0x11, 0x11, 0x11, 0x11, 0x11, 0x11]"
  "systemIDToBytes ''1111.1111.1112'' = [0x11, 0x11, 0x11, 0x11, 0x11, 0x12]"
  "systemIDToBytes ''1111.1111.1113'' = [0x11, 0x11, 0x11, 0x11, 0x11, 0x13]"
  "systemIDToBytes ''1111.1111.1114'' = [0x11, 0x11, 0x11, 0x11, 0x11, 0x14]" by code_simp+
lemma sample_strings:
  "systemIDToString [0x11, 0x11, 0x11, 0x11, 0x11, 0x11] = ''1111.1111.1111''"
  "systemIDToString [0x11, 0x11, 0x11, 0x11, 0x11, 0x12] = ''1111.1111.1112''"
  "systemIDToString [0x11, 0x11, 0x11, 0x11, 0x11, 0x13] = ''1111.1111.1113''"
  "systemIDToString [0x11, 0x11, 0x11, 0x11, 0x11, 0x14] = ''1111.1111.1114''" by code_simp+
lemma two_copies: "replicate 2 x = [x, x]" "getNeighbors_loop 2 tlv cur = getNeighbors_loop (Suc (Suc 0)) tlv cur"
  by (simp_all add: numeral_2_eq_2)
lemma sample_keys:
  "systemIDToKey ''1111.1111.1111'' = 0x1111111111110000"
  "systemIDToKey ''1111.1111.1112'' = 0x1111111111120000"
  "systemIDToKey ''1111.1111.1113'' = 0x1111111111130000"
  "systemIDToKey ''1111.1111.1114'' = 0x1111111111140000"
  by (simp_all add: systemIDToKey_def sample_bytes lspIDToKey_def BigEndian_Uint64_def be_nat_def copy_zeroed_def two_copies)

lemma sample_router_facts:
  "Key (sample_router s net links) = systemIDToKey s" "lsp_system (sample_router s net links) = systemIDToString (systemIDToBytes s)"
  "stored_ok (sample_router s net links)"
  by (simp_all add: sample_router_def buildEmptyLSP_def Let_def stored_ok_def systemIDToKey_LspID lsp_system_def systemIDToLspID_prefix)

lemma sample_router_full:
  assumes "length links \<le> 23" "\<forall>(m, b) \<in> set links. length m = 4 \<and> length b = 6"
  shows "lsp_full (sample_router s net links)"
proof -
  have "length (concat (map (\<lambda>(m, b). m @ b @ [0 :: byte]) links)) = 11 * length links"
    using assms(2) by (induction links) auto
  then show ?thesis using assms(1)
    by (simp add: lsp_full_def sample_router_def buildEmptyLSP_def Let_def tlv_full_def unat_of_nat del: of_nat_add of_nat_mult of_nat_Suc)
qed


lemma sample_neighbors:
  "lookupNeighbors (sample_router s net [([0, 0, 0, 10], b1), ([c1, c2, c3, c4], b2)]) =
     Inr [\<lparr>systemID_nbr = systemIDToString b1, metric_nbr = 10\<rparr>,
          \<lparr>systemID_nbr = systemIDToString b2, metric_nbr = BigEndian_Uint32 [c1, c2, c3, c4]\<rparr>]"
  if "length b1 = 6" "length b2 = 6"
  using that
  by (simp add: lookupNeighbors_def sample_router_def Let_def buildEmptyLSP_def ISIS_NEIGHBORS_TLV_def getNeighbors_def two_copies
   value_slice_def reslice_def)

lemma sample_no_neighbors: "lookupNeighbors (sample_router s net []) = Inr []"
  by (simp add: lookupNeighbors_def sample_router_def Let_def buildEmptyLSP_def ISIS_NEIGHBORS_TLV_def getNeighbors_def)

definition sample_A where "sample_A = sample_router ''1111.1111.1111'' 1 [([0, 0, 0, 10], [0x11, 0x11, 0x11, 0x11, 0x11, 0x12]), ([0, 0, 0, 10], [0x11, 0x11, 0x11, 0x11, 0x11, 0x13])]"
definition sample_B where "sample_B cost = sample_router ''1111.1111.1112'' 2 [([0, 0, 0, 10], [0x11, 0x11, 0x11, 0x11, 0x11, 0x11]),
        (cost, [0x11, 0x11, 0x11, 0x11, 0x11, 0x14])]"
definition sample_C where "sample_C = sample_router ''1111.1111.1113'' 3 [([0, 0, 0, 10], [0x11, 0x11, 0x11, 0x11, 0x11, 0x11]),
        ([0, 0, 0, 10], [0x11, 0x11, 0x11, 0x11, 0x11, 0x14])]"
definition sample_D where "sample_D = sample_router ''1111.1111.1114'' 4 []"

lemma sample_facts:
  "Key sample_A = 0x1111111111110000" "Key (sample_B cost) = 0x1111111111120000"
  "Key sample_C = 0x1111111111130000" "Key sample_D = 0x1111111111140000"
  "lsp_system sample_A = ''1111.1111.1111''" "lsp_system (sample_B cost) = ''1111.1111.1112''"
  "lsp_system sample_C = ''1111.1111.1113''" "lsp_system sample_D = ''1111.1111.1114''"
  by (simp_all add: sample_A_def sample_B_def sample_C_def sample_D_def sample_router_facts sample_keys sample_bytes sample_strings)

lemma sample_links:
  "lookupNeighbors sample_A = Inr [\<lparr>systemID_nbr = ''1111.1111.1112'', metric_nbr = 10\<rparr>, \<lparr>systemID_nbr = ''1111.1111.1113'', metric_nbr = 10\<rparr>]"
  "lookupNeighbors (sample_B [c1, c2, c3, c4]) = Inr [\<lparr>systemID_nbr = ''1111.1111.1111'', metric_nbr = 10\<rparr>,
     \<lparr>systemID_nbr = ''1111.1111.1114'', metric_nbr = BigEndian_Uint32 [c1, c2, c3, c4]\<rparr>]"
  "lookupNeighbors sample_C = Inr [\<lparr>systemID_nbr = ''1111.1111.1111'', metric_nbr = 10\<rparr>, \<lparr>systemID_nbr = ''1111.1111.1114'', metric_nbr = 10\<rparr>]"
  "lookupNeighbors sample_D = Inr []"
  by (simp_all add: sample_A_def sample_B_def sample_C_def sample_D_def sample_neighbors sample_no_neighbors sample_strings metric_10)

lemma sample_db: "load_lsps [sample_A, sample_B cost, sample_C, sample_D] =
  AvlNode 0x1111111111120000 (AvlNode 0x1111111111110000 NilNode NilNode (Some sample_A) 1)
    (AvlNode 0x1111111111130000 NilNode (AvlNode 0x1111111111140000 NilNode NilNode (Some sample_D) 1) (Some sample_C) 2) (Some (sample_B cost)) 3"
  by (simp add: load_lsps_def sample_facts insert_rebalance_def Max_int_def)

lemma sample_nodes: "AvlGetAll (load_lsps [sample_A, sample_B cost, sample_C, sample_D]) =
  [(0x1111111111110000, Some sample_A), (0x1111111111120000, Some (sample_B cost)), (0x1111111111130000, Some sample_C), (0x1111111111140000, Some sample_D)]"
  by (simp add: AvlGetAll_entries sample_db)

lemma sample_seeds: "initial_tent (interfaces (sample_spf_node lsps)) =
  [\<lparr>systemID = ''1111.1111.1112'', distance = 10, adj_ref = Some 0\<rparr>, \<lparr>systemID = ''1111.1111.1113'', distance = 10, adj_ref = Some 1\<rparr>]"
  by (simp add: initial_tent_def sample_spf_node_def Let_def sample_intf_def sample_strings)

lemma sample_overflow: "unat (BigEndian_Uint32 [c1,c2,c3,c4]) \<le> 1000000 \<Longrightarrow> no_overflow (initial_tent (interfaces (sample_spf_node lsps))) (AvlGetAll (load_lsps [sample_A, sample_B [c1,c2,c3,c4], sample_C, sample_D]))"
proof -
  assume c: "unat (BigEndian_Uint32 [c1,c2,c3,c4]) \<le> 1000000"
  have "systems (initial_tent (interfaces (sample_spf_node lsps))) (AvlGetAll (load_lsps [sample_A, sample_B [c1,c2,c3,c4], sample_C, sample_D])) =
    {''1111.1111.1111'', ''1111.1111.1112'', ''1111.1111.1113'', ''1111.1111.1114''}"
    by (auto simp: systems_def named_systems_def sample_seeds sample_nodes sample_links)
  with c show ?thesis
    by (simp add: no_overflow_def sample_seeds sample_nodes link_costs_def sample_links max_cost_def)
qed


lemmas sample_defs = sample_A_def sample_B_def sample_C_def sample_D_def

definition sample_net :: "bytes \<Rightarrow> node" where
  "sample_net cost = sample_spf_node [sample_A, sample_B cost, sample_C, sample_D]"

lemma sample_net_sel:
  "sid (sample_net cost) = ''1111.1111.1111''"
  "UpdateDB (sample_net cost) = load_lsps [sample_A, sample_B cost, sample_C, sample_D]"
  "TopoDB (sample_net cost) = NilNode"
  by (simp_all add: sample_net_def sample_spf_node_def Let_def)

lemma sample_net_inv:
  assumes "length cost = 4"
  shows "update_inv (sample_net cost) \<and> lsps_full (sample_net cost) \<and> no_self_adjacency (sample_net cost)"
proof -
  have "stored_ok lsp \<and> lsp_full lsp" if "lsp \<in> set [sample_A, sample_B cost, sample_C, sample_D]" for lsp
    using that assms by (auto simp: sample_defs sample_router_facts intro!: sample_router_full)
  then have "\<forall>lsp \<in> set [sample_A, sample_B cost, sample_C, sample_D]. stored_ok lsp \<and> lsp_full lsp" by blast
  from sample_spf_node_inv [OF this] show ?thesis unfolding sample_net_def .
qed

lemma sample_net_ready:
  assumes "unat (BigEndian_Uint32 [c1, c2, c3, c4]) \<le> 1000000"
  shows "spf_ready (sample_net [c1, c2, c3, c4])"
  using sample_net_inv [of "[c1, c2, c3, c4]"] sample_overflow [OF assms]
  by (simp add: spf_ready_def sample_net_sel avl.invar_empty) (simp add: sample_net_def)

lemma sample_net_own: "has_own_lsp (sample_net cost)"
  by (simp add: has_own_lsp_def sample_net_sel sample_nodes sample_facts)

lemma sample_net_uniform: "uniform_costs (sample_net [0, 0, 0, 10])"
  by (simp add: uniform_costs_def sample_net_sel sample_nodes link_costs_def sample_links metric_10)

lemma sample_metrics:
  "BigEndian_Uint32 [0, 0, 0, 100] = 100" "BigEndian_Uint32 [0, 0, 0, 10] = 10"
  "BigEndian_Uint32 [0xff, 0xff, 0xff, 0xf5] = 0xfffffff5"
  "BigEndian_Uint32 [0xff, 0xff, 0xff, 0xff] = 0xffffffff" "(4294967305 :: uint32) = 9"
  by (simp_all add: BigEndian_Uint32_def be_nat_def)

text \<open>Runs of the loop on the four routers, with the link from the first neighbour to the fourth router at cost 100,
  and with the databases of only the first two routers.\<close>

lemma spf_loop_if: "0 < z \<Longrightarrow> spf_loop intfs unknown tent z paths = 
   bind_res (spf_step intfs unknown tent z paths) (\<lambda>(tent', tentSize', paths').
          spf_loop intfs unknown tent' tentSize' paths')"
  "\<not> 0 < z \<Longrightarrow> spf_loop intfs unknown tent z paths = Inr paths"
  by (subst spf_loop.simps; simp)+

lemmas sample_eval = sample_nodes lsp_data_def sample_facts sample_links remove_at_def spf_step_def getAdjacencies_def
   visit_lsp_def addAdjToTent_def checkInPaths_def sample_metrics

lemma sample_run_100:
  "spf_loop (interfaces (sample_net [0, 0, 0, 100]))
    [(0x1111111111120000, Some (sample_B [0, 0, 0, 100])), (0x1111111111130000, Some sample_C), (0x1111111111140000, Some sample_D)]
   (initial_tent (interfaces (sample_net [0, 0, 0, 100]))) 2 [\<lparr>systemID = ''1111.1111.1111'', distance = 0, adj_ref = None\<rparr>] =
   Inr [\<lparr>systemID = ''1111.1111.1111'', distance = 0, adj_ref = None\<rparr>,
     \<lparr>systemID = ''1111.1111.1112'', distance = 10, adj_ref = Some 0\<rparr>, \<lparr>systemID = ''1111.1111.1113'', distance = 10, adj_ref = Some 1\<rparr>,
     \<lparr>systemID = ''1111.1111.1114'', distance = 20, adj_ref = Some 0\<rparr>]"
  by (simp add: sample_net_def sample_seeds spf_loop_if sample_eval)



lemma sample_router_prefixes:
  "prefixes_of_tlvs (FirstTLV (CoreLsp (sample_router s net links))) = Inr [\<lparr>IP = [10, 0, net, 0], Mask = [255, 255, 255, 0]\<rparr>]"
  by (simp add: sample_router_def buildEmptyLSP_def Let_def ISIS_IP_INTERNAL_REACH_TLV_def getPrefixesFromTLV_def
    value_slice_def reslice_def)

lemma sample_prefixes:
  "getDirectlyConnectedPrefixes (load_lsps [sample_A, sample_B cost, sample_C, sample_D]) ''1111.1111.1112'' =
     Inr [\<lparr>IP = [10, 0, 2, 0], Mask = [255, 255, 255, 0]\<rparr>]"
  "getDirectlyConnectedPrefixes (load_lsps [sample_A, sample_B cost, sample_C, sample_D]) ''1111.1111.1113'' =
     Inr [\<lparr>IP = [10, 0, 3, 0], Mask = [255, 255, 255, 0]\<rparr>]"
  "getDirectlyConnectedPrefixes (load_lsps [sample_A, sample_B cost, sample_C, sample_D]) ''1111.1111.1114'' =
     Inr [\<lparr>IP = [10, 0, 4, 0], Mask = [255, 255, 255, 0]\<rparr>]"
  by (simp_all add: getDirectlyConnectedPrefixes_def sample_db sample_keys)
    (simp_all add: sample_defs sample_router_prefixes)

lemma sample_net_tent: "initial_tent (interfaces (sample_net cost)) =
  [\<lparr>systemID = ''1111.1111.1112'', distance = 10, adj_ref = Some 0\<rparr>, \<lparr>systemID = ''1111.1111.1113'', distance = 10, adj_ref = Some 1\<rparr>]"
  by (simp add: sample_net_def sample_seeds)

lemma sample_net_adj:
  "\<exists>a. adj_deref (interfaces (sample_net cost)) 0 = Inr a \<and> neighborIP a = Some [172, 20, 0, 3]"
  "\<exists>a. adj_deref (interfaces (sample_net cost)) (Suc 0) = Inr a \<and> neighborIP a = Some [172, 21, 0, 3]"
  by (simp_all add: sample_net_def sample_spf_node_def Let_def adj_deref_def sample_intf_def)

lemma sample_net_route:
  "installRouteFromPath db (interfaces (sample_net cost)) \<lparr>systemID = s, distance = d, adj_ref = Some 0\<rparr> =
    bind_res (getDirectlyConnectedPrefixes db s) (\<lambda>ps. Inr (map (\<lambda>p. (p, [172, 20, 0, 3])) ps))"
  "installRouteFromPath db (interfaces (sample_net cost)) \<lparr>systemID = s, distance = d, adj_ref = Some (Suc 0)\<rparr> =
    bind_res (getDirectlyConnectedPrefixes db s) (\<lambda>ps. Inr (map (\<lambda>p. (p, [172, 21, 0, 3])) ps))"
  using sample_net_adj [of cost] by (auto simp: installRouteFromPath_def)

lemma stale_next_hop_run:
  "\<exists>topo. computeSPF ''1111.1111.1111'' (sample_net [0, 0, 0, 100]) = Inr ((sample_net [0, 0, 0, 100])\<lparr>TopoDB := topo\<rparr>,
     [(\<lparr>IP = [10, 0, 2, 0], Mask = [255, 255, 255, 0]\<rparr>, [172, 20, 0, 3]),
      (\<lparr>IP = [10, 0, 3, 0], Mask = [255, 255, 255, 0]\<rparr>, [172, 21, 0, 3]),
      (\<lparr>IP = [10, 0, 4, 0], Mask = [255, 255, 255, 0]\<rparr>, [172, 20, 0, 3])]) \<and>
   AvlSearch topo (systemIDToKey ''1111.1111.1114'') = Some \<lparr>systemID = ''1111.1111.1114'', distance = 20, adj_ref = Some 0\<rparr>"
  using sample_run_100
  by (simp add: computeSPF_def sample_net_sel lsp_data_def sample_facts remove_at_def sample_net_tent sample_nodes store_path_def
     sample_keys insert_rebalance_def Max_int_def sample_net_route sample_prefixes)
    (intro exI conjI, rule refl, simp)

lemma sample_net_edges:
  "edge_link (AvlGetAll (UpdateDB (sample_net [0, 0, 0, 100]))) u v w \<Longrightarrow> v \<noteq> ''1111.1111.1111'' \<Longrightarrow> u \<noteq> ''1111.1111.1111'' \<Longrightarrow>
    v = ''1111.1111.1114'' \<and> (u = ''1111.1111.1112'' \<and> w = 100 \<or> u = ''1111.1111.1113'' \<and> w = 10)"
  by (auto simp: edge_link_def lsp_edge_def sample_net_sel sample_nodes sample_facts sample_links sample_metrics)

lemma sample_net_walk:
  "spf_walk (sample_net [0, 0, 0, 100]) h v d \<Longrightarrow> h = Some 0 \<Longrightarrow>
     v = ''1111.1111.1112'' \<and> 10 \<le> d \<or> v = ''1111.1111.1114'' \<and> 110 \<le> d"
  unfolding spf_walk_def
proof (induction rule: walk.induct)
  case (start h v d)
  then show ?case by (auto simp: spf_seed_def seed_link_def sample_net_tent sample_net_sel)
next
  case (extend h u d v w)
  then have "v \<noteq> ''1111.1111.1111''" "u = ''1111.1111.1112'' \<and> 10 \<le> d \<or> u = ''1111.1111.1114'' \<and> 110 \<le> d"
    by (auto simp: sample_net_sel)
  with sample_net_edges [OF extend(2)] show ?case by auto
qed

lemma sample_net_detour: "spf_walk (sample_net [0, 0, 0, 100]) (Some 1) ''1111.1111.1114'' 20"
proof -
  let ?n = "sample_net [0, 0, 0, 100]"
  have seed: "spf_seed ?n (Some 1) ''1111.1111.1113'' 10"
    by (auto simp: spf_seed_def seed_link_def sample_net_tent sample_net_sel)
  have edge: "edge_link (AvlGetAll (UpdateDB ?n)) ''1111.1111.1113'' ''1111.1111.1114'' 10"
    by (simp add: edge_link_def lsp_edge_def sample_net_sel sample_nodes sample_facts sample_links sample_metrics
      conj_disj_distribR ex_disj_distrib)
  have "''1111.1111.1114'' \<noteq> sid ?n" by (simp add: sample_net_sel)
  from spf_walk_extend [OF spf_walk_start [OF seed] edge this] show ?thesis by simp
qed




definition sample_half :: "bytes \<Rightarrow> node" where
  "sample_half cost = sample_spf_node [sample_A, sample_B cost]"

lemma sample_half_sel:
  "sid (sample_half cost) = ''1111.1111.1111''" "UpdateDB (sample_half cost) = load_lsps [sample_A, sample_B cost]"
  "TopoDB (sample_half cost) = NilNode" "interfaces (sample_half cost) = interfaces (sample_net cost)"
  by (simp_all add: sample_half_def sample_spf_node_def sample_net_def Let_def)

lemma sample_half_db: "load_lsps [sample_A, sample_B cost] =
  AvlNode 0x1111111111110000 NilNode (AvlNode 0x1111111111120000 NilNode NilNode (Some (sample_B cost)) 1) (Some sample_A) 2"
  by (simp add: load_lsps_def sample_facts insert_rebalance_def Max_int_def)

lemma sample_half_nodes: "AvlGetAll (load_lsps [sample_A, sample_B cost]) =
  [(0x1111111111110000, Some sample_A), (0x1111111111120000, Some (sample_B cost))]"
  by (simp add: AvlGetAll_entries sample_half_db)

lemma sample_half_prefixes:
  "getDirectlyConnectedPrefixes (load_lsps [sample_A, sample_B cost]) ''1111.1111.1112'' =
     Inr [\<lparr>IP = [10, 0, 2, 0], Mask = [255, 255, 255, 0]\<rparr>]"
  "getDirectlyConnectedPrefixes (load_lsps [sample_A, sample_B cost]) ''1111.1111.1113'' = Inr []"
  "getDirectlyConnectedPrefixes (load_lsps [sample_A, sample_B cost]) ''1111.1111.1114'' = Inr []"
  by (simp_all add: getDirectlyConnectedPrefixes_def sample_half_db sample_keys)
    (simp_all add: sample_defs sample_router_prefixes)

lemma sample_half_inv:
  assumes "length cost = 4"
  shows "update_inv (sample_half cost) \<and> lsps_full (sample_half cost) \<and> no_self_adjacency (sample_half cost) \<and>
    has_own_lsp (sample_half cost)"
proof -
  have "\<forall>lsp \<in> set [sample_A, sample_B cost]. stored_ok lsp \<and> lsp_full lsp"
    using assms by (auto simp: sample_defs sample_router_facts intro!: sample_router_full)
  moreover have "has_own_lsp (sample_half cost)" by (simp add: has_own_lsp_def sample_half_sel sample_half_nodes sample_facts)
  ultimately show ?thesis using sample_spf_node_inv unfolding sample_half_def by blast
qed

lemma overflow_run:
  "\<exists>topo reqs. computeSPF ''1111.1111.1111'' (sample_half [0xff, 0xff, 0xff, 0xff]) =
      Inr ((sample_half [0xff, 0xff, 0xff, 0xff])\<lparr>TopoDB := topo\<rparr>, reqs) \<and>
    AvlSearch topo (systemIDToKey ''1111.1111.1112'') = Some \<lparr>systemID = ''1111.1111.1112'', distance = 10, adj_ref = Some 0\<rparr> \<and>
    AvlSearch topo (systemIDToKey ''1111.1111.1114'') = Some \<lparr>systemID = ''1111.1111.1114'', distance = 9, adj_ref = Some 0\<rparr>"
  by (simp add: computeSPF_def sample_half_sel sample_net_tent sample_half_nodes sample_eval spf_loop_if
      store_path_def sample_keys insert_rebalance_def Max_int_def sample_net_route sample_half_prefixes)
    (intro exI conjI, rule refl, simp_all)

text \<open>Nodes on which the next hop and the cost of a system go wrong.\<close>

lemma stale_next_hop_node:
  "\<exists>n n' reqs v s i j pfx gw. spf_ready n \<and> has_own_lsp n \<and> computeSPF (sid n) n = Inr (n', reqs) \<and>
     AvlSearch (TopoDB n') (systemIDToKey v) = Some s \<and> adj_ref s = Some i \<and>
     spf_walk n (Some j) v (unat (distance s)) \<and> (\<nexists>d. d \<le> unat (distance s) \<and> spf_walk n (Some i) v d) \<and>
     getDirectlyConnectedPrefixes (UpdateDB n) v = Inr [pfx] \<and> neighborIP (adj (interfaces n ! i)) = Some gw \<and>
     (pfx, gw) \<in> set reqs"
proof -
  define n where "n = sample_net [0, 0, 0, 100]"
  define v where "v = ''1111.1111.1114''"
  define s where "s = \<lparr>systemID = v, distance = 20, adj_ref = Some (0::nat)\<rparr>"
  obtain topo reqs where run: "computeSPF (sid n) n = Inr (n\<lparr>TopoDB := topo\<rparr>, reqs)"
    and req: "(\<lparr>IP = [10, 0, 4, 0], Mask = [255, 255, 255, 0]\<rparr>, [172, 20, 0, 3]) \<in> set reqs"
    and path: "AvlSearch topo (systemIDToKey v) = Some s"
    using stale_next_hop_run unfolding n_def sample_net_sel(1) v_def s_def by force
  from path have path': "AvlSearch (TopoDB (n\<lparr>TopoDB := topo\<rparr>)) (systemIDToKey v) = Some s" by simp
  have s: "adj_ref s = Some 0" "unat (distance s) = 20" by (simp_all add: s_def)
  have ready: "spf_ready n" unfolding n_def by (rule sample_net_ready) (simp add: sample_metrics)
  have own: "has_own_lsp n" unfolding n_def by (rule sample_net_own)
  have dear: "\<nexists>d. d \<le> unat (distance s) \<and> spf_walk n (Some 0) v d"
    using sample_net_walk [of "Some 0" v] unfolding n_def v_def s(2) by force
  have detour: "spf_walk n (Some 1) v (unat (distance s))" unfolding n_def v_def s(2) by (rule sample_net_detour)
  have hop: "neighborIP (adj (interfaces n ! 0)) = Some [172, 20, 0, 3]"
    using sample_net_adj(1) [of "[0, 0, 0, 100]"] by (auto simp: n_def adj_deref_def split: if_splits)
  have "getDirectlyConnectedPrefixes (UpdateDB n) v = Inr [\<lparr>IP = [10, 0, 4, 0], Mask = [255, 255, 255, 0]\<rparr>]"
    by (simp add: n_def v_def sample_net_sel sample_prefixes)
  with ready own run path' s(1) detour dear hop req show ?thesis by blast
qed

lemma overflow_node:
  "\<exists>n n' reqs u v s t. update_inv n \<and> lsps_full n \<and> no_self_adjacency n \<and> has_own_lsp n \<and>
     computeSPF (sid n) n = Inr (n', reqs) \<and> v \<noteq> sid n \<and> (\<forall>h d. \<not> spf_seed n h v d) \<and>
     (\<forall>w d. edge_link (AvlGetAll (UpdateDB n)) w v d \<longrightarrow> w = u \<and> d = 2 ^ 32 - 1) \<and>
     AvlSearch (TopoDB n') (systemIDToKey u) = Some s \<and> systemID s = u \<and>
     AvlSearch (TopoDB n') (systemIDToKey v) = Some t \<and> systemID t = v \<and> distance t < distance s"
proof -
  define n where "n = sample_half [0xff, 0xff, 0xff, 0xff]"
  define u v where "u = ''1111.1111.1112''" and "v = ''1111.1111.1114''"
  define s t where "s = \<lparr>systemID = u, distance = 10, adj_ref = Some (0::nat)\<rparr>"
    and "t = \<lparr>systemID = v, distance = 9, adj_ref = Some (0::nat)\<rparr>"
  obtain topo reqs where run: "computeSPF (sid n) n = Inr (n\<lparr>TopoDB := topo\<rparr>, reqs)" and
    topo: "AvlSearch topo (systemIDToKey u) = Some s" "AvlSearch topo (systemIDToKey v) = Some t"
    using overflow_run unfolding n_def u_def v_def s_def t_def sample_half_sel(1) by blast
  from topo have topo': "AvlSearch (TopoDB (n\<lparr>TopoDB := topo\<rparr>)) (systemIDToKey u) = Some s"
    "AvlSearch (TopoDB (n\<lparr>TopoDB := topo\<rparr>)) (systemIDToKey v) = Some t" by simp_all
  have inv: "update_inv n \<and> lsps_full n \<and> no_self_adjacency n \<and> has_own_lsp n"
    unfolding n_def by (rule sample_half_inv) simp
  have link: "\<forall>w d. edge_link (AvlGetAll (UpdateDB n)) w v d \<longrightarrow> w = u \<and> d = 2 ^ 32 - 1"
    by (auto simp: n_def u_def v_def edge_link_def lsp_edge_def sample_half_sel sample_half_nodes sample_facts
      sample_links sample_metrics)
  have far: "\<forall>h d. \<not> spf_seed n h v d"
    by (simp add: n_def v_def spf_seed_def seed_link_def sample_half_sel sample_net_tent)
  have "v \<noteq> sid n" by (simp add: n_def v_def sample_half_sel)
  moreover have "systemID s = u" "systemID t = v" "distance t < distance s" by (simp_all add: s_def t_def)
  ultimately show ?thesis using inv run far link topo' by blast
qed

section \<open>Properties of the decision process\<close>

text \<open>
  C9: the decision process computes shortest paths.  On a node whose own LSP is in the database, and
  whose costs cannot overflow, a run returns without a panic and changes nothing but the topology
  database, which then holds for every system that can be reached an entry with exactly the least cost of
  a walk to it, and for the node itself an entry with cost 0.  Every other entry is left from before the run.
\<close>

theorem computeSPF_shortest_paths:
  assumes "spf_ready n" and "has_own_lsp n"
  shows "\<exists>n' reqs. computeSPF (sid n) n = Inr (n', reqs) \<and> n' = n\<lparr>TopoDB := TopoDB n'\<rparr> \<and> avl_inv (TopoDB n') \<and>
    (\<forall>v d. spf_shortest n v d \<longrightarrow>
       (\<exists>t. AvlSearch (TopoDB n') (systemIDToKey v) = Some t \<and> systemID t = v \<and> unat (distance t) = d)) \<and>
    (\<forall>k t. AvlSearch (TopoDB n') k = Some t \<longrightarrow>
       k = systemIDToKey (systemID t) \<and> (if systemID t = sid n then distance t = 0
         else spf_shortest n (systemID t) (unat (distance t))) \<or>
       AvlSearch (TopoDB n) k = Some t)"
proof (rule computeSPF_ok [OF assms], goal_cases)
  case (1 paths n')
  have "\<exists>t. AvlSearch (TopoDB n') (systemIDToKey v) = Some t \<and> systemID t = v \<and> unat (distance t) = d"
    if v: "spf_shortest n v d" for v d
  proof -
    from 1(6) [OF v] obtain t where t: "t \<in> set paths" "systemID t = v" "unat (distance t) = d" by blast
    obtain s where f: "find (\<lambda>s. systemIDToKey (systemID s) = systemIDToKey (systemID t)) (rev paths) = Some s"
      "s \<in> set paths" "systemID s = systemID t" by (rule find_last_key [OF t(1) 1(8)])
    have "v \<noteq> sid n" using v walk_not_src [of "spf_seed n" _ "sid n"]
      unfolding spf_shortest_def shortest_def by (force simp: spf_seed_def seed_link_def)
    with 1(5) [OF f(2)] f(3) t(2) v have "unat (distance s) = d"
      unfolding spf_shortest_def by (auto intro: shortest_unique)
    with 1(4) [of "systemIDToKey v"] f t(2) show ?thesis by auto
  qed
  moreover have "k = systemIDToKey (systemID t) \<and> (if systemID t = sid n then distance t = 0
         else spf_shortest n (systemID t) (unat (distance t))) \<or> AvlSearch (TopoDB n) k = Some t"
    if "AvlSearch (TopoDB n') k = Some t" for k t
  proof (cases "find (\<lambda>t. systemIDToKey (systemID t) = k) (rev paths)")
    case None
    with that 1(4) [of k] show ?thesis by simp
  next
    case (Some s)
    with that 1(4) [of k] have "t = s" by simp
    moreover from Some have "s \<in> set paths" "systemIDToKey (systemID s) = k"
      by (auto simp: find_Some_iff) (metis length_rev nth_mem set_rev)
    ultimately show ?thesis using 1(5,7) by auto
  qed
  ultimately show ?thesis using 1(1-3) by blast
qed

theorem computeSPF_shortest_paths_witness:
  "spf_ready (sample_net [0, 0, 0, 100]) \<and> has_own_lsp (sample_net [0, 0, 0, 100]) \<and>
   (\<exists>n' reqs. computeSPF ''1111.1111.1111'' (sample_net [0, 0, 0, 100]) = Inr (n', reqs) \<and> avl_inv (TopoDB n'))"
proof -
  have ready: "spf_ready (sample_net [0, 0, 0, 100])" by (rule sample_net_ready) (simp add: sample_metrics)
  from computeSPF_shortest_paths [OF this sample_net_own] ready sample_net_own show ?thesis
    unfolding sample_net_sel by blast
qed

text \<open>
  C10: the routes follow shortest paths, on a node that has its own LSP in the database, is not adjacent to
  itself, has LSPs with complete TLVs only and costs that cannot overflow, when every link has the cost
  10 that the daemon always advertises.  The run returns without a panic.  Every route request is for a prefix of a reachable system, with the address of a neighbour that is the
  first hop of a shortest walk to that system as gateway; and every prefix of every reachable system is
  requested.
\<close>

theorem computeSPF_routes:
  assumes "spf_ready n" and "has_own_lsp n" and "uniform_costs n"
  shows "\<exists>n' reqs. computeSPF (sid n) n = Inr (n', reqs) \<and>
    (\<forall>pfx gw. (pfx, gw) \<in> set reqs \<longrightarrow> (\<exists>v d i pfxs. spf_shortest n v d \<and> spf_walk n (Some i) v d \<and>
       i < length (interfaces n) \<and> neighborIP (adj (interfaces n ! i)) = Some gw \<and>
       getDirectlyConnectedPrefixes (UpdateDB n) v = Inr pfxs \<and> pfx \<in> set pfxs)) \<and>
    (\<forall>v d pfxs pfx. spf_shortest n v d \<longrightarrow> getDirectlyConnectedPrefixes (UpdateDB n) v = Inr pfxs \<longrightarrow>
       pfx \<in> set pfxs \<longrightarrow> (\<exists>gw. (pfx, gw) \<in> set reqs))"
proof (rule computeSPF_ok [OF assms(1,2)], goal_cases)
  case (1 paths n')
  let ?reqs = "concat (map (requests n) (filter (\<lambda>t. systemID t \<noteq> sid n) paths))"
  have inv: "update_inv n" "lsps_full n" using assms(1) by (simp_all add: spf_ready_def)
  note walk = 1(9) [OF assms(3)]
  have prefixes: "\<exists>pfxs. getDirectlyConnectedPrefixes (UpdateDB n) v = Inr pfxs" for v
    using inv(2) prefixes_of_tlvs_total
    by (auto simp: getDirectlyConnectedPrefixes_def lsps_full_def db_abs_def lsp_full_def split: option.split)
  have sound: "\<exists>v d i pfxs. spf_shortest n v d \<and> spf_walk n (Some i) v d \<and> i < length (interfaces n) \<and>
      neighborIP (adj (interfaces n ! i)) = Some gw \<and> getDirectlyConnectedPrefixes (UpdateDB n) v = Inr pfxs \<and> pfx \<in> set pfxs"
    if req: "(pfx, gw) \<in> set ?reqs" for pfx gw
  proof -
    from req obtain t where t: "t \<in> set paths" "systemID t \<noteq> sid n" "(pfx, gw) \<in> set (requests n t)" by auto
    obtain i gw' where i: "adj_ref t = Some i" "i < length (interfaces n)" "neighborIP (adj (interfaces n ! i)) = Some gw'"
      by (rule path_requests [OF inv(1) walk [OF t(1,2)]])
    obtain pfxs where pfxs: "getDirectlyConnectedPrefixes (UpdateDB n) (systemID t) = Inr pfxs" using prefixes by blast
    from requests_eq [OF i pfxs] t(3) have "gw' = gw" "pfx \<in> set pfxs" by auto
    with i pfxs 1(5) [OF t(1,2)] walk [OF t(1,2)] show ?thesis by auto
  qed
  have complete: "\<exists>gw. (pfx, gw) \<in> set ?reqs"
    if v: "spf_shortest n v d" and pfxs: "getDirectlyConnectedPrefixes (UpdateDB n) v = Inr pfxs" and p: "pfx \<in> set pfxs"
    for v d pfxs pfx
  proof -
    from 1(6) [OF v] obtain t where t: "t \<in> set paths" "systemID t = v" by blast
    have "v \<noteq> sid n" using v walk_not_src [of "spf_seed n" _ "sid n"]
      unfolding spf_shortest_def shortest_def by (force simp: spf_seed_def seed_link_def)
    with t have ns: "systemID t \<noteq> sid n" by simp
    obtain i gw where "adj_ref t = Some i" "i < length (interfaces n)" "neighborIP (adj (interfaces n ! i)) = Some gw"
      by (rule path_requests [OF inv(1) walk [OF t(1) ns]])
    from requests_eq [OF this pfxs [folded t(2)]] p have "(pfx, gw) \<in> set (requests n t)" by simp
    with t(1) ns show ?thesis by auto
  qed
  show ?thesis using 1(1) sound complete by blast
qed

theorem computeSPF_routes_witness:
  "uniform_costs (sample_net [0, 0, 0, 10]) \<and> (\<exists>n' reqs. computeSPF ''1111.1111.1111'' (sample_net [0, 0, 0, 10]) = Inr (n', reqs))"
proof -
  have "spf_ready (sample_net [0, 0, 0, 10])" by (rule sample_net_ready) (simp add: sample_metrics)
  from computeSPF_routes [OF this sample_net_own sample_net_uniform] sample_net_uniform show ?thesis
    unfolding sample_net_sel by blast
qed

text \<open>
  C33: without the own LSP there is no routing.  When no LSP of the database has the node's system ID in
  the very spelling of the configuration, a run changes nothing and requests nothing.  A node configured
  with a spelling other than three groups of four lower-case digits (with upper-case digits, say) is in this
  state for good: LSPs, its own included, are compared in the lower-case spelling, and the configuration
  request does not check what it stores.
\<close>

theorem computeSPF_needs_own_lsp:
  assumes "update_inv n" and "lsps_full n" and "\<not> has_own_lsp n \<or> \<not> canonical_sid (sid n)"
  shows "computeSPF (sid n) n = Inr (n, [])"
  by (rule computeSPF_without_own [OF assms])

theorem computeSPF_needs_own_lsp_witness:
  "computeSPF ''AAAA.AAAA.AAAA'' ((sample_net [0, 0, 0, 10])\<lparr>sid := ''AAAA.AAAA.AAAA''\<rparr>) =
    Inr ((sample_net [0, 0, 0, 10])\<lparr>sid := ''AAAA.AAAA.AAAA''\<rparr>, [])"
proof -
  have "\<not> canonical_sid ''AAAA.AAAA.AAAA''" by code_simp
  then show ?thesis using sample_net_inv [of "[0, 0, 0, 10]"]
      computeSPF_needs_own_lsp [of "(sample_net [0, 0, 0, 10])\<lparr>sid := ''AAAA.AAAA.AAAA''\<rparr>"]
    by (simp add: update_inv_def flooding_inv_def lsps_full_def)
qed

text \<open>
  C31: the next hop of a path is not updated with its cost.  Whenever a link leads to a system that is
  already in \<^verbatim>\<open>tent\<close>, \<^verbatim>\<open>addAdjToTent\<close> adds nothing, takes the smaller of the two costs (as 32-bit sums) for
  that system, and leaves every adjacency as it is.  So in any run of the loop every candidate is
  settled with the adjacency it had in \<^verbatim>\<open>tent\<close>, however much cheaper it has become on the way.  This does give
  wrong routes: there is a node with its own LSP, complete LSPs and costs that cannot overflow, on
  which a run stores a system with the least cost of a walk to it and with an interface over which every
  walk to it is dearer, and requests the system's prefix over the neighbour on that interface.
\<close>

theorem computeSPF_stale_next_hop:
  "(\<not> checkInPaths neighbor paths \<and> list_ex (\<lambda>s. systemID neighbor = systemID s) tent \<longrightarrow>
     (\<exists>tent'. addAdjToTent cost h neighbor tent paths = (tent', 0) \<and>
        map systemID tent' = map systemID tent \<and> map adj_ref tent' = map adj_ref tent \<and>
        map distance tent' = map (\<lambda>s. if systemID neighbor = systemID s
          then min (distance s) (distance neighbor + cost) else distance s) tent)) \<and>
   (spf_loop intfs unknown tent (int (length tent)) paths = Inr result \<and> t \<in> set tent \<longrightarrow>
     (\<exists>t' \<in> set result. systemID t' = systemID t \<and> adj_ref t' = adj_ref t \<and> distance t' \<le> distance t)) \<and>
   (\<exists>n n' reqs v s i j pfx gw. spf_ready n \<and> has_own_lsp n \<and> computeSPF (sid n) n = Inr (n', reqs) \<and>
     AvlSearch (TopoDB n') (systemIDToKey v) = Some s \<and> adj_ref s = Some i \<and>
     spf_walk n (Some j) v (unat (distance s)) \<and> (\<nexists>d. d \<le> unat (distance s) \<and> spf_walk n (Some i) v d) \<and>
     getDirectlyConnectedPrefixes (UpdateDB n) v = Inr [pfx] \<and> neighborIP (adj (interfaces n ! i)) = Some gw \<and>
     (pfx, gw) \<in> set reqs)"
proof (intro conjI impI)
  let ?tent' = "map (\<lambda>s. if systemID neighbor = systemID s \<and> distance neighbor + cost < distance s
    then s\<lparr>distance := distance neighbor + cost\<rparr> else s) tent"
  assume "\<not> checkInPaths neighbor paths \<and> list_ex (\<lambda>s. systemID neighbor = systemID s) tent"
  then have "addAdjToTent cost h neighbor tent paths = (?tent', 0)" by (simp add: addAdjToTent_def)
  moreover have "map systemID ?tent' = map systemID tent" "map adj_ref ?tent' = map adj_ref tent" by simp_all
  moreover have "map distance ?tent' = map (\<lambda>s. if systemID neighbor = systemID s
      then min (distance s) (distance neighbor + cost) else distance s) tent"
    by (auto simp: min_def not_le)
  ultimately show "\<exists>tent'. addAdjToTent cost h neighbor tent paths = (tent', 0) \<and>
        map systemID tent' = map systemID tent \<and> map adj_ref tent' = map adj_ref tent \<and>
        map distance tent' = map (\<lambda>s. if systemID neighbor = systemID s
          then min (distance s) (distance neighbor + cost) else distance s) tent" by blast
next
  assume "spf_loop intfs unknown tent (int (length tent)) paths = Inr result \<and> t \<in> set tent"
  then have "kept t result" using spf_loop_kept by blast
  then show "\<exists>t' \<in> set result. systemID t' = systemID t \<and> adj_ref t' = adj_ref t \<and> distance t' \<le> distance t"
    by (simp add: kept_def)
qed (rule stale_next_hop_node)

theorem computeSPF_stale_next_hop_witness:
  "\<exists>result t'. spf_loop (interfaces (sample_net [0, 0, 0, 100]))
      [(0x1111111111120000, Some (sample_B [0, 0, 0, 100])), (0x1111111111130000, Some sample_C)]
      [\<lparr>systemID = ''1111.1111.1113'', distance = 10, adj_ref = Some 1\<rparr>,
       \<lparr>systemID = ''1111.1111.1114'', distance = 110, adj_ref = Some 0\<rparr>] 2
      [\<lparr>systemID = ''1111.1111.1111'', distance = 0, adj_ref = None\<rparr>,
       \<lparr>systemID = ''1111.1111.1112'', distance = 10, adj_ref = Some 0\<rparr>] = Inr result \<and>
    t' \<in> set result \<and> systemID t' = ''1111.1111.1114'' \<and> adj_ref t' = Some 0 \<and> distance t' = 20"
proof -
  define tent :: "Triple list" where "tent = [\<lparr>systemID = ''1111.1111.1113'', distance = 10, adj_ref = Some 1\<rparr>,
       \<lparr>systemID = ''1111.1111.1114'', distance = 110, adj_ref = Some 0\<rparr>]"
  define paths :: "Triple list" where "paths = [\<lparr>systemID = ''1111.1111.1111'', distance = 0, adj_ref = None\<rparr>,
       \<lparr>systemID = ''1111.1111.1112'', distance = 10, adj_ref = Some 0\<rparr>]"
  define result where "result = paths @ [\<lparr>systemID = ''1111.1111.1113'', distance = 10, adj_ref = Some 1\<rparr>,
       \<lparr>systemID = ''1111.1111.1114'', distance = 20, adj_ref = Some 0\<rparr>]"
  have len: "int (length tent) = 2" by (simp add: tent_def)
  have run: "spf_loop (interfaces (sample_net [0, 0, 0, 100]))
      [(0x1111111111120000, Some (sample_B [0, 0, 0, 100])), (0x1111111111130000, Some sample_C)] tent 2 paths = Inr result"
    by (simp add: tent_def paths_def result_def spf_loop_if sample_eval)
  have mem: "\<lparr>systemID = ''1111.1111.1114'', distance = 110, adj_ref = Some 0\<rparr> \<in> set tent" by (simp add: tent_def)
  from computeSPF_stale_next_hop [THEN conjunct2, THEN conjunct1, THEN mp, OF conjI, OF run [folded len] mem]
  obtain t' where t': "t' \<in> set result" "systemID t' = ''1111.1111.1114''" "adj_ref t' = Some 0" by auto
  then have "distance t' = 20" by (auto simp: result_def paths_def)
  with t' run show ?thesis unfolding tent_def paths_def by blast
qed

text \<open>
  C32: costs are 32-bit words, added without an overflow check.  When all LSPs can be read, an
  iteration of the loop panics exactly when every candidate is at the largest cost, and then on the index
  -1; so does the loop.  A system that is added to \<^verbatim>\<open>tent\<close> gets the sum of the two costs modulo 2 to the
  32: when the sum does not fit, the system ends up cheaper than the neighbour it is reached through.
  Both happen on nodes with their own LSP and complete LSPs: one on which a run panics, and one
  on which it stores a system at a lower cost than the only system that has a link to it.
\<close>

theorem computeSPF_metric_overflow:
  "((\<forall>nd \<in> set unknown. readable nd) \<longrightarrow>
     (spf_step intfs unknown tent sz paths = Inl e \<longleftrightarrow> e = IndexOutOfRange \<and> (\<forall>t \<in> set tent. distance t = - 1)) \<and>
     (0 < sz \<and> (\<forall>t \<in> set tent. distance t = - 1) \<longrightarrow> spf_loop intfs unknown tent sz paths = Inl IndexOutOfRange)) \<and>
   (\<not> checkInPaths neighbor paths \<and> \<not> list_ex (\<lambda>s. systemID neighbor = systemID s) tent \<longrightarrow>
     (\<exists>s. addAdjToTent cost h neighbor tent paths = (tent @ [s], 1) \<and> systemID s = systemID neighbor \<and> adj_ref s = h \<and>
        unat (distance s) = (unat (distance neighbor) + unat cost) mod 2 ^ 32 \<and>
        (2 ^ 32 \<le> unat (distance neighbor) + unat cost \<longrightarrow> distance s < cost))) \<and>
   (\<exists>n. update_inv n \<and> lsps_full n \<and> no_self_adjacency n \<and> has_own_lsp n \<and>
     computeSPF (sid n) n = Inl IndexOutOfRange) \<and>
   (\<exists>n n' reqs u v s t. update_inv n \<and> lsps_full n \<and> no_self_adjacency n \<and> has_own_lsp n \<and>
     computeSPF (sid n) n = Inr (n', reqs) \<and> v \<noteq> sid n \<and> (\<forall>h d. \<not> spf_seed n h v d) \<and>
     (\<forall>w d. edge_link (AvlGetAll (UpdateDB n)) w v d \<longrightarrow> w = u \<and> d = 2 ^ 32 - 1) \<and>
     AvlSearch (TopoDB n') (systemIDToKey u) = Some s \<and> systemID s = u \<and>
     AvlSearch (TopoDB n') (systemIDToKey v) = Some t \<and> systemID t = v \<and> distance t < distance s)"
proof (intro conjI impI)
  show step: "spf_step intfs unknown tent sz paths = Inl e \<longleftrightarrow> e = IndexOutOfRange \<and> (\<forall>t \<in> set tent. distance t = - 1)"
    if "\<forall>nd \<in> set unknown. readable nd" for e using spf_step_panics_iff [OF that] .
  show "spf_loop intfs unknown tent sz paths = Inl IndexOutOfRange"
    if "\<forall>nd \<in> set unknown. readable nd" "0 < sz \<and> (\<forall>t \<in> set tent. distance t = - 1)"
    using step [OF that(1), of IndexOutOfRange] that(2) by (subst spf_loop.simps) simp
next
  let ?s = "neighbor\<lparr>distance := distance neighbor + cost, adj_ref := h\<rparr>"
  assume "\<not> checkInPaths neighbor paths \<and> \<not> list_ex (\<lambda>s. systemID neighbor = systemID s) tent"
  then have "addAdjToTent cost h neighbor tent paths = (tent @ [?s], 1)" by (simp add: addAdjToTent_def)
  moreover have sum: "unat (distance ?s) = (unat (distance neighbor) + unat cost) mod 2 ^ 32"
    by (simp add: unat_word_ariths)
  moreover have "distance ?s < cost" if big: "2 ^ 32 \<le> unat (distance neighbor) + unat cost"
  proof -
    have less: "unat (distance neighbor) < 2 ^ 32" "unat cost < 2 ^ 32"
      using unsigned_less [of "distance neighbor"] unsigned_less [of cost] by simp_all
    with big have "(unat (distance neighbor) + unat cost) mod 2 ^ 32 = unat (distance neighbor) + unat cost - 2 ^ 32"
      by (subst mod_if) (subst mod_less, simp_all)
    with sum less(1) big show ?thesis unfolding word_less_nat_alt by linarith
  qed
  ultimately show "\<exists>s. addAdjToTent cost h neighbor tent paths = (tent @ [s], 1) \<and> systemID s = systemID neighbor \<and>
        adj_ref s = h \<and> unat (distance s) = (unat (distance neighbor) + unat cost) mod 2 ^ 32 \<and>
        (2 ^ 32 \<le> unat (distance neighbor) + unat cost \<longrightarrow> distance s < cost)"
    by (intro exI [of _ ?s]) simp
next
  let ?n = "sample_half [0xff, 0xff, 0xff, 0xf5]"
  have "computeSPF (sid ?n) ?n = Inl IndexOutOfRange"
    by (simp add: computeSPF_def sample_half_sel sample_net_tent sample_half_nodes sample_eval spf_loop_if)
  with sample_half_inv [of "[0xff, 0xff, 0xff, 0xf5]"]
  show "\<exists>n. update_inv n \<and> lsps_full n \<and> no_self_adjacency n \<and> has_own_lsp n \<and>
     computeSPF (sid n) n = Inl IndexOutOfRange" by (intro exI [of _ ?n]) simp
qed (rule overflow_node)

theorem computeSPF_metric_overflow_witness:
  "spf_loop [] [] [\<lparr>systemID = ''1111.1111.1112'', distance = 0xffffffff, adj_ref = Some 0\<rparr>] 1 [] = Inl IndexOutOfRange \<and>
   (\<exists>s. addAdjToTent 10 (Some 0) \<lparr>systemID = ''1111.1111.1114'', distance = 0xffffffff, adj_ref = None\<rparr> [] [] = ([s], 1) \<and>
     distance s < 10)"
proof -
  have max: "(0xffffffff :: uint32) = - 1" by simp
  from computeSPF_metric_overflow [of "[]" "[]" "[\<lparr>systemID = ''1111.1111.1112'', distance = 0xffffffff, adj_ref = Some 0\<rparr>]" 1 "[]"]
  have "spf_loop [] [] [\<lparr>systemID = ''1111.1111.1112'', distance = 0xffffffff, adj_ref = Some 0\<rparr>] 1 [] = Inl IndexOutOfRange"
    by simp
  moreover have big: "2 ^ 32 \<le> unat (0xffffffff :: uint32) + unat (10 :: uint32)" by simp
  from computeSPF_metric_overflow [of "[]" "[]" "[]" 0 "[]" IndexOutOfRange
      "\<lparr>systemID = ''1111.1111.1114'', distance = 0xffffffff, adj_ref = None\<rparr>" 10 "Some 0"]
  have "\<exists>s. addAdjToTent 10 (Some 0) \<lparr>systemID = ''1111.1111.1114'', distance = 0xffffffff, adj_ref = None\<rparr> [] [] = ([s], 1) \<and>
     distance s < 10" by (auto simp: checkInPaths_def)
  ultimately show ?thesis ..
qed

end
