(* ===== verification/Report.thy ===== *)
theory Report
  imports Decision
begin

text \<open>
  The state service: the requests \<^verbatim>\<open>GetIntf\<close>, \<^verbatim>\<open>GetLsp\<close> and \<^verbatim>\<open>GetTopo\<close> of \<^verbatim>\<open>src/main.go\<close>, the methods
  \<^verbatim>\<open>IsisLsp.String\<close> (\<^verbatim>\<open>src/update.go\<close>) and \<^verbatim>\<open>Triple.String\<close> (\<^verbatim>\<open>src/decision.go\<close>) they print with, and the parts
  of Go's \<^verbatim>\<open>fmt\<close> and \<^verbatim>\<open>net\<close> packages these use.  The lemmas relate the report of an LSP to what the decision
  process reads from it, and say when printing a database panics.
\<close>

section \<open>The library calls\<close>

text \<open>The verb \<^verbatim>\<open>%d\<close>.\<close>

fun dec :: "nat \<Rightarrow> string" where
  "dec n = (if n < 10 then [char_of (48 + n)] else dec (n div 10) @ [char_of (48 + n mod 10)])"

declare dec.simps [simp del]

fun join :: "string \<Rightarrow> string list \<Rightarrow> string" where
  "join sep [] = ''''"
| "join sep [s] = s"
| "join sep (s # t # rest) = s @ sep @ join sep (t # rest)"

text \<open>
  \<^verbatim>\<open>IP.String\<close>: dotted decimals for an IPv4 address in either form; for an IPv6 address eight groups in
  hexadecimal without leading zeros, the first longest run of at least two zero groups written as two
  colons.
\<close>

fun to_hex :: "nat \<Rightarrow> string" where
  "to_hex n = (if n < 16 then [hextable ! n] else to_hex (n div 16) @ [hextable ! (n mod 16)])"

declare to_hex.simps [simp del]

definition zero_run :: "nat list \<Rightarrow> nat \<Rightarrow> nat" where
  "zero_run gs i = length (takeWhile (\<lambda>g. g = 0) (drop i gs))"

definition longest_run :: "nat list \<Rightarrow> nat \<times> nat" where
  "longest_run gs = fold (\<lambda>i (e, l). if l < zero_run gs i then (i, zero_run gs i) else (e, l)) [0..<length gs] (0, 0)"

definition IP6_String :: "bytes \<Rightarrow> string" where
  "IP6_String ip =
     (let gs = map (\<lambda>i. unat (ip ! (2 * i)) * 256 + unat (ip ! (2 * i + 1))) [0..<8]; (e, l) = longest_run gs
      in if l < 2 then join '':'' (map to_hex gs)
         else join '':'' (map to_hex (take e gs)) @ ''::'' @ join '':'' (map to_hex (drop (e + l) gs)))"

definition IP_String :: "bytes \<Rightarrow> string" where
  "IP_String ip = (if ip = [] then ''<nil>''
     else (case To4 ip of
        Some v4 \<Rightarrow> join ''.'' (map (dec \<circ> unat) v4)
      | None \<Rightarrow> if length ip = 16 then IP6_String ip else ''?'' @ EncodeToString ip))"

definition IPMask_String :: "bytes \<Rightarrow> string" where
  "IPMask_String m = (if m = [] then ''<nil>'' else EncodeToString m)"

definition simpleMaskLength :: "bytes \<Rightarrow> nat option" where
  "simpleMaskLength m =
     (let bits = concat (map (\<lambda>b. map (bit b) [7, 6, 5, 4, 3, 2, 1, 0]) m); n = length (takeWhile id bits)
      in if list_ex id (drop n bits) then None else Some n)"

definition networkNumberAndMask :: "IPNet \<Rightarrow> (bytes \<times> bytes) option" where
  "networkNumberAndMask n =
     (let ip = (case To4 (IP n) of Some v4 \<Rightarrow> v4 | None \<Rightarrow> IP n)
      in if length ip \<noteq> 4 \<and> length ip \<noteq> 16 then None
         else if length (Mask n) = 4 then (if length ip = 4 then Some (ip, Mask n) else None)
         else if length (Mask n) = 16 then Some (ip, if length ip = 4 then drop 12 (Mask n) else Mask n)
         else None)"

definition IPNet_String :: "IPNet \<Rightarrow> string" where
  "IPNet_String n = (case networkNumberAndMask n of
     None \<Rightarrow> ''<nil>''
   | Some (ip, m) \<Rightarrow> IP_String ip @ ''/'' @
       (case simpleMaskLength m of None \<Rightarrow> IPMask_String m | Some l \<Rightarrow> dec l))"

abbreviation tab :: string where "tab \<equiv> [CHR 0x09]"
abbreviation newline :: string where "newline \<equiv> [CHR 0x0A]"

section \<open>The code\<close>

text \<open>
  The body of the loop of \<^verbatim>\<open>IsisLsp.String\<close> for one TLV.  The number of neighbours is computed in a byte, which
  wraps around for length 0, and of a neighbour's metric only the last byte is printed.
\<close>

definition prefix_line :: "IPNet \<Rightarrow> nat \<Rightarrow> string" where
  "prefix_line p cost = tab @ tab @ IPNet_String p @ '' Metric '' @ dec cost @ newline"

definition neighbor_line :: "string \<Rightarrow> nat \<Rightarrow> string" where
  "neighbor_line s cost = tab @ tab @ s @ '' Metric '' @ dec cost @ newline"

definition reach_lines :: "IsisTLV \<Rightarrow> nat \<Rightarrow> string res" where
  "reach_lines tlv i =
     bind_res (value_slice tlv (i * 12) (i * 12 + 4)) (\<lambda>ip.
     bind_res (value_slice tlv (i * 12 + 4) (i * 12 + 8)) (\<lambda>m.
     bind_res (value_slice tlv (i * 12 + 8) (i * 12 + 12)) (\<lambda>metric.
       Inr (prefix_line \<lparr>IP = ip, Mask = m\<rparr> (unat (BigEndian_Uint32 metric))))))"

definition neighbor_lines :: "IsisTLV \<Rightarrow> nat \<Rightarrow> string res" where
  "neighbor_lines tlv i =
     bind_res (if i * 11 + 4 < length (valueTLV tlv) then Inr (valueTLV tlv ! (i * 11 + 4)) else Inl IndexOutOfRange) (\<lambda>metric.
     bind_res (value_slice tlv (i * 11 + 1 + 4) (i * 11 + 1 + 4 + 6)) (\<lambda>s.
       Inr (neighbor_line (systemIDToString s) (unat metric))))"

definition tlv_string :: "IsisTLV \<Rightarrow> string res" where
  "tlv_string tlv =
     bind_res (if unat (typeTLV tlv) = ISIS_IP_INTERNAL_REACH_TLV then
         map_res (reach_lines tlv) [0..<unat (lengthTLV tlv) div 12]
       else if unat (typeTLV tlv) = ISIS_NEIGHBORS_TLV then
         map_res (neighbor_lines tlv) [0..<unat (lengthTLV tlv - 1) div 11]
       else Inr []) (\<lambda>lines.
     Inr (tab @ ''TLV '' @ dec (unat (typeTLV tlv)) @ newline @
       tab @ ''TLV size '' @ dec (unat (lengthTLV tlv)) @ newline @ concat lines))"

definition lsp_String :: "IsisLsp \<Rightarrow> string res" where
  "lsp_String lsp = bind_res (map_res (tlv_string) (FirstTLV (CoreLsp lsp))) (\<lambda>tlvs.
     Inr (systemIDToString (take 6 (LspID lsp)) @ concat tlvs))"

definition Triple_String :: "Intf list \<Rightarrow> Triple \<Rightarrow> string res" where
  "Triple_String intfs t = (case adj_ref t of
     None \<Rightarrow> Inr (''SystemID '' @ systemID t @ '' Distance '' @ dec (unat (distance t)) @ '' Next Hop <nil>'')
   | Some p \<Rightarrow> bind_res (adj_deref intfs p) (\<lambda>a.
       Inr (''SystemID '' @ systemID t @ '' Distance '' @ dec (unat (distance t)) @ '' Next Hop '' @
         systemIDToString (neighborSystemID a) @ '' Intf '' @ intfName a)))"

text \<open>The requests.  Their arguments are not looked at.\<close>

definition GetIntf :: "node \<Rightarrow> string list" where
  "GetIntf n = map (\<lambda>intf.
     IP_String (prefix intf) @ '' '' @ IPMask_String (mask intf) @ '', adjacency '' @ state (adj intf) @
     (if state (adj intf) \<noteq> ''UP'' then '''' else '' with '' @ systemIDToString (neighborSystemID (adj intf)))) (interfaces n)"

definition GetLsp :: "node \<Rightarrow> string list res" where
  "GetLsp n = map_res (\<lambda>nd. bind_res (lsp_data nd) (lsp_String)) (AvlGetAll (UpdateDB n))"

definition GetTopo :: "node \<Rightarrow> string list res" where
  "GetTopo n =
     bind_res (map_res (\<lambda>nd. case snd nd of None \<Rightarrow> Inl TypeAssertion | Some t \<Rightarrow> Triple_String (interfaces n) t)
       (AvlGetAll (TopoDB n))) (\<lambda>lines. Inr (sid n # lines))"

section \<open>What the report of an LSP shows\<close>

lemma getNeighbors_loop_nth:
  "cur + 11 * k \<le> length (valueTLV tlv) \<Longrightarrow> getNeighbors_loop k tlv cur =
    Inr (map (\<lambda>i. \<lparr>systemID_nbr = systemIDToString (take 6 (drop (cur + 11 * i + 4) (valueTLV tlv))),
      metric_nbr = BigEndian_Uint32 (take 4 (drop (cur + 11 * i) (valueTLV tlv)))\<rparr>) [0..<k])"
proof (induction k arbitrary: cur)
  case (Suc k)
  from Suc.IH [of "cur + 11"] Suc.prems show ?case
    by (simp add: value_slice_ok map_upt_Suc ac_simps del: upt_Suc)
qed simp

lemma getPrefixes_loop_nth:
  "12 * (cur + k) \<le> length (valueTLV tlv) \<Longrightarrow> getPrefixes_loop k tlv cur =
    Inr (map (\<lambda>i. \<lparr>IP = take 4 (drop ((cur + i) * 12) (valueTLV tlv)), Mask = take 4 (drop ((cur + i) * 12 + 4) (valueTLV tlv))\<rparr>)
      [0..<k])"
proof (induction k arbitrary: cur)
  case (Suc k)
  from Suc.IH [of "cur + 1"] Suc.prems show ?case
    by (simp add: value_slice_ok map_upt_Suc ac_simps del: upt_Suc)
qed simp

lemma low_byte:
  assumes "length m = 4"
  shows "unat (BigEndian_Uint32 m) mod 256 = unat (m ! 3)"
proof -
  from assms obtain a b c d where m: "m = [a, b, c, d]" by (auto simp: length_Suc_conv numeral_eq_Suc)
  let ?N = "((unat a * 256 + unat b) * 256 + unat c) * 256 + unat d"
  have "unat d < 256" by (rule order.strict_trans2 [OF unsigned_less]) simp
  then have N: "?N mod 256 = unat d" by (simp only: mod_mult_self3 mod_less)
  have "BigEndian_Uint32 m = word_of_nat ?N" unfolding m BigEndian_Uint32_def be_nat_def by simp
  then have "unat (BigEndian_Uint32 m) = ?N mod 2 ^ 32" by (simp only: unat_of_nat len_of_numeral_defs) simp
  moreover have "?N mod 2 ^ 32 mod 256 = ?N mod 256" by (rule mod_mod_cancel) simp
  ultimately show ?thesis using N by (simp add: m)
qed

text \<open>
  The report in terms of what the decision process reads from the same TLVs: every neighbour with the last
  byte of its metric, every prefix with its metric.
\<close>

definition tlv_report :: "IsisTLV \<Rightarrow> string" where
  "tlv_report tlv =
     tab @ ''TLV '' @ dec (unat (typeTLV tlv)) @ newline @
     tab @ ''TLV size '' @ dec (unat (lengthTLV tlv)) @ newline @
     (if unat (typeTLV tlv) = ISIS_IP_INTERNAL_REACH_TLV then
        (case getPrefixesFromTLV tlv of Inl e \<Rightarrow> ''''
         | Inr ps \<Rightarrow> concat (map (\<lambda>i. prefix_line (ps ! i)
             (unat (BigEndian_Uint32 (take 4 (drop (i * 12 + 8) (valueTLV tlv)))))) [0..<length ps]))
      else if unat (typeTLV tlv) = ISIS_NEIGHBORS_TLV then
        (case getNeighbors tlv of Inl e \<Rightarrow> ''''
         | Inr nbrs \<Rightarrow> concat (map (\<lambda>nbr. neighbor_line (systemID_nbr nbr) (unat (metric_nbr nbr) mod 256)) nbrs))
      else '''')"

definition empty_neighbors_tlv :: "IsisTLV \<Rightarrow> bool" where
  "empty_neighbors_tlv tlv \<longleftrightarrow> unat (typeTLV tlv) = ISIS_NEIGHBORS_TLV \<and> lengthTLV tlv = 0 \<and> length (valueTLV tlv) < 253"

lemma neighbor_lines_eq:
  assumes "i * 11 + 11 \<le> length (valueTLV tlv)"
  shows "neighbor_lines tlv i = Inr (neighbor_line (systemIDToString (take 6 (drop (i * 11 + 5) (valueTLV tlv))))
    (unat (valueTLV tlv ! (i * 11 + 4))))"
  using assms by (simp add: neighbor_lines_def value_slice_ok add.commute)

lemma neighbor_metric_byte:
  assumes "i * 11 + 11 \<le> length v"
  shows "unat (BigEndian_Uint32 (take 4 (drop (1 + 11 * i) v))) mod 256 = unat (v ! (i * 11 + 4))"
  using low_byte [of "take 4 (drop (1 + 11 * i) v)"] assms by (simp add: ac_simps)

lemma unat_pred_byte: "b \<noteq> 0 \<Longrightarrow> unat (b - 1 :: byte) = unat b - 1"
  by (simp add: unat_sub word_le_nat_alt unat_gt_0 Suc_leI)

lemma tlv_string_neighbors:
  assumes "tlv_full tlv" "lengthTLV tlv \<noteq> 0" "unat (typeTLV tlv) = ISIS_NEIGHBORS_TLV"
  shows "tlv_string tlv = Inr (tlv_report tlv)"
proof -
  let ?k = "(unat (lengthTLV tlv) - 1) div 11" and ?v = "valueTLV tlv"
  have len: "unat (lengthTLV tlv) \<noteq> 0" using assms(2) by (simp add: unat_eq_zero)
  then have k: "1 + 11 * ?k \<le> length ?v"
    using assms(1) times_div_less_eq_dividend [of 11 "unat (lengthTLV tlv) - 1"] unfolding tlv_full_def by linarith
  have nbrs: "getNeighbors tlv = Inr (map (\<lambda>i. \<lparr>systemID_nbr = systemIDToString (take 6 (drop (1 + 11 * i + 4) ?v)),
      metric_nbr = BigEndian_Uint32 (take 4 (drop (1 + 11 * i) ?v))\<rparr>) [0..<?k])"
    unfolding getNeighbors_def by (rule getNeighbors_loop_nth [OF k])
  have "neighbor_lines tlv i = Inr (neighbor_line (systemIDToString (take 6 (drop (1 + 11 * i + 4) ?v)))
      (unat (BigEndian_Uint32 (take 4 (drop (1 + 11 * i) ?v))) mod 256))" if "i \<in> set [0..<?k]" for i
  proof -
    have "11 * Suc i \<le> 11 * ?k" using that by (intro mult_le_mono2) auto
    with k have "i * 11 + 11 \<le> length ?v" by simp
    from neighbor_lines_eq [OF this] neighbor_metric_byte [OF this] show ?thesis by (simp add: ac_simps)
  qed
  from map_res_Inr_pure [where xs = "[0..<?k]" and f = "neighbor_lines tlv", OF this] show ?thesis
    using assms(3) by (simp add: tlv_string_def tlv_report_def nbrs unat_pred_byte [OF assms(2)] comp_def
      ISIS_NEIGHBORS_TLV_def ISIS_IP_INTERNAL_REACH_TLV_def)
qed

lemma tlv_string_reach:
  assumes "tlv_full tlv" "unat (typeTLV tlv) = ISIS_IP_INTERNAL_REACH_TLV"
  shows "tlv_string tlv = Inr (tlv_report tlv)"
proof -
  let ?k = "unat (lengthTLV tlv) div 12" and ?v = "valueTLV tlv"
  have k: "12 * (0 + ?k) \<le> length ?v"
    using assms(1) times_div_less_eq_dividend [of 12 "unat (lengthTLV tlv)"] unfolding tlv_full_def by simp
  have ps: "getPrefixesFromTLV tlv = Inr (map (\<lambda>i. \<lparr>IP = take 4 (drop ((0 + i) * 12) ?v), Mask = take 4 (drop ((0 + i) * 12 + 4) ?v)\<rparr>) [0..<?k])"
    unfolding getPrefixesFromTLV_def by (rule getPrefixes_loop_nth [OF k])
  have "reach_lines tlv i = Inr (prefix_line \<lparr>IP = take 4 (drop (i * 12) ?v), Mask = take 4 (drop (i * 12 + 4) ?v)\<rparr>
      (unat (BigEndian_Uint32 (take 4 (drop (i * 12 + 8) ?v)))))" if "i \<in> set [0..<?k]" for i
  proof -
    have "12 * Suc i \<le> 12 * ?k" using that by (intro mult_le_mono2) auto
    with k show ?thesis by (simp add: reach_lines_def value_slice_ok)
  qed
  from map_res_Inr_pure [where xs = "[0..<?k]" and f = "reach_lines tlv", OF this] show ?thesis
    using assms(2) by (simp add: tlv_string_def tlv_report_def ps) (intro arg_cong [where f = concat] map_cong refl, simp)
qed

text \<open>The report of an LSP in which every neighbours TLV has a length.\<close>

definition neighbors_counted :: "IsisLsp \<Rightarrow> bool" where
  "neighbors_counted lsp \<longleftrightarrow>
     list_all (\<lambda>tlv. unat (typeTLV tlv) = ISIS_NEIGHBORS_TLV \<longrightarrow> lengthTLV tlv \<noteq> 0) (FirstTLV (CoreLsp lsp))"

definition lsp_report :: "IsisLsp \<Rightarrow> string" where
  "lsp_report lsp = systemIDToString (take 6 (LspID lsp)) @ concat (map tlv_report (FirstTLV (CoreLsp lsp)))"

lemma lsp_String_report:
  assumes "lsp_full lsp" "neighbors_counted lsp"
  shows "lsp_String lsp = Inr (lsp_report lsp)"
proof -
  have "tlv_string tlv = Inr (tlv_report tlv)" if "tlv \<in> set (FirstTLV (CoreLsp lsp))" for tlv
  proof -
    have tlv: "tlv_full tlv" "unat (typeTLV tlv) = ISIS_NEIGHBORS_TLV \<Longrightarrow> lengthTLV tlv \<noteq> 0"
      using that assms by (simp_all add: lsp_full_def neighbors_counted_def list_all_iff)
    then show ?thesis
      using tlv_string_reach [OF tlv(1)] tlv_string_neighbors [OF tlv(1)]
      by (cases "unat (typeTLV tlv) = ISIS_IP_INTERNAL_REACH_TLV"; cases "unat (typeTLV tlv) = ISIS_NEIGHBORS_TLV")
        (simp_all add: tlv_string_def tlv_report_def)
  qed
  from map_res_Inr_pure [where f = tlv_string and xs = "FirstTLV (CoreLsp lsp)", OF this]
  show ?thesis by (simp add: lsp_String_def lsp_report_def)
qed

lemma counted_not_empty: "neighbors_counted lsp \<Longrightarrow> \<not> list_ex empty_neighbors_tlv (FirstTLV (CoreLsp lsp))"
  by (auto simp: neighbors_counted_def empty_neighbors_tlv_def list_all_iff list_ex_iff)

text \<open>The decision process reads the first TLV of each kind only.\<close>

lemma lookupNeighbors_first:
  "lookupNeighbors lsp = (case find (\<lambda>tlv. unat (typeTLV tlv) = ISIS_NEIGHBORS_TLV) (FirstTLV (CoreLsp lsp)) of
     None \<Rightarrow> Inr [] | Some tlv \<Rightarrow> getNeighbors tlv)"
proof -
  have "lookupNeighbors_loop tlvs = (case find (\<lambda>tlv. unat (typeTLV tlv) = ISIS_NEIGHBORS_TLV) tlvs of
     None \<Rightarrow> Inr [] | Some tlv \<Rightarrow> getNeighbors tlv)" for tlvs by (induction tlvs) simp_all
  then show ?thesis by (simp add: lookupNeighbors_def)
qed

lemma prefixes_of_tlvs_first:
  "prefixes_of_tlvs tlvs = (case find (\<lambda>tlv. unat (typeTLV tlv) = ISIS_IP_INTERNAL_REACH_TLV) tlvs of
     None \<Rightarrow> Inr [] | Some tlv \<Rightarrow> getPrefixesFromTLV tlv)"
  by (induction tlvs) simp_all

lemma tlv_string_panics:
  assumes "empty_neighbors_tlv tlv"
  shows "\<exists>e. tlv_string tlv = Inl e"
proof -
  have t: "unat (typeTLV tlv) = 2" "lengthTLV tlv = 0" "length (valueTLV tlv) < 253"
    using assms by (simp_all add: empty_neighbors_tlv_def ISIS_NEIGHBORS_TLV_def)
  have "unat (lengthTLV tlv - 1) div 11 = 23" by (simp add: t(2) unsigned_minus_1_eq_mask mask_eq_exp_minus_1)
  moreover have "22 \<in> set [0..<23]" "\<nexists>y. neighbor_lines tlv 22 = Inr y"
    using t(3) by (auto simp: neighbor_lines_def value_slice_def reslice_def)
  ultimately have "\<nexists>ys. map_res (neighbor_lines tlv) [0..<unat (lengthTLV tlv - 1) div 11] = Inr ys"
    unfolding map_res_returns by metis
  then obtain e where "map_res (neighbor_lines tlv) [0..<unat (lengthTLV tlv - 1) div 11] = Inl e"
    by (meson sum.exhaust)
  with t(1) show ?thesis by (simp add: tlv_string_def ISIS_NEIGHBORS_TLV_def ISIS_IP_INTERNAL_REACH_TLV_def)
qed

lemma tlv_string_wrapped:
  assumes "unat (typeTLV tlv) = ISIS_NEIGHBORS_TLV" "lengthTLV tlv = 0" "253 \<le> length (valueTLV tlv)"
  shows "\<exists>r. tlv_string tlv = Inr r"
proof -
  have "unat (lengthTLV tlv - 1) div 11 = 23" by (simp add: assms(2) unsigned_minus_1_eq_mask mask_eq_exp_minus_1)
  moreover have "\<exists>y. neighbor_lines tlv i = Inr y" if "i \<in> set [0..<23]" for i
    using neighbor_lines_eq [of i tlv] that assms(3) by auto
  ultimately have "\<exists>ys. map_res (neighbor_lines tlv) [0..<unat (lengthTLV tlv - 1) div 11] = Inr ys"
    unfolding map_res_returns by metis
  with assms(1) show ?thesis by (auto simp: tlv_string_def ISIS_NEIGHBORS_TLV_def ISIS_IP_INTERNAL_REACH_TLV_def)
qed

lemma tlv_string_returns:
  assumes "tlv_full tlv"
  shows "(\<exists>r. tlv_string tlv = Inr r) \<longleftrightarrow> \<not> empty_neighbors_tlv tlv"
proof (cases "unat (typeTLV tlv) = ISIS_NEIGHBORS_TLV")
  case True
  then show ?thesis
    using tlv_string_panics [of tlv] tlv_string_wrapped [OF True] tlv_string_neighbors [OF assms _ True]
    by (cases "lengthTLV tlv = 0"; cases "length (valueTLV tlv) < 253") (auto simp: empty_neighbors_tlv_def)
next
  case False
  then show ?thesis using tlv_string_reach [OF assms]
    by (cases "unat (typeTLV tlv) = ISIS_IP_INTERNAL_REACH_TLV") (auto simp: empty_neighbors_tlv_def tlv_string_def)
qed

lemma GetLsp_returns:
  assumes inv: "update_inv n" "lsps_full n"
  shows "(\<exists>r. GetLsp n = Inr r) \<longleftrightarrow>
    \<not> (\<exists>k lsp. db_abs (UpdateDB n) k = Some lsp \<and> list_ex empty_neighbors_tlv (FirstTLV (CoreLsp lsp)))"
proof -
  have lsp: "(\<exists>r. lsp_String lsp = Inr r) \<longleftrightarrow> \<not> list_ex empty_neighbors_tlv (FirstTLV (CoreLsp lsp))"
    if "lsp_full lsp" for lsp
  proof -
    have "(\<exists>r. lsp_String lsp = Inr r) \<longleftrightarrow> (\<exists>ys. map_res (tlv_string) (FirstTLV (CoreLsp lsp)) = Inr ys)"
      by (auto simp: lsp_String_def res_simps)
    also have "\<dots> \<longleftrightarrow> (\<forall>tlv \<in> set (FirstTLV (CoreLsp lsp)). \<not> empty_neighbors_tlv tlv)"
      unfolding map_res_returns using that tlv_string_returns by (simp add: lsp_full_def list_all_iff)
    finally show ?thesis by (simp add: list_ex_iff)
  qed
  have "(\<exists>r. GetLsp n = Inr r) \<longleftrightarrow> (\<forall>x \<in> set (AvlGetAll (UpdateDB n)). \<exists>y. bind_res (lsp_data x) (lsp_String) = Inr y)"
    unfolding GetLsp_def map_res_returns ..
  also have "\<dots> \<longleftrightarrow> (\<forall>x \<in> set (AvlGetAll (UpdateDB n)). \<forall>lsp. snd x = Some lsp \<longrightarrow>
      \<not> list_ex empty_neighbors_tlv (FirstTLV (CoreLsp lsp)))"
  proof (intro ball_cong refl)
    fix x assume "x \<in> set (AvlGetAll (UpdateDB n))"
    then obtain l where "snd x = Some l" "lsp_full l" by (rule database_nodes [OF inv])
    with lsp show "(\<exists>y. bind_res (lsp_data x) (lsp_String) = Inr y) \<longleftrightarrow>
        (\<forall>lsp. snd x = Some lsp \<longrightarrow> \<not> list_ex empty_neighbors_tlv (FirstTLV (CoreLsp lsp)))" by (simp add: lsp_data_def)
  qed
  also have "\<dots> \<longleftrightarrow> \<not> (\<exists>k lsp. db_abs (UpdateDB n) k = Some lsp \<and> list_ex empty_neighbors_tlv (FirstTLV (CoreLsp lsp)))"
    using inv(1) by (force simp: update_inv_def updatedb_inv_def db_abs_def avl.get_eq_Some)
  finally show ?thesis .
qed

end
