(* ===== verification/Daemon.thy ===== *)
theory Daemon
  imports Hello Report Transition
begin

text \<open>
  The daemon as a whole: the goroutines that \<^verbatim>\<open>main\<close> of \<^verbatim>\<open>src/main.go\<close> starts, composed over the state of the
  node.  An event is one iteration of one goroutine, or one request to the gRPC server (the configuration
  request and the four state requests); the frames it sends, the routes it requests and the replies it
  gives are its outputs.

  An iteration is one step, also where the code holds no lock over all of it: \<^verbatim>\<open>isisHelloRecv\<close> sets the state
  of the adjacency before the neighbour's ID and address (\<^verbatim>\<open>src/hello.go\<close>, lines 239 to 244), and \<^verbatim>\<open>generateLocalLsp\<close>
  changes the sequence number and reads the adjacencies (\<^verbatim>\<open>src/update.go\<close>, lines 409 to 415).  Sockets are open,
  and the lookup of a hardware address succeeds: \<open>getMac\<close> is a total function here.  What happens
  without them is in the theory \<^verbatim>\<open>Sockets\<close>.

  Channels are unbuffered.  The hello and update channels hand a received frame from \<^verbatim>\<open>recvPdus\<close> to its
  process, and the send channels hand frames to \<^verbatim>\<open>sendPdus\<close>, with nothing in between.  On \<^verbatim>\<open>triggerSPF\<close> the
  update-input goroutine of an interface waits until a decision goroutine takes its value; \<open>pending\<close> holds
  the value it offers, and until it is taken the goroutine does not receive another LSP.
\<close>

section \<open>The code\<close>

record daemon =
  nd :: node
  pending :: "nat \<rightharpoonup> bool"

datatype request = SystemIDRequest | IntfRequest | LspRequest | TopoRequest

datatype event =
    Configure string
  | Request request
  | HelloTimer nat
  | FloodTimer nat "uint64 list"
  | FrameIn nat go_slice
  | RunSPF nat

datatype effect = FrameOut nat bytes | RouteAdd route_request | Reply "string list"

text \<open>The four state requests.\<close>

definition answer :: "request \<Rightarrow> node \<Rightarrow> string list res" where
  "answer req n = (case req of
     SystemIDRequest \<Rightarrow> Inr [GetSystemID n]
   | IntfRequest \<Rightarrow> Inr (GetIntf n)
   | LspRequest \<Rightarrow> GetLsp n
   | TopoRequest \<Rightarrow> GetTopo n)"

text \<open>
  What can happen: a request, the timers of an interface's two periodic goroutines (the flooding goroutine
  visits the keys of the flood-state map in any order), a frame from the wire, and the decision
  goroutine taking a trigger.
\<close>

definition enabled :: "event \<Rightarrow> daemon \<Rightarrow> bool" where
  "enabled ev d = (case ev of
     Configure s \<Rightarrow> True
   | Request req \<Rightarrow> True
   | HelloTimer i \<Rightarrow> i < length (interfaces (nd d))
   | FloodTimer i ks \<Rightarrow> i < length (interfaces (nd d)) \<and> distinct ks \<and>
       set ks = dom (lspFloodStates (interfaces (nd d) ! i))
   | FrameIn i raw \<Rightarrow> i < length (interfaces (nd d)) \<and> (recvPdus_dispatch raw = Inr UpdateChan \<longrightarrow> pending d i = None)
   | RunSPF i \<Rightarrow> pending d i \<noteq> None)"

definition handle :: "(string \<Rightarrow> bytes) \<Rightarrow> event \<Rightarrow> daemon \<Rightarrow> (daemon \<times> effect list) res" where
  "handle getMac ev d = (case ev of
     Configure s \<Rightarrow> (case ConfigureSystemID (nd d) s of (n, ack) \<Rightarrow> Inr (d\<lparr>nd := n\<rparr>, [Reply [ack]]))
   | Request req \<Rightarrow> bind_res (answer req (nd d)) (\<lambda>lines. Inr (d, [Reply lines]))
   | HelloTimer i \<Rightarrow> bind_res (isisHelloSend_step getMac i (nd d)) (\<lambda>sent. Inr (d, map (FrameOut i) sent))
   | FloodTimer i ks \<Rightarrow> bind_res (isisUpdate_step getMac ks i (nd d)) (\<lambda>(n, sent).
       Inr (d\<lparr>nd := n\<rparr>, map (FrameOut i) sent))
   | FrameIn i raw \<Rightarrow> bind_res (recvPdus_dispatch raw) (\<lambda>chan.
       case chan of
         Dropped \<Rightarrow> Inr (d, [])
       | HelloChan \<Rightarrow> bind_res (isisHelloRecv_step getMac i raw (nd d)) (\<lambda>(n, sent).
           Inr (d\<lparr>nd := n\<rparr>, map (FrameOut i) sent))
       | UpdateChan \<Rightarrow> bind_res (isisUpdateInput_step (name (interfaces (nd d) ! i)) raw (nd d)) (\<lambda>(n, spf).
           Inr (d\<lparr>nd := n, pending := (pending d)(i \<mapsto> spf)\<rparr>, [])))
   | RunSPF i \<Rightarrow> (case pending d i of
       None \<Rightarrow> Inr (d, [])
     | Some spf \<Rightarrow> bind_res (isisDecision_step spf (nd d)) (\<lambda>(n, reqs).
         Inr (d\<lparr>nd := n, pending := (pending d)(i := None)\<rparr>, map RouteAdd reqs))))"

definition start :: "(string \<Rightarrow> IPNet option list) \<Rightarrow> string + net_iface list \<Rightarrow> daemon res" where
  "start routeList net_interfaces =
     bind_res (boot routeList net_interfaces) (\<lambda>n. Inr \<lparr>nd = n, pending = Map.empty\<rparr>)"

section \<open>The invariant of the daemon\<close>

text \<open>
  The databases are search trees whose nodes hold data of the right type under the right key, every LSP
  and every adjacency is complete, every pointer from a path to an adjacency is valid, and every connected
  route is an IPv4 prefix.
\<close>

definition topo_inv :: "node \<Rightarrow> bool" where
  "topo_inv n \<longleftrightarrow> avl_inv (TopoDB n) \<and> (\<forall>k d. (k, d) \<in> set (AvlGetAll (TopoDB n)) \<longrightarrow>
     (\<exists>t. d = Some t \<and> k = systemIDToKey (systemID t) \<and>
       (\<forall>p. adj_ref t = Some p \<longrightarrow> p < length (interfaces n))))"

definition v4_route :: "IPNet \<Rightarrow> bool" where
  "v4_route r \<longleftrightarrow> length (IP r) = 4 \<and> length (Mask r) = 4"

definition routes_v4 :: "(string \<Rightarrow> IPNet option list) \<Rightarrow> bool" where
  "routes_v4 routeList \<longleftrightarrow> (\<forall>ifname r. Some r \<in> set (routeList ifname) \<longrightarrow> v4_route r)"

definition routes_inv :: "Intf list \<Rightarrow> bool" where
  "routes_inv intfs \<longleftrightarrow> list_all v4_route (connected_routes intfs)"

definition node_inv :: "node \<Rightarrow> bool" where
  "node_inv n \<longleftrightarrow> update_inv n \<and> lsps_full n \<and> topo_inv n \<and> routes_inv (interfaces n)"

section \<open>The paths of a well-formed node can be printed\<close>

definition path_report :: "Intf list \<Rightarrow> Triple \<Rightarrow> string" where
  "path_report intfs t = ''SystemID '' @ systemID t @ '' Distance '' @ dec (unat (distance t)) @ '' Next Hop '' @
     (case adj_ref t of None \<Rightarrow> ''<nil>''
      | Some p \<Rightarrow> systemIDToString (neighborSystemID (adj (intfs ! p))) @ '' Intf '' @ intfName (adj (intfs ! p)))"

lemma GetTopo_report:
  assumes "topo_inv n"
  shows "GetTopo n = Inr (sid n # map (\<lambda>x. path_report (interfaces n) (the (snd x))) (AvlGetAll (TopoDB n)))"
proof -
  have "(case snd x of None \<Rightarrow> Inl TypeAssertion | Some t \<Rightarrow> Triple_String (interfaces n) t) =
      Inr (path_report (interfaces n) (the (snd x)))" if "x \<in> set (AvlGetAll (TopoDB n))" for x
  proof -
    obtain k d where x: "x = (k, d)" by fastforce
    with assms that obtain t where "d = Some t" "\<forall>p. adj_ref t = Some p \<longrightarrow> p < length (interfaces n)"
      unfolding topo_inv_def by blast
    with x show ?thesis by (simp add: Triple_String_def path_report_def adj_deref_def split: option.split)
  qed
  from map_res_Inr_pure [where xs = "AvlGetAll (TopoDB n)", OF this] show ?thesis by (simp add: GetTopo_def)
qed

section \<open>Every event keeps the invariant\<close>

lemma node_inv_sid [simp]: "node_inv (n\<lparr>sid := s\<rparr>) = node_inv n"
  by (simp add: node_inv_def update_inv_def flooding_inv_def lsps_full_def topo_inv_def)

text \<open>
  What no event undoes: interfaces stay as they are but for adjacencies and flood states, an adjacency that
  is up stays up, no LSP leaves the database, and but for the own one no LSP is replaced by an older one.
\<close>

definition intf_static :: "Intf \<Rightarrow> string \<times> bytes \<times> bytes \<times> IPNet option list" where
  "intf_static intf = (name intf, prefix intf, mask intf, routes intf)"

definition ups :: "node \<Rightarrow> nat set" where
  "ups n = {i. i < length (interfaces n) \<and> state (adj (interfaces n ! i)) = ''UP''}"

definition no_older :: "uint64 \<Rightarrow> node \<Rightarrow> node \<Rightarrow> bool" where
  "no_older k n n' \<longleftrightarrow> (\<forall>l. db_abs (UpdateDB n) k = Some l \<longrightarrow>
     (\<exists>l'. db_abs (UpdateDB n') k = Some l' \<and> lsp_seq l \<le> lsp_seq l'))"

definition evolves :: "node \<Rightarrow> node \<Rightarrow> bool" where
  "evolves n n' \<longleftrightarrow> map intf_static (interfaces n') = map intf_static (interfaces n) \<and> ups n \<subseteq> ups n' \<and>
     dom (db_abs (UpdateDB n)) \<subseteq> dom (db_abs (UpdateDB n')) \<and> (\<forall>k. k \<noteq> systemIDToKey (sid n) \<longrightarrow> no_older k n n')"

lemma evolves_refl [simp]: "evolves n n"
  by (simp add: evolves_def no_older_def)

lemma evolves_same:
  "map intf_static (interfaces n') = map intf_static (interfaces n) \<Longrightarrow> ups n \<subseteq> ups n' \<Longrightarrow> UpdateDB n' = UpdateDB n \<Longrightarrow> evolves n n'"
  by (simp add: evolves_def no_older_def)

lemma static_facts:
  assumes "map intf_static intfs' = map intf_static intfs"
  shows "map name intfs' = map name intfs" "map routes intfs' = map routes intfs" "length intfs' = length intfs"
    "connected_routes intfs' = connected_routes intfs"
proof -
  from arg_cong [OF assms, of "map fst"] show "map name intfs' = map name intfs" by (simp add: intf_static_def comp_def)
  from arg_cong [OF assms, of "map (snd \<circ> snd \<circ> snd)"] show "map routes intfs' = map routes intfs"
    by (simp add: intf_static_def comp_def)
  then show "connected_routes intfs' = connected_routes intfs" by (simp add: connected_routes_def)
  from arg_cong [OF assms, of length] show "length intfs' = length intfs" by simp
qed

lemma intf_static_ops [simp]:
  "intf_static (set_srm k b srm intf) = intf_static intf" "intf_static (clear_srm intf) = intf_static intf"
  "intf_static (intf\<lparr>adj := a\<rparr>) = intf_static intf"
  by (simp_all add: intf_static_def set_srm_def clear_srm_def split: option.split)

text \<open>A change of interfaces that keeps their number and routes, and new LSPs that are complete.\<close>

lemma node_inv_update:
  assumes "node_inv n" "update_inv n'" "evolves n n'" "TopoDB n' = TopoDB n"
    and "\<And>k lsp. db_abs (UpdateDB n') k = Some lsp \<Longrightarrow> db_abs (UpdateDB n) k = Some lsp \<or> lsp_full lsp"
  shows "node_inv n'"
proof -
  have "map intf_static (interfaces n') = map intf_static (interfaces n)" using assms(3) by (simp add: evolves_def)
  from static_facts [OF this] show ?thesis using assms(1,2,4,5)
    by (auto simp: node_inv_def lsps_full_def topo_inv_def routes_inv_def)
qed

lemma up_neighbors_length: "update_inv n \<Longrightarrow> \<forall>s \<in> set (up_neighbors (interfaces n)). length s = 6"
  by (auto simp: up_neighbors_def update_inv_def flooding_inv_def intf_inv_def adj_inv_def)

lemma generateLocalLsp_node:
  assumes "node_inv n" "generateLocalLsp n = Inr n'"
  shows "node_inv n' \<and> evolves n n' \<and> map adj (interfaces n') = map adj (interfaces n) \<and> sid n' = sid n"
proof -
  have inv: "update_inv n" "routes_inv (interfaces n)" using assms(1) by (simp_all add: node_inv_def)
  have full: "lsp_full (local_lsp seq s (interfaces n))" for seq s
    using local_lsp_full [OF up_neighbors_length [OF inv(1)]] inv(2) by (simp add: routes_inv_def v4_route_def list_all_iff)
  obtain root where root: "n' = n\<lparr>sequenceNumber := sequenceNumber n + 1, UpdateDB := root,
      interfaces := map (set_srm (systemIDToKey (sid n)) (systemIDToLspID (sid n)) True) (interfaces n)\<rparr>"
    "db_abs root = (db_abs (UpdateDB n))(systemIDToKey (sid n) \<mapsto> local_lsp (sequenceNumber n + 1) (sid n) (interfaces n))"
    "update_inv n'" by (rule generateLocalLsp_ok [OF inv(1)]) (use assms(2) in simp)
  have ev: "evolves n n'" using root(1,2) by (auto simp: evolves_def ups_def no_older_def)
  have "node_inv n'"
    using root(1,2) full by (intro node_inv_update [OF assms(1) root(3) ev]) (auto split: if_splits)
  with ev root(1) show ?thesis by simp
qed

lemma set_adj_node:
  assumes "node_inv n" "i < length (interfaces n)" "adj_inv (f (adj (interfaces n ! i)))"
    and "state (adj (interfaces n ! i)) = ''UP'' \<Longrightarrow> state (f (adj (interfaces n ! i))) = ''UP''"
  shows "node_inv (set_adj i f n) \<and> evolves n (set_adj i f n)"
proof -
  have inv: "update_inv (set_adj i f n)"
    using assms(1) by (intro update_inv_set_adj assms(2,3)) (simp add: node_inv_def)
  have "map intf_static (interfaces (set_adj i f n)) = map intf_static (interfaces n)"
    using assms(2) by (simp add: set_adj_def map_update list_update_same_conv)
  moreover have "ups n \<subseteq> ups (set_adj i f n)"
  proof
    fix j assume "j \<in> ups n"
    with assms(2,4) show "j \<in> ups (set_adj i f n)" by (cases "j = i") (simp_all add: ups_def)
  qed
  ultimately have ev: "evolves n (set_adj i f n)" by (intro evolves_same) simp_all
  have "node_inv (set_adj i f n)" by (rule node_inv_update [OF assms(1) inv ev]) simp_all
  with ev show ?thesis by blast
qed

lemma isisHelloRecv_node:
  assumes "node_inv n" "isisHelloRecv_step getMac i raw n = Inr (n', sent)"
  shows "node_inv n' \<and> evolves n n'"
proof -
  note i = isisHelloRecv_index [OF assms(2)]
  have adj: "adj_inv (adj (interfaces n ! i))"
    using assms(1) i by (simp add: node_inv_def update_inv_def flooding_inv_def intf_inv_def)
  from assms(2) show ?thesis
  proof (cases rule: isisHelloRecv_stepE)
    case first
    from set_adj_node [where f = adj_init, OF assms(1) i adj_inv_init [OF adj]] first show ?thesis by (simp add: adj_init_def)
  next
    case (confirm pdu mac t t2 ts)
    let ?n = "set_adj i (adj_up (SourceSystemID (LanHelloHeader pdu)) (valueTLV t2)) n"
    have n: "node_inv ?n \<and> evolves n ?n"
      by (intro set_adj_node assms(1) i adj_inv_up) (simp add: adj_up_def)
    from generateLocalLsp_node [OF _ confirm(6)] n have "node_inv n' \<and> evolves ?n n'" by blast
    with n show ?thesis by (auto simp: evolves_def no_older_def)
  qed (use assms(1) in simp)
qed

lemma isisUpdateInput_node:
  assumes "node_inv n" "isisUpdateInput_step ifname raw n = Inr (n', spf)"
  shows "node_inv n' \<and> evolves n n'"
proof -
  from assms(2) obtain r where r: "deserializeLsp raw = Inr r" by (auto simp: isisUpdateInput_step_def res_simps)
  have inv: "update_inv n" using assms(1) by (simp add: node_inv_def)
  from isisUpdateInput_refines [OF inv r, of ifname] assms(2) have
    n': "update_inv n'" "db_abs (UpdateDB n') = accept r (db_abs (UpdateDB n))"
    "n' = n\<lparr>UpdateDB := UpdateDB n', interfaces := interfaces n'\<rparr>"
    "interfaces n' = (if spf then floodNewLsp ifname r (interfaces n) else interfaces n)" by auto
  have topo: "TopoDB n' = TopoDB n" by (subst n'(3)) simp
  have "map intf_static (interfaces n') = map intf_static (interfaces n)" "ups n \<subseteq> ups n'"
    by (auto simp: n'(4) floodNewLsp_def ups_def)
  then have ev: "evolves n n'"
    by (auto simp: evolves_def no_older_def n'(2) accept_def dom_def split: option.splits if_splits)
  have db: "db_abs (UpdateDB n) k = Some lsp \<or> lsp_full lsp" if "db_abs (UpdateDB n') k = Some lsp" for k lsp
    using that deserializeLsp_full [OF r] by (auto simp: n'(2) accept_def split: option.splits if_splits)
  from node_inv_update [OF assms(1) n'(1) ev topo db] ev show ?thesis by blast
qed

lemma isisUpdate_node:
  assumes "node_inv n" "i < length (interfaces n)" "distinct ks" "set ks = dom (lspFloodStates (interfaces n ! i))"
    and "isisUpdate_step getMac ks i n = Inr (n', sent)"
  shows "node_inv n' \<and> evolves n n'"
proof -
  have inv: "update_inv n" using assms(1) by (simp add: node_inv_def)
  have n': "n' = n \<or> n' = n\<lparr>interfaces := (interfaces n)[i := clear_srm (interfaces n ! i)]\<rparr>"
    using isisUpdate_step_sends [OF inv assms(2-4), of getMac] assms(5) by (auto simp: Let_def split: if_splits)
  have "adj (clear_srm intf) = adj intf" for intf by (simp add: clear_srm_def)
  then have "ups (n\<lparr>interfaces := (interfaces n)[i := clear_srm (interfaces n ! i)]\<rparr>) = ups n"
    using assms(2) by (auto simp: ups_def nth_list_update split: if_splits)
  moreover have "map intf_static ((interfaces n)[i := clear_srm (interfaces n ! i)]) = map intf_static (interfaces n)"
    using assms(2) by (simp add: map_update list_update_same_conv)
  ultimately have ev: "evolves n n'" using n' by (auto intro!: evolves_same)
  from n' node_inv_update [OF assms(1) isisUpdate_step_inv [OF inv assms(2-5)] ev] ev show ?thesis by auto
qed

lemma topo_put:
  assumes "topo_inv (n\<lparr>TopoDB := topo\<rparr>)" "AvlInsert topo (systemIDToKey (systemID t)) (Some t) ow = Inr topo'"
    and "\<And>p. adj_ref t = Some p \<Longrightarrow> p < length (interfaces n)"
  shows "topo_inv (n\<lparr>TopoDB := topo'\<rparr>)"
proof -
  have inv: "avl_inv topo" using assms(1) by (simp add: topo_inv_def)
  obtain t' where t': "AvlInsert topo (systemIDToKey (systemID t)) (Some t) ow = Inr t'" "avl_inv t'"
    "entries t' = insert_entry (systemIDToKey (systemID t)) (Some t) ow (entries topo)" by (rule AvlInsert_ok [OF inv])
  have "set (AvlGetAll topo') \<subseteq> insert (systemIDToKey (systemID t), Some t) (set (AvlGetAll topo))"
    using insert_entry_set [of "entries topo" "systemIDToKey (systemID t)" "Some t" ow] inv t'(1,3) assms(2)
    by (simp add: AvlGetAll_entries avl_inv_def bst_def)
  with assms t'(1,2) show ?thesis by (fastforce simp: topo_inv_def)
qed

lemma computeSPF_node:
  assumes "node_inv n" "computeSPF (sid n) n = Inr (n', reqs)"
  shows "node_inv n' \<and> n' = n\<lparr>TopoDB := TopoDB n'\<rparr>"
proof -
  let ?nodes = "AvlGetAll (UpdateDB n)" and ?own = "\<lparr>systemID = sid n, distance = 0, adj_ref = None\<rparr> :: Triple"
  have inv: "update_inv n" "lsps_full n" "topo_inv n" using assms(1) by (simp_all add: node_inv_def)
  have "\<forall>nd \<in> set ?nodes. snd nd \<noteq> None" using database_readable(2) [OF inv(1,2)] by blast
  from own_scan_result [OF this, of "sid n" 0 "[]" None] obtain k index where
    scan: "own_scan (sid n) 0 ?nodes ([], None) = Inr (replicate k ?own, index)" by auto
  show ?thesis
  proof (cases index)
    case None
    with assms scan show ?thesis by (simp add: computeSPF_def Let_def)
  next
    case (Some i)
    with assms(2) scan obtain paths topo where
      loop: "spf_loop (interfaces n) (remove_at i ?nodes) (initial_tent (interfaces n))
          (int (length (initial_tent (interfaces n)))) (replicate k ?own) = Inr paths"
      and store: "fold_res (store_path n) paths (TopoDB n, []) = Inr (topo, reqs)" and n': "n' = n\<lparr>TopoDB := topo\<rparr>"
      by (auto simp: computeSPF_def Let_def res_simps)
    let ?A = "insert None (Some ` {..<length (interfaces n)})"
    have refs: "\<forall>t \<in> set paths. adj_ref t \<in> ?A" by (rule spf_loop_refs [OF loop]) (auto simp: set_initial_tent)
    have "topo_inv (n\<lparr>TopoDB := fst (topo, reqs)\<rparr>)"
    proof (rule fold_res_keeps [OF store])
      show "topo_inv (n\<lparr>TopoDB := fst (TopoDB n, [])\<rparr>)" using inv(3) by simp
      fix t st st' assume t: "t \<in> set paths" "topo_inv (n\<lparr>TopoDB := fst st\<rparr>)" "store_path n t st = Inr st'"
      then have "AvlInsert (fst st) (systemIDToKey (systemID t)) (Some t) True = Inr (fst st')"
        by (auto simp: store_path_def res_simps split: prod.splits if_splits)
      from topo_put [OF t(2) this] refs t(1) show "topo_inv (n\<lparr>TopoDB := fst st'\<rparr>)" by auto
    qed
    with assms(1) n' show ?thesis
      by (simp add: node_inv_def update_inv_def flooding_inv_def lsps_full_def)
  qed
qed

lemma isisDecision_node:
  assumes "node_inv n" "isisDecision_step spf n = Inr (n', reqs)"
  shows "node_inv n' \<and> n' = n\<lparr>TopoDB := TopoDB n'\<rparr>"
  using assms computeSPF_node by (auto simp: isisDecision_step_def split: if_splits)

text \<open>The contract of the daemon: every event keeps the invariant.\<close>

lemma handle_node:
  assumes "node_inv (nd d)" "enabled ev d" "handle getMac ev d = Inr (d', outs)"
  shows "node_inv (nd d') \<and> evolves (nd d) (nd d')"
proof (cases ev)
  case (Configure s)
  with assms show ?thesis
    by (auto simp: handle_def ConfigureSystemID_def evolves_def ups_def no_older_def)
next
  case (Request req)
  with assms show ?thesis by (auto simp: handle_def res_simps)
next
  case (HelloTimer i)
  with assms show ?thesis by (auto simp: handle_def res_simps)
next
  case (FloodTimer i ks)
  with assms isisUpdate_node [OF assms(1)] show ?thesis by (fastforce simp: handle_def enabled_def res_simps)
next
  case (FrameIn i raw)
  with assms(3) obtain chan where chan: "recvPdus_dispatch raw = Inr chan" by (auto simp: handle_def res_simps)
  show ?thesis
  proof (cases chan)
    case Dropped
    with assms FrameIn chan show ?thesis by (simp add: handle_def)
  next
    case HelloChan
    with assms(3) FrameIn chan isisHelloRecv_node [OF assms(1)] show ?thesis by (fastforce simp: handle_def res_simps)
  next
    case UpdateChan
    with assms(3) FrameIn chan isisUpdateInput_node [OF assms(1)] show ?thesis by (fastforce simp: handle_def res_simps)
  qed
next
  case (RunSPF i)
  with assms(2) obtain spf where spf: "pending d i = Some spf" by (auto simp: enabled_def)
  with assms(3) RunSPF obtain reqs where step: "isisDecision_step spf (nd d) = Inr (nd d', reqs)"
    by (auto simp: handle_def res_simps)
  from isisDecision_node [OF assms(1) step] have "node_inv (nd d')" "interfaces (nd d') = interfaces (nd d)"
    "UpdateDB (nd d') = UpdateDB (nd d)" by (metis node.surjective node.select_convs node.update_convs)+
  then show ?thesis by (auto intro!: evolves_same simp: ups_def)
qed

interpretation node_run: invariant_system enabled "handle getMac" "\<lambda>d. node_inv (nd d)"
  for getMac
  by unfold_locales (use handle_node in blast)

text \<open>The same for the events of a node whose own LSP is not filed under the key \<open>k\<close>, with what they do not undo.\<close>

definition enabled_except :: "uint64 \<Rightarrow> event \<Rightarrow> daemon \<Rightarrow> bool" where
  "enabled_except k ev d \<longleftrightarrow> enabled ev d \<and> systemIDToKey (sid (nd d)) \<noteq> k"

definition persists :: "uint64 \<Rightarrow> node \<Rightarrow> node \<Rightarrow> bool" where
  "persists k n n' \<longleftrightarrow> map intf_static (interfaces n') = map intf_static (interfaces n) \<and> ups n \<subseteq> ups n' \<and>
     dom (db_abs (UpdateDB n)) \<subseteq> dom (db_abs (UpdateDB n')) \<and> no_older k n n'"

lemma no_older_trans: "no_older k n1 n2 \<Longrightarrow> no_older k n2 n3 \<Longrightarrow> no_older k n1 n3"
  unfolding no_older_def by (meson order_trans)

lemma persists_trans:
  assumes "persists k n1 n2" "persists k n2 n3"
  shows "persists k n1 n3"
  using assms no_older_trans [of k n1 n2 n3] unfolding persists_def by simp (blast intro: subset_trans)

interpretation lsdb_run: monotone_system "enabled_except k" "handle getMac" "\<lambda>d. node_inv (nd d)"
    "\<lambda>d d'. persists k (nd d) (nd d')"
  for k getMac
proof
  fix d ev d' outs assume a: "node_inv (nd d)" "enabled_except k ev d" "handle getMac ev d = Inr (d', outs)"
  then show "node_inv (nd d')" using handle_node unfolding enabled_except_def by blast
  from a have "evolves (nd d) (nd d')" "systemIDToKey (sid (nd d)) \<noteq> k"
    using handle_node unfolding enabled_except_def by blast+
  then show "persists k (nd d) (nd d')" by (simp add: evolves_def persists_def)
next
  fix d show "persists k (nd d) (nd d)" by (simp add: persists_def no_older_def)
next
  fix d d' d'' assume "persists k (nd d) (nd d')" "persists k (nd d') (nd d'')"
  then show "persists k (nd d) (nd d'')" by (rule persists_trans)
qed

section \<open>Boot\<close>

lemma start_inv:
  assumes "routes_v4 routeList" "start routeList net_interfaces = Inr d"
  shows "node_inv (nd d) \<and> sid (nd d) = '''' \<and> pending d = Map.empty \<and> ups (nd d) = {}"
proof -
  from assms(2) have b: "boot routeList net_interfaces = Inr (nd d)" "pending d = Map.empty"
    by (auto simp: start_def res_simps)
  note n = boot_node [OF b(1)]
  then have fresh: "\<exists>ifname v. intf = new_Intf ifname v (routeList ifname)" if "intf \<in> set (interfaces (nd d))" for intf
    using that by blast
  have "intf_inv intf \<and> lspFloodStates intf = Map.empty \<and> state (adj intf) = ''NEW'' \<and>
      (\<forall>r. Some r \<in> set (routes intf) \<longrightarrow> v4_route r)" if "intf \<in> set (interfaces (nd d))" for intf
    using fresh [OF that] assms(1) by (auto simp: new_Intf_inv) (auto simp: new_Intf_def routes_v4_def)
  then have intfs: "\<forall>intf \<in> set (interfaces (nd d)). intf_inv intf \<and> lspFloodStates intf = Map.empty \<and>
      state (adj intf) = ''NEW'' \<and> (\<forall>r. Some r \<in> set (routes intf) \<longrightarrow> v4_route r)" by blast
  then have "update_inv (nd d)" using n by (auto simp: update_inv_def flooding_inv_def)
  moreover have "routes_inv (interfaces (nd d))"
    using intfs by (auto simp: routes_inv_def connected_routes_def list_all_iff)
  moreover have "topo_inv (nd d)" using n by (simp add: topo_inv_def avl.invar_empty AvlGetAll_entries)
  moreover have "ups (nd d) = {}" using intfs by (auto simp: ups_def)
  ultimately show ?thesis using n b(2) by (simp add: node_inv_def lsps_full_def)
qed

lemma reachable_inv:
  assumes "routes_v4 routeList"
    and "start routeList net_interfaces = Inr d0" and "runs enabled (handle getMac) d0 evs outs d"
  shows "node_inv (nd d)"
  using node_run.runs_inv [OF assms(3)] start_inv [OF assms(1,2)] by blast

section \<open>Panics\<close>

text \<open>Frames that the receiving goroutines cannot decode, and hellos with the own address as their only TLV.\<close>

definition undecodable :: "go_slice \<Rightarrow> go_panic \<Rightarrow> bool" where
  "undecodable raw e \<longleftrightarrow> recvPdus_dispatch raw = Inl e \<or>
     recvPdus_dispatch raw = Inr HelloChan \<and> recvHello raw = Inl e \<or>
     recvPdus_dispatch raw = Inr UpdateChan \<and> deserializeLsp raw = Inl e"

definition lone_own_tlv :: "bytes \<Rightarrow> string \<Rightarrow> go_slice \<Rightarrow> bool" where
  "lone_own_tlv mac own_sid raw \<longleftrightarrow> recvPdus_dispatch raw = Inr HelloChan \<and>
     (case recvHello raw of Inr (Some (pdu, _)) \<Rightarrow>
        map valueTLV (FirstTLV_hello pdu) = [mac] \<and> systemIDToString (SourceSystemID (LanHelloHeader pdu)) \<noteq> own_sid
      | _ \<Rightarrow> False)"

lemma lone_own_tlv_iff:
  "recvPdus_dispatch raw = Inr HelloChan \<Longrightarrow> lone_own_tlv mac own_sid raw \<longleftrightarrow>
    (\<exists>pdu m t. recvHello raw = Inr (Some (pdu, m)) \<and> FirstTLV_hello pdu = [t] \<and>
      systemIDToString (SourceSystemID (LanHelloHeader pdu)) \<noteq> own_sid \<and> valueTLV t = mac)"
  by (simp add: lone_own_tlv_def split: sum.split option.split) auto

lemma frame_panic:
  assumes "node_inv (nd d)" "i < length (interfaces (nd d))"
  shows "handle getMac (FrameIn i raw) d = Inl e \<longleftrightarrow> undecodable raw e \<or>
    e = NilDereference \<and> lone_own_tlv (getMac (name (interfaces (nd d) ! i))) (sid (nd d)) raw"
proof (cases "recvPdus_dispatch raw")
  case (Inl e')
  then show ?thesis by (auto simp: handle_def undecodable_def lone_own_tlv_def)
next
  case (Inr chan)
  have inv: "update_inv (nd d)" using assms(1) by (simp add: node_inv_def)
  show ?thesis
  proof (cases chan)
    case Dropped
    with Inr show ?thesis by (simp add: handle_def undecodable_def lone_own_tlv_def)
  next
    case HelloChan
    have "handle getMac (FrameIn i raw) d = Inl e \<longleftrightarrow> isisHelloRecv_step getMac i raw (nd d) = Inl e"
      using Inr HelloChan by (auto simp: handle_def res_simps)
    also have "\<dots> \<longleftrightarrow> undecodable raw e \<or>
        e = NilDereference \<and> lone_own_tlv (getMac (name (interfaces (nd d) ! i))) (sid (nd d)) raw"
      using Inr HelloChan
      by (simp add: isisHelloRecv_panic [OF inv assms(2)] undecodable_def lone_own_tlv_iff)
    finally show ?thesis .
  next
    case UpdateChan
    have "isisUpdateInput_step ifname raw (nd d) = Inl e \<longleftrightarrow> deserializeLsp raw = Inl e" for ifname
      using isisUpdateInput_refines [OF inv, of raw _ ifname]
      by (cases "deserializeLsp raw") (auto simp: isisUpdateInput_step_def)
    then show ?thesis
      using Inr UpdateChan by (auto simp: handle_def res_simps undecodable_def lone_own_tlv_def)
  qed
qed

lemma decision_panic:
  assumes "node_inv n" "isisDecision_step spf n = Inl e"
  shows "spf \<and> has_own_lsp n \<and>
    (\<not> no_self_adjacency n \<or> \<not> no_overflow (initial_tent (interfaces n)) (AvlGetAll (UpdateDB n)))"
proof -
  have run: "spf" "computeSPF (sid n) n = Inl e" using assms(2) by (auto simp: isisDecision_step_def split: if_splits)
  have inv: "update_inv n" "lsps_full n" "avl_inv (TopoDB n)" using assms(1) by (simp_all add: node_inv_def topo_inv_def)
  have "has_own_lsp n" using run(2) computeSPF_without_own [OF inv(1,2)] by auto
  moreover have "\<not> spf_ready n"
  proof
    assume "spf_ready n"
    then show False by (rule computeSPF_ok [OF _ \<open>has_own_lsp n\<close>]) (use run(2) in simp)
  qed
  ultimately show ?thesis using run(1) inv by (auto simp: spf_ready_def)
qed

text \<open>
  A state request panics only when the database is printed and a stored LSP has a neighbours TLV of length 0,
  and then it does.
\<close>

definition unprintable :: "node \<Rightarrow> bool" where
  "unprintable n \<longleftrightarrow> (\<exists>k lsp. db_abs (UpdateDB n) k = Some lsp \<and> list_ex empty_neighbors_tlv (FirstTLV (CoreLsp lsp)))"

lemma answer_returns:
  assumes "node_inv n"
  shows "(\<exists>lines. answer req n = Inr lines) \<longleftrightarrow> req \<noteq> LspRequest \<or> \<not> unprintable n"
  using assms GetLsp_returns [of n] GetTopo_report [of n]
  by (cases req) (simp_all add: answer_def node_inv_def unprintable_def)

lemma request_panic:
  assumes "node_inv (nd d)"
  shows "(\<exists>e. handle getMac (Request req) d = Inl e) \<longleftrightarrow> req = LspRequest \<and> unprintable (nd d)"
  using answer_returns [OF assms, of req] by (cases "answer req (nd d)") (auto simp: handle_def)

section \<open>Properties of the daemon\<close>

text \<open>A machine with one interface beside the loopback, and the daemon started on it.\<close>

definition sample_routes :: "string \<Rightarrow> IPNet option list" where
  "sample_routes ifname = [None, Some \<lparr>IP = [172, 20, 0, 0], Mask = [255, 255, 0, 0]\<rparr>]"

definition sample_machine :: "string + net_iface list" where
  "sample_machine = Inr [\<lparr>if_name = ''lo'', if_addrs = Inr [IPNetAddr \<lparr>IP = [127, 0, 0, 1], Mask = [255, 0, 0, 0]\<rparr>]\<rparr>,
     \<lparr>if_name = ''eth0'', if_addrs = Inr [IPNetAddr \<lparr>IP = [172, 20, 0, 2], Mask = [255, 255, 0, 0]\<rparr>, OtherAddr]\<rparr>]"

definition sample_daemon :: daemon where
  "sample_daemon = \<lparr>nd = \<lparr>sid = '''', interfaces = [new_Intf ''eth0'' \<lparr>IP = [172, 20, 0, 2], Mask = [255, 255, 0, 0]\<rparr>
       (sample_routes ''eth0'')], UpdateDB = NilNode, TopoDB = NilNode, sequenceNumber = 0\<rparr>, pending = Map.empty\<rparr>"

lemma sample_start: "start sample_routes sample_machine = Inr sample_daemon"
  by (simp add: start_def boot_def initInterfaces_def sample_machine_def To4_def sample_daemon_def)

lemma sample_routes_v4: "routes_v4 sample_routes"
  by (auto simp: routes_v4_def sample_routes_def v4_route_def)

lemma sample_run:
  "runs enabled (handle getMac) sample_daemon [Configure ''1111.1111.1111'']
    [Reply [''SID 1111.1111.1111 successfully configured'']]
    (sample_daemon\<lparr>nd := (nd sample_daemon)\<lparr>sid := ''1111.1111.1111''\<rparr>\<rparr>)"
  by (rule runs_step) (simp_all add: enabled_def handle_def ConfigureSystemID_def)

text \<open>
  C14: every state the daemon can get into is well formed.  From boot, whatever frames arrive, whatever is
  configured, and in whatever order the goroutines run, the databases stay balanced search trees, every node
  of them holds a value of the type the code asserts, filed under its own key; every stored LSP has complete
  TLVs; every adjacency is in one of its three states and complete when it is up; every LSP marked for
  flooding is in the database; and every path in the topology database points to an existing adjacency.
  What netlink reports must be IPv4 prefixes of four bytes.
\<close>

theorem reachable_states_well_formed:
  assumes "routes_v4 routeList"
    and "start routeList net_interfaces = Inr d0" and "runs enabled (handle getMac) d0 evs outs d"
  shows "node_inv (nd d)"
  by (rule reachable_inv [OF assms])

theorem reachable_states_well_formed_witness:
  "start sample_routes sample_machine = Inr sample_daemon \<and>
   node_inv ((nd sample_daemon)\<lparr>sid := ''1111.1111.1111''\<rparr>)"
  using reachable_states_well_formed [OF sample_routes_v4 sample_start sample_run] sample_start by simp

text \<open>
  C15: the daemon never forgets.  In a run during which the node's own LSP is not the one with key \<open>k\<close>,
  no LSP is lost from the database, the LSP with key \<open>k\<close> is never replaced by one with a smaller
  sequence number, no adjacency that is up goes down, and the interface table keeps its interfaces.
\<close>

theorem daemon_is_monotone:
  assumes "node_inv (nd d)" and "runs (enabled_except k) (handle getMac) d evs outs d'"
  shows "map intf_static (interfaces (nd d')) = map intf_static (interfaces (nd d)) \<and> ups (nd d) \<subseteq> ups (nd d') \<and>
    dom (db_abs (UpdateDB (nd d))) \<subseteq> dom (db_abs (UpdateDB (nd d'))) \<and> no_older k (nd d) (nd d')"
  using lsdb_run.runs_below [OF assms(2,1)] by (simp add: persists_def)

theorem daemon_is_monotone_witness:
  "node_inv sample_flooding_node \<and> no_older 0x1111111111130000 sample_flooding_node (sample_flooding_node\<lparr>sid := ''22''\<rparr>)"
proof -
  have inv: "node_inv sample_flooding_node"
    using update_inv_sample_flooding_node wf_sample_lsp(1)
    by (auto simp: node_inv_def lsps_full_def topo_inv_def routes_inv_def connected_routes_def v4_route_def avl.invar_empty
      AvlGetAll_entries wf_lsp_def wf_core_def lsp_full_def list_all_iff wf_tlv_def tlv_full_def db_abs_def
      sample_flooding_node_def sample_node_def sample_intf_def set_srm_def split: if_splits)
  have own: "systemIDToKey (sid sample_flooding_node) = 0x1111111111110000"
    using sample_keys(1) by (simp add: sample_flooding_node_def sample_node_def)
  have "runs (enabled_except 0x1111111111130000) (handle (\<lambda>_. [])) \<lparr>nd = sample_flooding_node, pending = Map.empty\<rparr> [Configure ''22'']
      [Reply [''SID 22 successfully configured'']] \<lparr>nd = sample_flooding_node\<lparr>sid := ''22''\<rparr>, pending = Map.empty\<rparr>"
    by (rule runs_step) (simp_all add: enabled_except_def enabled_def handle_def ConfigureSystemID_def own)
  from daemon_is_monotone [OF _ this] inv show ?thesis by simp
qed

text \<open>
  C16: what takes the daemon down, in a state reached from boot, with four-byte IPv4 routes, sockets that are
  open and hardware addresses that can be looked up, each iteration of a goroutine and each request taken
  as one step.  The configuration request, the other state requests and the goroutines on timers
  never panic.  A received frame makes it panic exactly when it cannot be decoded, or when it is a hello
  from another system whose only TLV is the receiving interface's address.  The request for the LSPs makes
  it panic exactly when a stored LSP has a neighbours TLV of length 0 with a value shorter than 253 bytes.  The decision
  process panics only when costs can overflow, or when the node is adjacent to its own system ID.
\<close>

theorem panic_causes:
  assumes "routes_v4 routeList"
    and "start routeList net_interfaces = Inr d0" and "runs enabled (handle getMac) d0 evs outs d" and "enabled ev d"
  shows "(handle getMac ev d = Inl e \<longleftrightarrow> (case ev of
      FrameIn i raw \<Rightarrow> undecodable raw e \<or>
        e = NilDereference \<and> lone_own_tlv (getMac (name (interfaces (nd d) ! i))) (sid (nd d)) raw
    | RunSPF i \<Rightarrow> handle getMac ev d = Inl e \<and> (\<not> no_self_adjacency (nd d) \<or>
        \<not> no_overflow (initial_tent (interfaces (nd d))) (AvlGetAll (UpdateDB (nd d))))
    | Request req \<Rightarrow> handle getMac ev d = Inl e \<and> req = LspRequest \<and> unprintable (nd d)
    | _ \<Rightarrow> False)) \<and>
   ((\<exists>e. handle getMac (Request req) d = Inl e) \<longleftrightarrow> req = LspRequest \<and>
      (\<exists>k lsp. db_abs (UpdateDB (nd d)) k = Some lsp \<and> list_ex empty_neighbors_tlv (FirstTLV (CoreLsp lsp))))"
proof (rule conjI)
  note inv = reachable_inv [OF assms(1-3)]
  show "(\<exists>e. handle getMac (Request req) d = Inl e) \<longleftrightarrow> req = LspRequest \<and>
      (\<exists>k lsp. db_abs (UpdateDB (nd d)) k = Some lsp \<and> list_ex empty_neighbors_tlv (FirstTLV (CoreLsp lsp)))"
    using request_panic [OF inv] unfolding unprintable_def .
  show "handle getMac ev d = Inl e \<longleftrightarrow> (case ev of
      FrameIn i raw \<Rightarrow> undecodable raw e \<or>
        e = NilDereference \<and> lone_own_tlv (getMac (name (interfaces (nd d) ! i))) (sid (nd d)) raw
    | RunSPF i \<Rightarrow> handle getMac ev d = Inl e \<and> (\<not> no_self_adjacency (nd d) \<or>
        \<not> no_overflow (initial_tent (interfaces (nd d))) (AvlGetAll (UpdateDB (nd d))))
    | Request req \<Rightarrow> handle getMac ev d = Inl e \<and> req = LspRequest \<and> unprintable (nd d)
    | _ \<Rightarrow> False)"
  proof (cases ev)
    case (Request req)
    with request_panic [OF inv, of getMac req] show ?thesis by auto
  next
    case (FloodTimer i ks)
    with assms(4) show ?thesis by (auto simp: handle_def enabled_def isisUpdate_step_def Let_def case_prod_beta)
  next
    case (FrameIn i raw)
    with assms(4) frame_panic [OF inv] show ?thesis by (simp add: enabled_def)
  next
    case (RunSPF i)
    with assms(4) decision_panic [OF inv] show ?thesis by (auto simp: handle_def enabled_def res_simps)
  qed (use assms(4) in \<open>auto simp: handle_def enabled_def isisHelloSend_step_def ConfigureSystemID_def Let_def res_simps\<close>)
qed

theorem panic_causes_witness:
  "handle (\<lambda>_. [2, 0, 0, 0, 0, 1]) (FrameIn 0 (Slice [] 0)) (sample_daemon\<lparr>nd := (nd sample_daemon)\<lparr>sid := ''1111.1111.1111''\<rparr>\<rparr>) =
    Inl IndexOutOfRange"
proof -
  have "enabled (FrameIn 0 (Slice [] 0)) (sample_daemon\<lparr>nd := (nd sample_daemon)\<lparr>sid := ''1111.1111.1111''\<rparr>\<rparr>)"
    by (simp add: enabled_def sample_daemon_def)
  moreover have "recvPdus_dispatch (Slice [] 0) = Inl IndexOutOfRange" by (simp add: recvPdus_dispatch_def slice_index_def)
  ultimately show ?thesis
    using panic_causes [OF sample_routes_v4 sample_start sample_run, where ev = "FrameIn 0 (Slice [] 0)"]
    by (simp add: undecodable_def)
qed

end
