(* ===== verification/Network.thy ===== *)
theory Network
  imports Daemon
begin

text \<open>
  Networks of daemons.  Any number of daemons, each with its own interfaces, exchange the frames they
  send: a frame on the wire can reach any interface of any daemon, any number of times, in any order, or
  never; frames of other protocols can arrive too.  Every topology of links is covered by this.

  The theory shows that no daemon of such a network ever panics, whatever requests it gets, as long as the
  daemons stay within the limits of the TLVs they build and the databases within a million LSPs.
\<close>

section \<open>The network\<close>

record network =
  daemons :: "daemon list"
  wire :: "bytes list"

datatype net_event =
    Local nat event
  | Deliver nat nat nat bytes

definition frames_out :: "effect list \<Rightarrow> bytes list" where
  "frames_out outs = concat (map (\<lambda>out. case out of FrameOut i frame \<Rightarrow> [frame] | _ \<Rightarrow> []) outs)"

definition net_enabled :: "net_event \<Rightarrow> network \<Rightarrow> bool" where
  "net_enabled ev s = (case ev of
     Local a lev \<Rightarrow> a < length (daemons s) \<and> enabled lev (daemons s ! a) \<and>
       (case lev of FrameIn i raw \<Rightarrow> recvPdus_dispatch raw = Inr Dropped | _ \<Rightarrow> True)
   | Deliver a i j rest \<Rightarrow> a < length (daemons s) \<and> j < length (wire s) \<and>
       enabled (FrameIn i (frame_slice (wire s ! j) rest)) (daemons s ! a))"

definition node_event :: "(nat \<Rightarrow> string \<Rightarrow> bytes) \<Rightarrow> nat \<Rightarrow> event \<Rightarrow> network \<Rightarrow> (network \<times> (nat \<times> effect) list) res" where
  "node_event macs a ev s = bind_res (handle (macs a) ev (daemons s ! a)) (\<lambda>(d, outs).
     Inr (s\<lparr>daemons := (daemons s)[a := d], wire := wire s @ frames_out outs\<rparr>, map (Pair a) outs))"

definition net_handle :: "(nat \<Rightarrow> string \<Rightarrow> bytes) \<Rightarrow> net_event \<Rightarrow> network \<Rightarrow> (network \<times> (nat \<times> effect) list) res" where
  "net_handle macs ev s = (case ev of
     Local a lev \<Rightarrow> node_event macs a lev s
   | Deliver a i j rest \<Rightarrow> node_event macs a (FrameIn i (frame_slice (wire s ! j) rest)) s)"

section \<open>What daemons send\<close>

text \<open>
  The LSPs of daemons: well formed, with the header of an LSP, a length for every neighbours TLV, and all
  links at cost 10.
\<close>

definition daemon_lsp :: "IsisLsp \<Rightarrow> bool" where
  "daemon_lsp lsp \<longleftrightarrow> wf_lsp lsp \<and> neighbors_counted lsp \<and> Header (CoreLsp lsp) = Header (CoreLsp (buildEmptyLSP 0 '''')) \<and>
     (case lookupNeighbors lsp of Inl e \<Rightarrow> False | Inr nbrs \<Rightarrow> list_all (\<lambda>nbr. metric_nbr nbr = 10) nbrs)"

definition daemon_frame :: "bytes \<Rightarrow> bool" where
  "daemon_frame frame \<longleftrightarrow>
     (\<exists>getMac intf s tlv. length (getMac (name intf)) = 6 \<and> (\<forall>t. tlv = Some t \<longrightarrow> wf_tlv t) \<and>
        frame = sendHello getMac intf s tlv) \<or>
     (\<exists>mac lsp. length mac = 6 \<and> daemon_lsp lsp \<and> frame = lsp_frame mac lsp)"

lemma daemon_frame_hello:
  "length (getMac (name intf)) = 6 \<Longrightarrow> daemon_frame (sendHello getMac intf s None)"
  "length (getMac (name intf)) = 6 \<Longrightarrow> wf_tlv t \<Longrightarrow> daemon_frame (sendHello getMac intf s (Some t))"
  unfolding daemon_frame_def by (metis option.distinct(1), metis option.inject)

lemma daemon_frame_lsp: "length mac = 6 \<Longrightarrow> daemon_lsp lsp \<Longrightarrow> daemon_frame (lsp_frame mac lsp)"
  unfolding daemon_frame_def by blast

lemma neighbor_tlv_length: "k \<le> 23 \<Longrightarrow> (word_of_nat (11 * k + 1) :: byte) \<noteq> 0"
proof -
  assume "k \<le> 23"
  then have "unat (word_of_nat (11 * k + 1) :: byte) = 11 * k + 1" by (simp only: unat_of_nat) simp
  then show ?thesis by (metis add_is_0 one_neq_zero unat_0)
qed

lemma local_lsp_daemon:
  assumes "node_inv n" "length (interfaces n) \<le> 23" "length (connected_routes (interfaces n)) \<le> 21"
  shows "daemon_lsp (local_lsp seq s (interfaces n))"
proof -
  let ?lsp = "local_lsp seq s (interfaces n)"
  have nbrs: "\<forall>b \<in> set (up_neighbors (interfaces n)). length b = 6" "length (up_neighbors (interfaces n)) \<le> 23"
    using up_neighbors_length [of n] assms(1) le_trans [OF length_filter_le assms(2)]
    by (simp_all add: node_inv_def up_neighbors_def)
  have "\<forall>r \<in> set (connected_routes (interfaces n)). length (IP r) = 4 \<and> length (Mask r) = 4"
    using assms(1) by (simp add: node_inv_def routes_inv_def v4_route_def list_all_iff)
  with nbrs assms(3) have "wf_lsp ?lsp" by (simp add: wf_local_lsp_iff)
  moreover have "lookupNeighbors ?lsp = Inr (map nbr_of (up_neighbors (interfaces n)))"
    using getNeighbors_getNeighborTLV [OF nbrs]
    by (simp add: lookupNeighbors_def local_lsp_fields getIPReachTLV_eq getNeighborTLV_eq ISIS_NEIGHBORS_TLV_def)
  moreover have "Header (CoreLsp ?lsp) = Header (CoreLsp (buildEmptyLSP 0 ''''))"
    by (simp add: local_lsp_def buildEmptyLSP_def Let_def)
  moreover have "neighbors_counted ?lsp"
    using neighbor_tlv_length [OF nbrs(2)]
    by (simp add: neighbors_counted_def local_lsp_fields ISIS_NEIGHBORS_TLV_def getIPReachTLV_eq getNeighborTLV_eq)
  ultimately show ?thesis by (simp add: daemon_lsp_def nbr_of_def list_all_iff)
qed

text \<open>Every receiver can decode what a daemon sends.\<close>

lemma lsp_frame_received:
  assumes "length mac = 6" "daemon_lsp lsp"
  shows "recvPdus_dispatch (frame_slice (lsp_frame mac lsp) rest) = Inr UpdateChan"
    "deserializeLsp (frame_slice (lsp_frame mac lsp) rest) = Inr lsp"
proof -
  have wf: "wf_core (CoreLsp lsp)" "LspID lsp = LspID_hdr (LspHeader (CoreLsp lsp))" "Key lsp = lspIDToKey (LspID lsp)"
    and hdr: "Header (CoreLsp lsp) = Header (CoreLsp (buildEmptyLSP 0 ''''))"
    using assms(2) by (simp_all add: daemon_lsp_def wf_lsp_def)
  have "length (l1_multicast @ mac @ [0x08, 0x00]) = 14" using assms(1) by (simp add: l1_multicast_def)
  from deserializeLsp_serializeLsp [OF this wf(1), of rest] wf(2,3)
  show "deserializeLsp (frame_slice (lsp_frame mac lsp) rest) = Inr lsp" by (simp add: lsp_frame_def buildEthernetFrame_def)
  have "length (write_lsp_header (LspHeader (CoreLsp lsp))) = 19"
    using wf(1) by (intro length_write_lsp_header) (simp add: wf_core_def)
  with assms(1) hdr show "recvPdus_dispatch (frame_slice (lsp_frame mac lsp) rest) = Inr UpdateChan"
    by (simp add: recvPdus_dispatch_def slice_index_def reslice_def frame_slice_def lsp_frame_def buildEthernetFrame_def
        serializeLsp_def write_pdu_header_def buildEmptyLSP_def Let_def l1_multicast_def nth_append)
qed

lemma sendHello_received:
  assumes "length (getMac (name intf)) = 6"
  shows "recvPdus_dispatch (frame_slice (sendHello getMac intf s tlv) rest) = Inr HelloChan"
  using assms
  by (simp add: sendHello_def Let_def recvPdus_dispatch_def slice_index_def frame_slice_def buildEthernetFrame_def
      serializeIsisHelloPDU_def write_pdu_header_def buildL1HelloPDU_def l1_multicast_def nth_append split: option.split)

lemma daemon_frame_cases:
  assumes "daemon_frame frame"
  obtains (hello) pdu mac where "recvPdus_dispatch (frame_slice frame rest) = Inr HelloChan"
      "recvHello (frame_slice frame rest) = Inr (Some (pdu, mac))" "length (FirstTLV_hello pdu) \<in> {0, 2}"
  | (lsp) lsp where "recvPdus_dispatch (frame_slice frame rest) = Inr UpdateChan"
      "deserializeLsp (frame_slice frame rest) = Inr lsp" "daemon_lsp lsp"
  using assms unfolding daemon_frame_def
proof (elim disjE exE conjE)
  fix getMac :: "string \<Rightarrow> bytes" and intf :: Intf and s tlv
  assume f: "length (getMac (name intf)) = 6" "\<forall>t. tlv = Some t \<longrightarrow> wf_tlv t" "frame = sendHello getMac intf s tlv"
  from f(1) show thesis
  proof (rule recvHello_sendHello [of getMac intf tlv s rest])
    fix pdu assume pdu: "recvHello (frame_slice (sendHello getMac intf s tlv) rest) = Inr (Some (pdu, getMac (name intf)))"
      "FirstTLV_hello pdu = (case tlv of None \<Rightarrow> [] | Some t \<Rightarrow> [t, getInterfaceTLV intf])"
    then show thesis
      using hello [of pdu "getMac (name intf)"] sendHello_received [of getMac intf s tlv rest] f by (simp split: option.splits)
  qed (use f(2) in blast)
next
  fix mac l assume f: "length mac = 6" "daemon_lsp l" "frame = lsp_frame mac l"
  then show thesis using lsp [of l] lsp_frame_received [of mac l rest] by simp
qed

section \<open>The invariant of the network\<close>

definition all_lsps :: "(IsisLsp \<Rightarrow> bool) \<Rightarrow> node \<Rightarrow> bool" where
  "all_lsps P n \<longleftrightarrow> (\<forall>k lsp. db_abs (UpdateDB n) k = Some lsp \<longrightarrow> P lsp)"

definition daemon_ok :: "daemon \<Rightarrow> bool" where
  "daemon_ok d \<longleftrightarrow> node_inv (nd d) \<and> all_lsps daemon_lsp (nd d) \<and>
     length (interfaces (nd d)) \<le> 23 \<and> length (connected_routes (interfaces (nd d))) \<le> 21"

definition network_ok :: "network \<Rightarrow> bool" where
  "network_ok s \<longleftrightarrow> list_all daemon_ok (daemons s) \<and> list_all daemon_frame (wire s)"

text \<open>A frame that a daemon of the network may receive.\<close>

definition expected :: "event \<Rightarrow> bool" where
  "expected ev = (case ev of
     FrameIn i raw \<Rightarrow> recvPdus_dispatch raw = Inr Dropped \<or> (\<exists>frame rest. raw = frame_slice frame rest \<and> daemon_frame frame)
   | _ \<Rightarrow> True)"

lemma generateLocalLsp_lsps:
  assumes "node_inv n" "all_lsps daemon_lsp n" "length (interfaces n) \<le> 23" "length (connected_routes (interfaces n)) \<le> 21"
    and "generateLocalLsp n = Inr n'"
  shows "all_lsps daemon_lsp n'"
proof -
  have inv: "update_inv n" using assms(1) by (simp add: node_inv_def)
  have "\<exists>lsp. daemon_lsp lsp \<and> db_abs (UpdateDB n') = (db_abs (UpdateDB n))(systemIDToKey (sid n) \<mapsto> lsp)"
    by (rule generateLocalLsp_ok [OF inv]) (use local_lsp_daemon [OF assms(1,3,4)] assms(5) in auto)
  with assms(2) show ?thesis by (auto simp: all_lsps_def split: if_splits)
qed

lemma isisHelloRecv_lsps:
  assumes "node_inv n" "all_lsps daemon_lsp n" "length (interfaces n) \<le> 23" "length (connected_routes (interfaces n)) \<le> 21"
    and "isisHelloRecv_step getMac i raw n = Inr (n', sent)"
  shows "all_lsps daemon_lsp n'"
  using assms(5)
proof (cases rule: isisHelloRecv_stepE)
  case first
  with assms(2) show ?thesis by (simp add: all_lsps_def)
next
  case (confirm pdu mac t t2 ts)
  let ?n = "set_adj i (adj_up (SourceSystemID (LanHelloHeader pdu)) (valueTLV t2)) n"
  have "node_inv ?n \<and> evolves n ?n"
    by (intro set_adj_node assms(1) isisHelloRecv_index [OF assms(5)] adj_inv_up) (simp add: adj_up_def)
  moreover have "connected_routes (interfaces ?n) = connected_routes (interfaces n)"
    using calculation by (intro static_facts) (simp add: evolves_def)
  moreover have "all_lsps daemon_lsp ?n" using assms(2) by (simp add: all_lsps_def)
  ultimately show ?thesis using generateLocalLsp_lsps [OF _ _ _ _ confirm(6)] assms(3,4) by simp
qed (use assms(2) in simp)

lemma isisHelloRecv_frames:
  assumes "isisHelloRecv_step getMac i raw n = Inr (n', sent)" "\<And>ifname. length (getMac ifname) = 6"
  shows "list_all daemon_frame sent"
  using assms(1)
proof (cases rule: isisHelloRecv_stepE)
  case (first pdu mac)
  have "wf_tlv \<lparr>typeTLV = 6, lengthTLV = 6, valueTLV = mac\<rparr>"
    using recvHello_lengths [OF first(1)] by (simp add: wf_tlv_def)
  then show ?thesis using assms(2) first(5) by (simp add: daemon_frame_hello)
qed simp_all

lemma isisUpdate_frames:
  assumes "node_inv n" "all_lsps daemon_lsp n" "i < length (interfaces n)" "distinct ks"
    "set ks = dom (lspFloodStates (interfaces n ! i))" "\<And>ifname. length (getMac ifname) = 6"
    and "isisUpdate_step getMac ks i n = Inr (n', sent)"
  shows "all_lsps daemon_lsp n' \<and> list_all daemon_frame sent"
proof -
  have inv: "update_inv n" using assms(1) by (simp add: node_inv_def)
  have "daemon_lsp (the (db_abs (UpdateDB n) k))" if "k \<in> set ks" for k
  proof -
    from inv nth_mem [OF assms(3)] that assms(5) obtain lsp where "db_abs (UpdateDB n) k = Some lsp"
      unfolding update_inv_def flooding_inv_def by blast
    with assms(2) show ?thesis by (auto simp: all_lsps_def)
  qed
  with isisUpdate_step_sends [OF inv assms(3-5), of getMac] assms(2,6,7) show ?thesis
    by (auto simp: Let_def list_all_iff daemon_frame_lsp all_lsps_def split: if_splits)
qed

lemma frames_out_simps [simp]:
  "frames_out [] = []" "frames_out (map (FrameOut i) frames) = frames" "frames_out (map RouteAdd rs) = []"
  "frames_out [Reply lines] = []"
  by (simp_all add: frames_out_def comp_def)

lemma handle_daemon_ok:
  assumes ok: "daemon_ok d" and macs: "\<And>ifname. length (getMac ifname) = 6" and en: "enabled ev d" and ex: "expected ev"
    and h: "handle getMac ev d = Inr (d', outs)"
  shows "daemon_ok d' \<and> list_all daemon_frame (frames_out outs)"
proof -
  have inv: "node_inv (nd d)" "all_lsps daemon_lsp (nd d)" "length (interfaces (nd d)) \<le> 23"
    "length (connected_routes (interfaces (nd d))) \<le> 21" using ok by (simp_all add: daemon_ok_def)
  have n': "node_inv (nd d') \<and> evolves (nd d) (nd d')" by (rule handle_node [OF inv(1) en h])
  then have static: "map intf_static (interfaces (nd d')) = map intf_static (interfaces (nd d))" by (simp add: evolves_def)
  have "all_lsps daemon_lsp (nd d') \<and> list_all daemon_frame (frames_out outs)"
  proof (cases ev)
    case (Configure s)
    with h inv(2) show ?thesis by (auto simp: handle_def ConfigureSystemID_def all_lsps_def)
  next
    case (Request req)
    with h inv(2) show ?thesis by (auto simp: handle_def res_simps)
  next
    case (HelloTimer i)
    with h inv(2) macs show ?thesis
      by (auto simp: handle_def res_simps isisHelloSend_step_def Let_def frames_out_def daemon_frame_hello split: if_splits)
  next
    case (FloodTimer i ks)
    with h en isisUpdate_frames [OF inv(1,2) _ _ _ macs] show ?thesis
      by (fastforce simp: handle_def enabled_def res_simps)
  next
    case (FrameIn i raw)
    show ?thesis
    proof (cases "recvPdus_dispatch raw = Inr Dropped")
      case True
      with h FrameIn inv(2) show ?thesis by (auto simp: handle_def)
    next
      case False
      with ex FrameIn obtain frame rest where raw: "raw = frame_slice frame rest" "daemon_frame frame"
        by (auto simp: expected_def)
      from raw(2) show ?thesis
      proof (cases rule: daemon_frame_cases [of frame rest])
        case hello
        with h FrameIn raw(1) isisHelloRecv_lsps [OF inv] isisHelloRecv_frames [OF _ macs] show ?thesis
          by (fastforce simp: handle_def res_simps)
      next
        case (lsp l)
        have up: "update_inv (nd d)" using inv(1) by (simp add: node_inv_def)
        from isisUpdateInput_refines [OF up lsp(2), of "name (interfaces (nd d) ! i)"] h FrameIn raw(1) lsp(1)
        have "db_abs (UpdateDB (nd d')) = accept l (db_abs (UpdateDB (nd d)))" "outs = []"
          by (auto simp: handle_def res_simps)
        with inv(2) lsp(3) show ?thesis by (auto simp: all_lsps_def accept_def split: option.splits if_splits)
      qed
    qed
  next
    case (RunSPF i)
    with en obtain spf where spf: "pending d i = Some spf" by (auto simp: enabled_def)
    with h RunSPF obtain reqs where step: "isisDecision_step spf (nd d) = Inr (nd d', reqs)" "outs = map RouteAdd reqs"
      by (auto simp: handle_def res_simps)
    from isisDecision_node [OF inv(1) step(1)] have "UpdateDB (nd d') = UpdateDB (nd d)"
      by (metis node.select_convs(3) node.surjective node.update_convs(4))
    with inv(2) step(2) show ?thesis by (simp add: all_lsps_def)
  qed
  with n' inv(3,4) static_facts [OF static] show ?thesis by (simp add: daemon_ok_def)
qed

section \<open>No panics\<close>

lemma lookupNeighbors_length: "lookupNeighbors lsp = Inr nbrs \<Longrightarrow> length nbrs \<le> 23"
proof -
  have loop: "getNeighbors_loop k tlv cur = Inr nbrs \<Longrightarrow> length nbrs = k" for k tlv cur nbrs
    by (induction k arbitrary: cur nbrs) (auto simp: res_simps)
  have "unat (b :: byte) - 1 \<le> 254" for b
  proof -
    have "unat b < 256" by (rule order.strict_trans2 [OF unsigned_less]) simp
    then show ?thesis by linarith
  qed
  from div_le_mono [OF this, of _ 11] have "(unat (b :: byte) - 1) div 11 \<le> 23" for b by simp
  then have "getNeighbors tlv = Inr nbrs \<Longrightarrow> length nbrs \<le> 23" for tlv nbrs
    unfolding getNeighbors_def using loop by metis
  then have "lookupNeighbors_loop tlvs = Inr nbrs \<Longrightarrow> length nbrs \<le> 23" for tlvs nbrs
    by (induction tlvs) (auto split: if_splits)
  then show "lookupNeighbors lsp = Inr nbrs \<Longrightarrow> length nbrs \<le> 23" unfolding lookupNeighbors_def by blast
qed

lemma named_systems_card: "card (named_systems unknown) \<le> 23 * length unknown"
proof -
  let ?f = "\<lambda>nd :: lsp_node. case snd nd of None \<Rightarrow> {} | Some lsp \<Rightarrow>
     (case lookupNeighbors lsp of Inl e \<Rightarrow> {} | Inr nbrs \<Rightarrow> systemID_nbr ` set nbrs)"
  have each: "card (?f nd) \<le> 23" for nd
  proof (cases "\<exists>lsp nbrs. snd nd = Some lsp \<and> lookupNeighbors lsp = Inr nbrs")
    case True
    then obtain lsp nbrs where nd: "snd nd = Some lsp" "lookupNeighbors lsp = Inr nbrs" by blast
    have "card (systemID_nbr ` set nbrs) \<le> length nbrs" by (meson card_image_le card_length finite_set le_trans)
    with nd lookupNeighbors_length [OF nd(2)] show ?thesis by simp
  qed (auto split: option.split sum.split)
  have "card (named_systems unknown) \<le> (\<Sum>nd \<in> set unknown. card (?f nd))"
    unfolding named_systems_def by (intro card_UN_le) simp
  also have "\<dots> \<le> (\<Sum>nd \<in> set unknown. 23)" by (intro sum_mono each)
  also have "\<dots> \<le> 23 * length unknown" using card_length [of unknown] by simp
  finally show ?thesis .
qed

lemma initial_tent_length: "length (initial_tent intfs) \<le> length intfs"
proof -
  have short: "(\<And>x. length (f x) \<le> 1) \<Longrightarrow> length (concat (map f xs)) \<le> length xs" for f :: "nat \<times> Intf \<Rightarrow> Triple list" and xs
  proof (induction xs)
    case (Cons x xs)
    from Cons.IH [OF Cons.prems] Cons.prems [of x] show ?case by simp
  qed simp
  have "length (initial_tent intfs) \<le> length (zip [0..<length intfs] intfs)"
    unfolding initial_tent_def by (rule short) (simp add: case_prod_beta)
  then show ?thesis by simp
qed

lemma db_abs_entry:
  "update_inv n \<Longrightarrow> x \<in> set (AvlGetAll (UpdateDB n)) \<Longrightarrow> snd x = Some lsp \<Longrightarrow> db_abs (UpdateDB n) (fst x) = Some lsp"
  by (cases x) (simp add: update_inv_def updatedb_inv_def db_abs_def avl.get_eq_Some)

text \<open>The decision process on LSPs of daemons.\<close>

lemma computeSPF_returns:
  assumes "daemon_ok d" "length (AvlGetAll (UpdateDB (nd d))) \<le> 1000000"
  shows "\<exists>r. computeSPF (sid (nd d)) (nd d) = Inr r"
proof -
  let ?n = "nd d" let ?nodes = "AvlGetAll (UpdateDB ?n)" and ?tent = "initial_tent (interfaces ?n)"
  let ?own = "\<lparr>systemID = sid ?n, distance = 0, adj_ref = None\<rparr> :: Triple"
  have inv: "update_inv ?n" "lsps_full ?n" "avl_inv (TopoDB ?n)" and lsps: "all_lsps daemon_lsp ?n"
    and intfs: "length (interfaces ?n) \<le> 23"
    using assms(1) by (simp_all add: daemon_ok_def node_inv_def topo_inv_def)
  have "\<forall>nd \<in> set ?nodes. snd nd \<noteq> None" using database_readable(2) [OF inv(1,2)] by blast
  from own_scan_result [OF this, of "sid ?n" 0 "[]" None] obtain k index where
    scan: "own_scan (sid ?n) 0 ?nodes ([], None) = Inr (replicate k ?own, index)"
    and index: "index = None \<or> (\<exists>i < length ?nodes. index = Some i)" by (auto split: if_splits)
  show ?thesis
  proof (cases index)
    case None
    with scan show ?thesis by (simp add: computeSPF_def Let_def)
  next
    case (Some i)
    with index have i: "i < length ?nodes" by simp
    let ?unknown = "remove_at i ?nodes"
    have sub: "set ?unknown \<subseteq> set ?nodes" using remove_at_props(1) [OF i] by blast
    then have rd: "\<forall>nd \<in> set ?unknown. readable nd" using database_readable(1) [OF inv(1,2)] by blast
    have cost: "\<forall>u v w. lsp_edge ?unknown u v w \<longrightarrow> unat w \<le> 10"
    proof (intro allI impI)
      fix u v w assume "lsp_edge ?unknown u v w"
      then obtain x lsp nbrs nbr where e: "x \<in> set ?nodes" "snd x = Some lsp" "lookupNeighbors lsp = Inr nbrs"
        "nbr \<in> set nbrs" "metric_nbr nbr = w" using sub unfolding lsp_edge_def by blast
      from db_abs_entry [OF inv(1) e(1,2)] lsps e show "unat w \<le> 10" by (force simp: all_lsps_def daemon_lsp_def list_all_iff)
    qed
    have tent: "\<forall>t \<in> set ?tent. unat (distance t) \<le> 10" using seed_facts [OF inv(1)] by simp
    have "length ?tent \<le> 23" using initial_tent_length [of "interfaces ?n"] intfs by linarith
    moreover have systems: "card (named_systems ?unknown - (ids ?tent \<union> ids (replicate k ?own))) \<le> 23 * 1000000"
    proof -
      have "length ?unknown \<le> 1000000" using assms(2) remove_at_props(2) [OF i] by simp
      with named_systems_card [of ?unknown] have "card (named_systems ?unknown) \<le> 23 * 1000000" by linarith
      moreover have "card (named_systems ?unknown - (ids ?tent \<union> ids (replicate k ?own))) \<le> card (named_systems ?unknown)"
        by (intro card_mono) auto
      ultimately show ?thesis by linarith
    qed
    ultimately have "spf_measure ?unknown ?tent (replicate k ?own) \<le> 23 * 1000000 + 23"
      unfolding spf_measure_def by (intro add_mono)
    then have "10 + 10 * spf_measure ?unknown ?tent (replicate k ?own) < 2 ^ 32 - 1" by (simp add: le_less_trans)
    from spf_loop_returns [OF rd cost tent this, of "interfaces ?n"] obtain paths where
      loop: "spf_loop (interfaces ?n) ?unknown ?tent (int (length ?tent)) (replicate k ?own) = Inr paths" by blast
    have "\<forall>t \<in> set paths. adj_ref t \<in> insert None (Some ` {..<length (interfaces ?n)})"
      by (rule spf_loop_refs [OF loop]) (auto simp: set_initial_tent)
    then have "installRouteFromPath (UpdateDB ?n) (interfaces ?n) t = Inr (requests ?n t)" if "t \<in> set paths" for t
      using that by (intro installRouteFromPath_ok [OF inv(1,2)]) auto
    from store_paths [OF inv(3) this, of paths "[]"] loop scan Some show ?thesis by (auto simp: computeSPF_def Let_def)
  qed
qed

lemma expected_handled:
  assumes "daemon_ok d" "length (AvlGetAll (UpdateDB (nd d))) \<le> 1000000" "enabled ev d" "expected ev"
  shows "\<exists>r. handle getMac ev d = Inr r"
proof (cases ev)
  case (Configure s)
  then show ?thesis by (simp add: handle_def ConfigureSystemID_def)
next
  case (Request req)
  have "node_inv (nd d)" "\<not> unprintable (nd d)"
    using assms(1) counted_not_empty by (auto simp: daemon_ok_def all_lsps_def daemon_lsp_def unprintable_def)
  with Request request_panic [of d getMac req] show ?thesis by (cases "handle getMac ev d") auto
next
  case (HelloTimer i)
  with assms(3) show ?thesis by (simp add: handle_def enabled_def isisHelloSend_step_def Let_def)
next
  case (FloodTimer i ks)
  with assms(3) show ?thesis by (simp add: handle_def enabled_def isisUpdate_step_def Let_def case_prod_beta)
next
  case (FrameIn i raw)
  have inv: "node_inv (nd d)" "i < length (interfaces (nd d))" using assms(1,3) FrameIn by (simp_all add: daemon_ok_def enabled_def)
  have "\<not> undecodable raw e \<and> \<not> lone_own_tlv mac s raw" for e mac s
  proof (cases "recvPdus_dispatch raw = Inr Dropped")
    case True
    then show ?thesis by (simp add: undecodable_def lone_own_tlv_def)
  next
    case False
    with assms(4) FrameIn obtain frame rest where raw: "raw = frame_slice frame rest" "daemon_frame frame"
      by (auto simp: expected_def)
    from raw(2) show ?thesis
      by (cases rule: daemon_frame_cases [of frame rest]) (auto simp: undecodable_def lone_own_tlv_def raw(1))
  qed
  with frame_panic [OF inv, of getMac raw] FrameIn show ?thesis by (cases "handle getMac ev d") auto
next
  case (RunSPF i)
  with assms(3) obtain spf where spf: "pending d i = Some spf" by (auto simp: enabled_def)
  from computeSPF_returns [OF assms(1,2)] obtain r where "isisDecision_step spf (nd d) = Inr r"
    by (cases spf) (auto simp: isisDecision_step_def)
  with RunSPF spf show ?thesis by (simp add: handle_def case_prod_beta)
qed

lemma net_event_cases:
  assumes "net_enabled ev s"
  obtains a lev where "net_handle macs ev s = node_event macs a lev s" "a < length (daemons s)" "enabled lev (daemons s ! a)"
    "network_ok s \<Longrightarrow> expected lev"
proof (cases ev)
  case (Local a lev)
  with assms show thesis
    by (intro that [of a lev]) (auto simp: net_enabled_def net_handle_def expected_def split: event.splits)
next
  case (Deliver a i j rest)
  with assms show thesis
    by (intro that [of a "FrameIn i (frame_slice (wire s ! j) rest)"])
      (auto simp: net_enabled_def net_handle_def expected_def network_ok_def list_all_length)
qed

text \<open>Every interface has a hardware address of six bytes.\<close>

definition macs_ok :: "(nat \<Rightarrow> string \<Rightarrow> bytes) \<Rightarrow> bool" where
  "macs_ok macs \<longleftrightarrow> (\<forall>a ifname. length (macs a ifname) = 6)"

lemma network_ok_step:
  assumes "network_ok s" "macs_ok macs" "net_enabled ev s" "net_handle macs ev s = Inr (s', outs)"
  shows "network_ok s'"
proof -
  obtain a lev where ev: "net_handle macs ev s = node_event macs a lev s" "a < length (daemons s)"
    "enabled lev (daemons s ! a)" "expected lev" by (rule net_event_cases [OF assms(3), of macs]) (use assms(1) in blast)
  with assms(4) obtain d louts where
    h: "handle (macs a) lev (daemons s ! a) = Inr (d, louts)"
    and s': "s' = s\<lparr>daemons := (daemons s)[a := d], wire := wire s @ frames_out louts\<rparr>"
    by (auto simp: node_event_def res_simps)
  have ok: "daemon_ok (daemons s ! a)" using assms(1) ev(2) by (simp add: network_ok_def list_all_length)
  have mac: "length (macs a ifname) = 6" for ifname using assms(2) by (simp add: macs_ok_def)
  have "daemon_ok d \<and> list_all daemon_frame (frames_out louts)" by (rule handle_daemon_ok [OF ok mac ev(3,4) h])
  with assms(1) set_update_subset_insert [of "daemons s" a d] show ?thesis by (auto simp: network_ok_def s' list_all_iff)
qed

interpretation net_run: invariant_system net_enabled "net_handle macs" "\<lambda>s. network_ok s \<and> macs_ok macs"
  for macs
  by unfold_locales (use network_ok_step in blast)

lemma network_progress:
  assumes "network_ok s" "net_enabled ev s" "list_all (\<lambda>d. length (AvlGetAll (UpdateDB (nd d))) \<le> 1000000) (daemons s)"
  shows "\<exists>r. net_handle macs ev s = Inr r"
proof -
  obtain a lev where ev: "net_handle macs ev s = node_event macs a lev s" "a < length (daemons s)"
    "enabled lev (daemons s ! a)" "expected lev" by (rule net_event_cases [OF assms(2), of macs]) (use assms(1) in blast)
  have "daemon_ok (daemons s ! a)" "length (AvlGetAll (UpdateDB (nd (daemons s ! a)))) \<le> 1000000"
    using assms(1,3) ev(2) by (simp_all add: network_ok_def list_all_length)
  from expected_handled [OF this ev(3,4), of "macs a"] ev(1) show ?thesis by (auto simp: node_event_def)
qed

section \<open>Properties of networks\<close>

text \<open>
  Networks at their start: every daemon has just come out of the boot sequence, on a machine whose routes are
  IPv4 prefixes of four bytes, and nothing is sent yet.  The code checks no limits, but the one-byte
  length of a TLV has room for 23 neighbours and 21 prefixes only.
\<close>

definition booted :: "daemon \<Rightarrow> bool" where
  "booted d \<longleftrightarrow> (\<exists>routeList net_interfaces. routes_v4 routeList \<and> start routeList net_interfaces = Inr d)"

definition within_limits :: "daemon \<Rightarrow> bool" where
  "within_limits d \<longleftrightarrow> length (interfaces (nd d)) \<le> 23 \<and> length (connected_routes (interfaces (nd d))) \<le> 21"

lemma booted_ok:
  assumes "booted d" "within_limits d"
  shows "daemon_ok d"
proof -
  from assms(1) obtain routeList ifs where start: "routes_v4 routeList" "start routeList ifs = Inr d" by (auto simp: booted_def)
  from start(2) have "boot routeList ifs = Inr (nd d)" by (auto simp: start_def res_simps)
  from boot_node [OF this] start_inv [OF start] assms(2) show ?thesis
    by (simp add: daemon_ok_def within_limits_def all_lsps_def)
qed

lemma booted_network:
  "list_all booted ds \<Longrightarrow> list_all within_limits ds \<Longrightarrow> network_ok \<lparr>daemons = ds, wire = []\<rparr>"
  using booted_ok by (simp add: network_ok_def list_all_iff)

text \<open>
  C1: a network of daemons does not take itself down.  Any number of freshly booted daemons, each with at most 23
  interfaces and at most 21 connected prefixes, on machines with four-byte IPv4 routes and six-byte
  hardware addresses, run in any interleaving, are configured and reconfigured at any time with any system IDs,
  are asked for their state at any time, and receive each other's frames on any interfaces in any order and any number
  of times, as well as frames of other protocols: as long as no database holds more than a million LSPs, no event
  makes any daemon panic.
\<close>

theorem network_never_panics:
  assumes "list_all booted ds" and "list_all within_limits ds" and "macs_ok macs"
    and "runs net_enabled (net_handle macs) \<lparr>daemons = ds, wire = []\<rparr> evs outs s"
    and "list_all (\<lambda>d. length (AvlGetAll (UpdateDB (nd d))) \<le> 1000000) (daemons s)" and "net_enabled ev s"
  shows "\<exists>s' outs'. net_handle macs ev s = Inr (s', outs')"
proof -
  from net_run.runs_inv [OF assms(4)] booted_network [OF assms(1,2)] assms(3) have "network_ok s" by blast
  from network_progress [OF this assms(6,5), of macs] show ?thesis by auto
qed

lemma sample_booted: "booted sample_daemon" "within_limits sample_daemon"
  using sample_start sample_routes_v4
  by (auto simp: booted_def) (simp add: within_limits_def sample_daemon_def new_Intf_def connected_routes_def sample_routes_def)

theorem network_never_panics_witness:
  "\<exists>s' outs'. net_handle (\<lambda>a ifname. [2, 0, 0, 0, 0, 1]) (Local 1 (HelloTimer 0))
     \<lparr>daemons = [sample_daemon, sample_daemon], wire = []\<rparr> = Inr (s', outs')"
proof (rule network_never_panics [OF _ _ _ runs_nil])
  show "list_all booted [sample_daemon, sample_daemon]" "list_all within_limits [sample_daemon, sample_daemon]"
    by (simp_all add: sample_booted)
  show "macs_ok (\<lambda>a ifname. [2, 0, 0, 0, 0, 1])" by (simp add: macs_ok_def)
qed (simp_all add: net_enabled_def enabled_def sample_daemon_def AvlGetAll_entries)

text \<open>
  C17: everything a daemon of such a network sends can be decoded: a network of freshly booted daemons, each with at
  most 23 interfaces and at most 21 connected prefixes, on machines with four-byte IPv4 routes and
  six-byte hardware addresses.  Every frame on the wire is put on the channel of its process by every
  receiver, whatever else is in the receive buffer, and is either a hello with no TLV or exactly two, or an LSP that
  decodes to an LSP all of whose links have cost 10.
\<close>

theorem network_frames_decode:
  assumes "list_all booted ds" and "list_all within_limits ds" and "macs_ok macs"
    and "runs net_enabled (net_handle macs) \<lparr>daemons = ds, wire = []\<rparr> evs outs s" and "frame \<in> set (wire s)"
  shows "(\<exists>pdu mac. recvPdus_dispatch (frame_slice frame rest) = Inr HelloChan \<and>
      recvHello (frame_slice frame rest) = Inr (Some (pdu, mac)) \<and> length (FirstTLV_hello pdu) \<in> {0, 2}) \<or>
    (\<exists>lsp nbrs. recvPdus_dispatch (frame_slice frame rest) = Inr UpdateChan \<and>
      deserializeLsp (frame_slice frame rest) = Inr lsp \<and>
      lookupNeighbors lsp = Inr nbrs \<and> list_all (\<lambda>nbr. metric_nbr nbr = 10) nbrs)"
proof -
  from net_run.runs_inv [OF assms(4)] booted_network [OF assms(1,2)] assms(3,5) have "daemon_frame frame"
    by (auto simp: network_ok_def list_all_iff)
  then show ?thesis
  proof (cases rule: daemon_frame_cases [of frame rest])
    case (lsp l)
    then show ?thesis by (auto simp: daemon_lsp_def split: sum.splits)
  qed blast
qed

text \<open>A network of two daemons, the first of which is configured and sends its first hello.\<close>

definition sample_configured :: daemon where
  "sample_configured = sample_daemon\<lparr>nd := (nd sample_daemon)\<lparr>sid := ''1111.1111.1111''\<rparr>\<rparr>"

definition sample_hello :: bytes where
  "sample_hello = sendHello (\<lambda>_. [2, 0, 0, 0, 0, 1]) (interfaces (nd sample_daemon) ! 0) ''1111.1111.1111'' None"

lemma sample_net_run:
  "\<exists>outs. runs net_enabled (net_handle (\<lambda>a ifname. [2, 0, 0, 0, 0, 1])) \<lparr>daemons = [sample_daemon, sample_daemon], wire = []\<rparr>
    ([Local 0 (Configure ''1111.1111.1111'')] @ [Local 0 (HelloTimer 0)]) outs
    \<lparr>daemons = [sample_configured, sample_daemon], wire = [sample_hello]\<rparr>"
  by (intro exI, rule runs_append, rule runs_step)
    (simp_all add: net_enabled_def enabled_def net_handle_def node_event_def handle_def ConfigureSystemID_def
      sample_configured_def [symmetric],
     rule runs_step, simp_all add: net_enabled_def enabled_def net_handle_def node_event_def handle_def
      isisHelloSend_step_def sample_configured_def sample_daemon_def new_Intf_def sample_hello_def frames_out_def)

theorem network_frames_decode_witness:
  "(\<exists>pdu mac. recvPdus_dispatch (frame_slice sample_hello []) = Inr HelloChan \<and>
      recvHello (frame_slice sample_hello []) = Inr (Some (pdu, mac)) \<and> length (FirstTLV_hello pdu) \<in> {0, 2}) \<or>
    (\<exists>lsp nbrs. recvPdus_dispatch (frame_slice sample_hello []) = Inr UpdateChan \<and>
      deserializeLsp (frame_slice sample_hello []) = Inr lsp \<and>
      lookupNeighbors lsp = Inr nbrs \<and> list_all (\<lambda>nbr. metric_nbr nbr = 10) nbrs)"
proof -
  obtain outs where run: "runs net_enabled (net_handle (\<lambda>a ifname. [2, 0, 0, 0, 0, 1]))
      \<lparr>daemons = [sample_daemon, sample_daemon], wire = []\<rparr>
      ([Local 0 (Configure ''1111.1111.1111'')] @ [Local 0 (HelloTimer 0)]) outs
      \<lparr>daemons = [sample_configured, sample_daemon], wire = [sample_hello]\<rparr>" using sample_net_run by blast
  show ?thesis by (rule network_frames_decode [OF _ _ _ run]) (simp_all add: sample_booted macs_ok_def)
qed

end
