(* ===== verification/Convergence.thy ===== *)
theory Convergence
  imports Network
begin

text \<open>
  The daemons do their job: two booted daemons on a link, once configured, can go through the handshake, flood
  their LSPs to each other and compute their routes, after which each has requested a route to every network
  the other is connected to.  The theory follows the two halves of the handshake and the two exchanges of LSPs as
  runs of the network.
\<close>

section \<open>Steps of the network\<close>

definition leads :: "(nat \<Rightarrow> string \<Rightarrow> bytes) \<Rightarrow> network \<Rightarrow> (nat \<times> effect) list \<Rightarrow> network \<Rightarrow> bool" where
  "leads macs s outs s' \<longleftrightarrow> (\<exists>es. runs net_enabled (net_handle macs) s es outs s')"

lemma leads_trans [trans]: "leads macs s outs t \<Longrightarrow> leads macs t outs' u \<Longrightarrow> leads macs s (outs @ outs') u"
  unfolding leads_def by (elim exE) (rule exI, erule runs_append)

lemma leads_ok: "leads macs s outs s' \<Longrightarrow> network_ok s \<Longrightarrow> macs_ok macs \<Longrightarrow> network_ok s'"
  unfolding leads_def using net_run.runs_inv by blast

text \<open>No event of a network changes an interface table but for adjacencies and flood states.\<close>

definition same_interfaces :: "network \<Rightarrow> network \<Rightarrow> bool" where
  "same_interfaces s s' \<longleftrightarrow> length (daemons s') = length (daemons s) \<and> (\<forall>a < length (daemons s).
     map intf_static (interfaces (nd (daemons s' ! a))) = map intf_static (interfaces (nd (daemons s ! a))))"

lemma same_interfaces_step:
  assumes "network_ok s" "net_enabled ev s" "net_handle macs ev s = Inr (s', outs)"
  shows "same_interfaces s s'"
proof -
  obtain a lev where ev: "net_handle macs ev s = node_event macs a lev s" "a < length (daemons s)"
    "enabled lev (daemons s ! a)" by (rule net_event_cases [OF assms(2), of macs])
  with assms(3) obtain d louts where h: "handle (macs a) lev (daemons s ! a) = Inr (d, louts)"
    and s': "daemons s' = (daemons s)[a := d]" by (auto simp: node_event_def res_simps)
  have "node_inv (nd (daemons s ! a))" using assms(1) ev(2) by (simp add: network_ok_def list_all_length daemon_ok_def)
  from handle_node [OF this ev(3) h] have
    "map intf_static (interfaces (nd d)) = map intf_static (interfaces (nd (daemons s ! a)))" by (simp add: evolves_def)
  then show ?thesis using ev(2) by (simp add: same_interfaces_def s' nth_list_update)
qed

interpretation net_static: monotone_system net_enabled "net_handle macs" "\<lambda>s. network_ok s \<and> macs_ok macs" same_interfaces
  for macs
  by unfold_locales (use same_interfaces_step in \<open>auto simp: same_interfaces_def\<close>)

lemma leads_static:
  assumes "leads macs s outs s'" "network_ok s" "macs_ok macs" "x < length (daemons s)"
  shows "map intf_static (interfaces (nd (daemons s' ! x))) = map intf_static (interfaces (nd (daemons s ! x)))"
    and "length (daemons s') = length (daemons s)"
  using assms net_static.runs_below unfolding leads_def same_interfaces_def by blast+

definition step_to :: "nat \<Rightarrow> daemon \<Rightarrow> bytes list \<Rightarrow> network \<Rightarrow> network" where
  "step_to x d frames s = s\<lparr>daemons := (daemons s)[x := d], wire := wire s @ frames\<rparr>"

lemma step_to_sel [simp]:
  "daemons (step_to x d frames s) = (daemons s)[x := d]" "wire (step_to x d frames s) = wire s @ frames"
  by (simp_all add: step_to_def)

lemma leads_local:
  assumes "x < length (daemons s)" "enabled ev (daemons s ! x)" "\<And>i raw. ev \<noteq> FrameIn i raw"
    and "handle (macs x) ev (daemons s ! x) = Inr (d, outs)"
  shows "leads macs s (map (Pair x) outs) (step_to x d (frames_out outs) s)"
proof -
  have "net_enabled (Local x ev) s" using assms(1-3) by (simp add: net_enabled_def split: event.split)
  moreover have "net_handle macs (Local x ev) s = Inr (step_to x d (frames_out outs) s, map (Pair x) outs)"
    using assms(4) by (simp add: net_handle_def node_event_def step_to_def)
  ultimately show ?thesis
    unfolding leads_def by (intro exI [of _ "[Local x ev]"] runs_step)
qed

lemma leads_deliver:
  assumes "x < length (daemons s)" "frame \<in> set (wire s)"
    and "enabled (FrameIn i (frame_slice frame rest)) (daemons s ! x)"
    and "handle (macs x) (FrameIn i (frame_slice frame rest)) (daemons s ! x) = Inr (d, outs)"
  shows "leads macs s (map (Pair x) outs) (step_to x d (frames_out outs) s)"
proof -
  obtain j where j: "j < length (wire s)" "wire s ! j = frame" using assms(2) by (auto simp: in_set_conv_nth)
  have "net_enabled (Deliver x i j rest) s" using assms(1,3) j by (simp add: net_enabled_def)
  moreover have "net_handle macs (Deliver x i j rest) s = Inr (step_to x d (frames_out outs) s, map (Pair x) outs)"
    using assms(4) j by (simp add: net_handle_def node_event_def step_to_def)
  ultimately show ?thesis unfolding leads_def by (intro exI [of _ "[Deliver x i j rest]"] runs_step)
qed

section \<open>The decision process with one neighbour\<close>

lemma database_size:
  assumes "update_inv n" shows "length (AvlGetAll (UpdateDB n)) = card (dom (db_abs (UpdateDB n)))"
proof -
  let ?t = "UpdateDB n"
  have inv: "avl_inv ?t" "\<forall>k d. (k, d) \<in> set (AvlGetAll ?t) \<longrightarrow> d \<noteq> None"
    using assms unfolding update_inv_def updatedb_inv_def by blast+
  have "dom (db_abs ?t) = fst ` set (AvlGetAll ?t)"
    using inv(2) by (force simp: db_abs_def dom_def avl.get_eq_Some [OF inv(1)])
  then show ?thesis using distinct_card [OF avl.get_all_distinct [OF inv(1)]] by simp
qed

lemma own_lsp_found:
  assumes "update_inv n" "db_abs (UpdateDB n) (systemIDToKey (sid n)) \<noteq> None" "canonical_sid (sid n)"
  shows "has_own_lsp n"
proof -
  obtain l where l: "db_abs (UpdateDB n) (systemIDToKey (sid n)) = Some l" using assms(2) by blast
  have db: "updatedb_inv (UpdateDB n)" using assms(1) by (simp add: update_inv_def)
  then have entry: "(systemIDToKey (sid n), Some l) \<in> set (AvlGetAll (UpdateDB n))"
    using l by (simp add: updatedb_inv_def db_abs_def avl.get_eq_Some)
  with db have "stored_ok l" "Key l = systemIDToKey (sid n)" unfolding updatedb_inv_def by blast+
  then have "LspID l = systemIDToLspID (sid n)"
    by (metis stored_ok_def systemIDToKey_LspID lspIDToKey_inject length_systemIDToLspID)
  then have "lsp_system l = sid n"
    using assms(3) by (simp add: lsp_system_def systemIDToLspID_prefix systemIDToString_systemIDToBytes)
  with entry show ?thesis unfolding has_own_lsp_def list_ex_iff by force
qed

lemma daemon_costs:
  assumes "daemon_ok d" shows "uniform_costs (nd d)"
proof -
  have inv: "update_inv (nd d)" and lsps: "all_lsps daemon_lsp (nd d)" using assms by (simp_all add: daemon_ok_def node_inv_def)
  have "(case lookupNeighbors lsp of Inl e \<Rightarrow> [] | Inr nbrs \<Rightarrow> map (\<lambda>nbr. unat (metric_nbr nbr)) nbrs) = cs \<Longrightarrow>
      list_all (\<lambda>c. c = 10) cs" if "x \<in> set (AvlGetAll (UpdateDB (nd d)))" "snd x = Some lsp" for x lsp cs
    using db_abs_entry [OF inv that] lsps by (auto simp: all_lsps_def daemon_lsp_def list_all_iff split: sum.splits)
  then show ?thesis by (fastforce simp: uniform_costs_def link_costs_def list_all_iff split: option.splits)
qed

lemma max_cost_le: "\<forall>d \<in> set ds. d \<le> m \<Longrightarrow> max_cost ds \<le> m"
  by (induction ds) (simp_all add: max_cost_def)

lemma daemon_spf_ready:
  assumes "daemon_ok d" "length (AvlGetAll (UpdateDB (nd d))) \<le> 1000000" "no_self_adjacency (nd d)"
  shows "spf_ready (nd d)"
proof -
  let ?n = "nd d" let ?nodes = "AvlGetAll (UpdateDB ?n)" and ?tent = "initial_tent (interfaces ?n)"
  have inv: "update_inv ?n" "lsps_full ?n" "avl_inv (TopoDB ?n)" and intfs: "length (interfaces ?n) \<le> 23"
    using assms(1) by (simp_all add: daemon_ok_def node_inv_def topo_inv_def)
  have seeds: "max_cost (map (\<lambda>t. unat (distance t)) ?tent) \<le> 10"
    using seed_facts [OF inv(1)] by (intro max_cost_le) simp
  have links: "max_cost (link_costs ?nodes) \<le> 10"
    using daemon_costs [OF assms(1)] by (intro max_cost_le) (simp add: uniform_costs_def list_all_iff)
  have "card (ids ?tent) \<le> 23"
    using card_length [of "map systemID ?tent"] initial_tent_length [of "interfaces ?n"] intfs by simp
  moreover have "card (named_systems ?nodes) \<le> 23 * 1000000"
    using named_systems_card [of ?nodes] assms(2) by linarith
  ultimately have "card (systems ?tent ?nodes) \<le> 23 + 23 * 1000000"
    unfolding systems_def by (intro order.trans [OF card_Un_le] add_mono)
  then have "max_cost (link_costs ?nodes) * (card (systems ?tent ?nodes) + 2) \<le> 10 * (23 + 23 * 1000000 + 2)"
    using links by (intro mult_le_mono) auto
  with seeds have "no_overflow ?tent ?nodes" by (simp add: no_overflow_def)
  with inv assms(3) show ?thesis by (simp add: spf_ready_def)
qed

text \<open>A daemon with a single adjacency routes everything its neighbour advertises over it.\<close>

lemma neighbour_routed:
  assumes "daemon_ok d" "length (AvlGetAll (UpdateDB (nd d))) \<le> 1000000" "has_own_lsp (nd d)"
    and "ups (nd d) = {j}" "systemIDToString (neighborSystemID (adj (interfaces (nd d) ! j))) = v" "v \<noteq> sid (nd d)"
    and "neighborIP (adj (interfaces (nd d) ! j)) = Some gw" "getDirectlyConnectedPrefixes (UpdateDB (nd d)) v = Inr pfxs"
  obtains n' reqs where "computeSPF (sid (nd d)) (nd d) = Inr (n', reqs)" "n' = (nd d)\<lparr>TopoDB := TopoDB n'\<rparr>"
    "\<And>pfx. pfx \<in> set pfxs \<Longrightarrow> (pfx, gw) \<in> set reqs"
proof -
  let ?n = "nd d"
  have up: "j < length (interfaces ?n)" "state (adj (interfaces ?n ! j)) = ''UP''"
    "\<And>i. i < length (interfaces ?n) \<Longrightarrow> state (adj (interfaces ?n ! i)) = ''UP'' \<Longrightarrow> i = j"
    using assms(4) unfolding ups_def by blast+
  have "no_self_adjacency ?n"
    unfolding no_self_adjacency_def list_all_length
  proof (intro allI impI)
    fix i assume "i < length (interfaces ?n)" "state (adj (interfaces ?n ! i)) = ''UP''"
    then have "i = j" by (rule up(3))
    with assms(5,6) show "systemIDToString (neighborSystemID (adj (interfaces ?n ! i))) \<noteq> sid ?n" by simp
  qed
  note ready = daemon_spf_ready [OF assms(1,2) this]
  have inv: "update_inv ?n" using ready by (simp add: spf_ready_def)
  have "\<lparr>systemID = v, distance = 10, adj_ref = Some j\<rparr> \<in> set (initial_tent (interfaces ?n))"
    using up(1,2) up_adjacency [OF inv up(1,2)] assms(5) unfolding set_initial_tent by auto
  then have "spf_seed ?n (Some j) v 10" using assms(6) unfolding spf_seed_def seed_link_def by force
  then obtain c where c: "spf_shortest ?n v c"
    unfolding spf_shortest_def by (meson shortest_exists walk.start)
  show thesis
  proof (rule computeSPF_ok [OF ready assms(3)], goal_cases)
    case (1 paths n')
    from 1(6) [OF c] obtain t where t: "t \<in> set paths" "systemID t = v" by blast
    with 1(9) [OF daemon_costs [OF assms(1)]] assms(6) have "spf_walk ?n (adj_ref t) v (unat (distance t))" by auto
    from spf_walk_hop [OF this] up(3) have "adj_ref t = Some j" by blast
    from requests_eq [OF this up(1) assms(7)] t(2) assms(8) have "requests ?n t = map (\<lambda>pfx. (pfx, gw)) pfxs" by simp
    then have "(pfx, gw) \<in> set (requests ?n t)" if "pfx \<in> set pfxs" for pfx using that by simp
    with t assms(6) show thesis by (intro that [OF 1(1,2)]) auto
  qed
qed

section \<open>Half of the handshake\<close>

lemma hello_exchange:
  assumes "macs_ok macs" "network_ok s" "x < length (daemons s)" "y < length (daemons s)" "x \<noteq> y"
  defines "nx \<equiv> nd (daemons s ! x)" and "ny \<equiv> nd (daemons s ! y)"
  assumes "i < length (interfaces nx)" "j < length (interfaces ny)" "state (adj (interfaces nx ! i)) \<noteq> ''UP''"
    and "canonical_sid (sid nx)" "canonical_sid (sid ny)" "sid nx \<noteq> sid ny"
  defines "up \<equiv> adj_up (systemIDToBytes (sid ny)) (valueTLV (getInterfaceTLV (interfaces ny ! j)))"
  obtains s' outs nx' where "leads macs s outs s'"
    "daemons s' = (daemons s)[y := (daemons s ! y)\<lparr>nd := set_adj j adj_init ny\<rparr>, x := (daemons s ! x)\<lparr>nd := nx'\<rparr>]"
    "sid nx' = sid nx" "length (interfaces nx') = length (interfaces nx)"
    "adj (interfaces nx' ! i) = up (adj (interfaces nx ! i))"
    "\<And>k. k < length (interfaces nx) \<Longrightarrow> k \<noteq> i \<Longrightarrow> adj (interfaces nx' ! k) = adj (interfaces nx ! k)"
    "\<And>k. k < length (interfaces nx) \<Longrightarrow> prefix (interfaces nx' ! k) = prefix (interfaces nx ! k)"
    "db_abs (UpdateDB nx') = (db_abs (UpdateDB nx))
      (systemIDToKey (sid nx) \<mapsto> local_lsp (sequenceNumber nx + 1) (sid nx) (interfaces (set_adj i up nx)))"
    "\<And>intf. intf \<in> set (interfaces nx') \<Longrightarrow> needs_flooding intf (systemIDToKey (sid nx))"
proof -
  let ?dx = "daemons s ! x" and ?dy = "daemons s ! y"
  have mac: "length (macs a ifname) = 6" for a ifname using assms(1) by (simp add: macs_ok_def)
  have "daemon_ok ?dx" using assms(2,3) by (simp add: network_ok_def list_all_length)
  then have inv: "update_inv nx" by (simp add: daemon_ok_def node_inv_def nx_def)
  have sids: "sid nx \<noteq> []" "systemIDToString (systemIDToBytes (sid nx)) \<noteq> sid ny"
    "systemIDToString (systemIDToBytes (sid ny)) \<noteq> sid nx"
    using assms(11-13) systemIDToString_systemIDToBytes by (auto simp: canonical_sid_def)
  let ?h = "sendHello (macs x) (interfaces nx ! i) (sid nx) None"
  let ?r = "sendHello (macs y) (interfaces (set_adj j adj_init ny) ! j) (sid ny)
    (Some \<lparr>typeTLV = 6, lengthTLV = 6, valueTLV = macs x (name (interfaces nx ! i))\<rparr>)"
  show thesis
  proof (rule handshake_exchange [where macX = "macs x" and macY = "macs y" and ?r1.0 = "[]" and ?r2.0 = "[]",
        OF inv assms(8-10) sids(1) mac mac sids(2,3), folded up_def], goal_cases)
    case (1 nx')
    let ?dy' = "?dy\<lparr>nd := set_adj j adj_init ny\<rparr>" and ?dx' = "?dx\<lparr>nd := nx'\<rparr>"
    let ?s1 = "step_to x ?dx [?h] s" let ?s2 = "step_to y ?dy' [?r] ?s1" let ?s3 = "step_to x ?dx' [] ?s2"
    have "leads macs s [(x, FrameOut i ?h)] ?s1"
      using leads_local [OF assms(3), of "HelloTimer i" macs ?dx "[FrameOut i ?h]"] 1(1) assms(8)
      by (simp add: enabled_def handle_def nx_def frames_out_def)
    also have "leads macs ?s1 [(y, FrameOut j ?r)] ?s2"
      using leads_deliver [of y ?s1 ?h j "[]" macs ?dy' "[FrameOut j ?r]"] 1(2) assms(4,5,9)
        sendHello_received [of "macs x" "interfaces nx ! i" "sid nx" None "[]", OF mac]
      by (simp add: enabled_def handle_def ny_def frames_out_def)
    also have "leads macs ?s2 [] ?s3"
      using leads_deliver [of x ?s2 ?r i "[]" macs ?dx' "[]"] 1(3) assms(3,5,8)
        sendHello_received [of "macs y" "interfaces (set_adj j adj_init ny) ! j" "sid ny"
          "Some \<lparr>typeTLV = 6, lengthTLV = 6, valueTLV = macs x (name (interfaces nx ! i))\<rparr>" "[]", OF mac]
      by (simp add: enabled_def handle_def nx_def)
    finally have run: "leads macs s ([(x, FrameOut i ?h)] @ [(y, FrameOut j ?r)] @ []) ?s3" by simp
    show thesis by (rule that [OF run]) (use 1(5-11) in \<open>simp_all add: list_update_swap\<close>)
  qed
qed

section \<open>Half of the exchange of LSPs\<close>

text \<open>One end of a link that is up, with the own LSP in the database and nothing else but what the neighbour sent.\<close>

definition link_end :: "daemon \<Rightarrow> nat \<Rightarrow> string \<Rightarrow> bytes \<Rightarrow> bool" where
  "link_end d i peer gw \<longleftrightarrow> ups (nd d) = {i} \<and> neighborSystemID (adj (interfaces (nd d) ! i)) = systemIDToBytes peer \<and>
     neighborIP (adj (interfaces (nd d) ! i)) = Some gw \<and> pending d i = None \<and>
     canonical_sid (sid (nd d)) \<and> canonical_sid peer \<and> sid (nd d) \<noteq> peer \<and>
     (\<exists>seq intfs. db_abs (UpdateDB (nd d)) (systemIDToKey (sid (nd d))) = Some (local_lsp seq (sid (nd d)) intfs) \<and>
        connected_routes intfs = connected_routes (interfaces (nd d))) \<and>
     dom (db_abs (UpdateDB (nd d))) \<subseteq> {systemIDToKey (sid (nd d)), systemIDToKey peer}"

lemma ups_cong:
  assumes "length (interfaces n') = length (interfaces n)"
    and "\<And>k. k < length (interfaces n) \<Longrightarrow> adj (interfaces n' ! k) = adj (interfaces n ! k)"
  shows "ups n' = ups n"
  using assms by (auto simp: ups_def)

lemma canonical_keys: "canonical_sid a \<Longrightarrow> canonical_sid b \<Longrightarrow> a \<noteq> b \<Longrightarrow> systemIDToKey a \<noteq> systemIDToKey b"
  by (metis sid_string_key_inject sid_string_def systemIDToString_systemIDToBytes length_systemIDToBytes)

lemma advertised_prefixes:
  assumes "daemon_ok d" "connected_routes intfs = connected_routes (interfaces (nd d))"
  shows "prefixes_of_tlvs (FirstTLV (CoreLsp (local_lsp seq s intfs))) = Inr (connected_routes (interfaces (nd d)))"
proof -
  have "\<forall>r \<in> set (connected_routes intfs). length (IP r) = 4 \<and> length (Mask r) = 4" "length (connected_routes intfs) \<le> 21"
    using assms by (simp_all add: daemon_ok_def node_inv_def routes_inv_def list_all_iff v4_route_def)
  from getPrefixes_getIPReachTLV [OF this] assms(2) show ?thesis
    by (simp add: local_lsp_fields ISIS_IP_INTERNAL_REACH_TLV_def getIPReachTLV_eq)
qed

text \<open>The flooding goroutine of the one end, with the frame of its own LSP.\<close>

lemma own_lsp_flooded:
  assumes "daemon_ok d" "link_end d i peer gw" "needs_flooding (interfaces (nd d) ! i) (systemIDToKey (sid (nd d)))"
    and "db_abs (UpdateDB (nd d)) (systemIDToKey (sid (nd d))) = Some lsp"
  obtains ks sent where "enabled (FloodTimer i ks) d"
    "handle getMac (FloodTimer i ks) d = Inr (d\<lparr>nd := (nd d)\<lparr>interfaces := (interfaces (nd d))
      [i := clear_srm (interfaces (nd d) ! i)]\<rparr>\<rparr>, map (FrameOut i) sent)"
    "lsp_frame (getMac (name (interfaces (nd d) ! i))) lsp \<in> set sent"
proof -
  let ?n = "nd d" let ?k = "systemIDToKey (sid ?n)"
  have inv: "update_inv ?n" using assms(1) by (simp add: daemon_ok_def node_inv_def)
  have i: "i < length (interfaces ?n)" "state (adj (interfaces ?n ! i)) = ''UP''"
    using assms(2) unfolding link_end_def ups_def by blast+
  have "finite (dom (lspFloodStates (interfaces ?n ! i)))"
  proof (rule finite_subset)
    show "dom (lspFloodStates (interfaces ?n ! i)) \<subseteq> {?k, systemIDToKey peer}"
      using inv nth_mem [OF i(1)] assms(2) unfolding update_inv_def flooding_inv_def link_end_def by blast
  qed simp
  from finite_distinct_list [OF this]
  obtain ks where ks: "set ks = dom (lspFloodStates (interfaces ?n ! i))" "distinct ks" by (elim exE conjE)
  have "?k \<in> set ks" using assms(3) by (auto simp: ks needs_flooding_def split: option.splits)
  then have "?k \<in> set (filter (needs_flooding (interfaces ?n ! i)) ks)" using assms(3) by simp
  from imageI [OF this, of "\<lambda>k. lsp_frame (getMac (name (interfaces ?n ! i))) (the (db_abs (UpdateDB ?n) k))"]
  have sent: "lsp_frame (getMac (name (interfaces ?n ! i))) lsp \<in> set (map (\<lambda>k. lsp_frame (getMac (name (interfaces ?n ! i)))
      (the (db_abs (UpdateDB ?n) k))) (filter (needs_flooding (interfaces ?n ! i)) ks))"
    unfolding set_map assms(4) option.sel .
  have en: "enabled (FloodTimer i ks) d" using i(1) ks by (simp add: enabled_def)
  note isisUpdate_step_sends [OF inv i(1) ks(2,1), of getMac, unfolded Let_def if_P [OF i(2)]]
  then show thesis by (intro that [OF en _ sent]) (simp add: handle_def)
qed

text \<open>The other end takes the LSP, is triggered and computes its routes.\<close>

lemma lsp_routed:
  assumes "daemon_ok d" "link_end d j peer gw" "daemon_lsp lsp" "Key lsp = systemIDToKey peer" "length mac = 6"
    and "db_abs (UpdateDB (nd d)) (systemIDToKey peer) = None" "prefixes_of_tlvs (FirstTLV (CoreLsp lsp)) = Inr pfxs"
    and "\<And>ifname. length (getMac ifname) = 6"
  defines "raw \<equiv> frame_slice (lsp_frame mac lsp) []"
  obtains d1 n' reqs where "enabled (FrameIn j raw) d" "handle getMac (FrameIn j raw) d = Inr (d1, [])"
    "enabled (RunSPF j) d1" "handle getMac (RunSPF j) d1 = Inr (d\<lparr>nd := n'\<rparr>, map RouteAdd reqs)"
    "sid n' = sid (nd d)" "db_abs (UpdateDB n') = (db_abs (UpdateDB (nd d)))(systemIDToKey peer \<mapsto> lsp)"
    "interfaces n' = floodNewLsp (name (interfaces (nd d) ! j)) lsp (interfaces (nd d))"
    "\<And>pfx. pfx \<in> set pfxs \<Longrightarrow> (pfx, gw) \<in> set reqs"
proof -
  let ?n = "nd d"
  have inv: "update_inv ?n" using assms(1) by (simp add: daemon_ok_def node_inv_def)
  have j: "j < length (interfaces ?n)" using assms(2) unfolding link_end_def ups_def by blast
  have raw: "recvPdus_dispatch raw = Inr UpdateChan" "deserializeLsp raw = Inr lsp"
    using lsp_frame_received [OF assms(5,3), of "[]"] by (simp_all add: raw_def)
  have db: "accept lsp (db_abs (UpdateDB ?n)) = (db_abs (UpdateDB ?n))(systemIDToKey peer \<mapsto> lsp)"
    using assms(4,6) by (simp add: accept_def)
  then have "accept lsp (db_abs (UpdateDB ?n)) \<noteq> db_abs (UpdateDB ?n)" using assms(6) by (metis fun_upd_same option.distinct(1))
  with isisUpdateInput_refines [OF inv raw(2), of "name (interfaces ?n ! j)"] db obtain n1 where
    n1: "isisUpdateInput_step (name (interfaces ?n ! j)) raw ?n = Inr (n1, True)"
    "db_abs (UpdateDB n1) = (db_abs (UpdateDB ?n))(systemIDToKey peer \<mapsto> lsp)"
    "n1 = ?n\<lparr>UpdateDB := UpdateDB n1, interfaces := interfaces n1\<rparr>"
    "interfaces n1 = floodNewLsp (name (interfaces ?n ! j)) lsp (interfaces ?n)" by auto
  have sid1: "sid n1 = sid ?n" by (subst n1(3)) simp
  let ?d1 = "d\<lparr>nd := n1, pending := (pending d)(j \<mapsto> True)\<rparr>"
  have pend: "pending d j = None" using assms(2) by (simp add: link_end_def)
  have en: "enabled (FrameIn j raw) d" using j pend by (simp add: enabled_def)
  have h: "handle getMac (FrameIn j raw) d = Inr (?d1, [])" using raw(1) n1(1) by (simp add: handle_def)
  have "expected (FrameIn j raw)" using daemon_frame_lsp [OF assms(5,3)] by (auto simp: expected_def raw_def)
  from handle_daemon_ok [OF assms(1,8) en this h] have ok: "daemon_ok ?d1" by blast
  have link: "ups ?n = {j}" "neighborSystemID (adj (interfaces ?n ! j)) = systemIDToBytes peer"
    "neighborIP (adj (interfaces ?n ! j)) = Some gw" "canonical_sid (sid ?n)" "canonical_sid peer" "peer \<noteq> sid ?n"
    "db_abs (UpdateDB ?n) (systemIDToKey (sid ?n)) \<noteq> None"
    "dom (db_abs (UpdateDB ?n)) \<subseteq> {systemIDToKey (sid ?n), systemIDToKey peer}"
    using assms(2) by (auto simp: link_end_def)
  have adjs: "length (interfaces n1) = length (interfaces ?n)"
    "\<And>k. k < length (interfaces ?n) \<Longrightarrow> adj (interfaces n1 ! k) = adj (interfaces ?n ! k)"
    by (simp_all add: n1(4) floodNewLsp_def)
  have ups: "ups n1 = {j}" using ups_cong [OF adjs] link(1) by simp
  have inv1: "update_inv n1" using ok by (simp add: daemon_ok_def node_inv_def)
  have own: "has_own_lsp n1" by (rule own_lsp_found [OF inv1]) (use link(4,7) n1(2) sid1 in auto)
  have "card (dom (db_abs (UpdateDB n1))) \<le> card {systemIDToKey (sid ?n), systemIDToKey peer}"
    using link(8) by (intro card_mono) (auto simp: n1(2))
  then have small: "length (AvlGetAll (UpdateDB n1)) \<le> 1000000"
    using database_size [OF inv1] card_insert_le_m1 [of 2 "{systemIDToKey peer}" "systemIDToKey (sid ?n)"] by simp
  have "AvlSearch (UpdateDB n1) (systemIDToKey peer) = Some lsp" using n1(2) unfolding db_abs_def by simp
  then have pfxs: "getDirectlyConnectedPrefixes (UpdateDB n1) peer = Inr pfxs"
    using assms(7) by (simp add: getDirectlyConnectedPrefixes_def)
  have hop: "systemIDToString (neighborSystemID (adj (interfaces n1 ! j))) = peer" "neighborIP (adj (interfaces n1 ! j)) = Some gw"
    using link(2,3) systemIDToString_systemIDToBytes [OF link(5)] adjs(2) [OF j] by simp_all
  from neighbour_routed [of ?d1 j peer gw pfxs] ok small own ups hop link(6) sid1 pfxs obtain n' reqs where
    n': "computeSPF (sid n1) n1 = Inr (n', reqs)" "n' = n1\<lparr>TopoDB := TopoDB n'\<rparr>"
    "\<And>pfx. pfx \<in> set pfxs \<Longrightarrow> (pfx, gw) \<in> set reqs" by auto
  have "handle getMac (RunSPF j) ?d1 = Inr (d\<lparr>nd := n'\<rparr>, map RouteAdd reqs)"
    using n'(1) pend by (cases d) (simp add: handle_def isisDecision_step_def fun_upd_idem)
  moreover have "sid n' = sid n1" "UpdateDB n' = UpdateDB n1" "interfaces n' = interfaces n1"
    by (subst n'(2), simp)+
  ultimately show thesis
    by (intro that [OF en h]) (use n'(3) n1(2,4) sid1 in \<open>simp_all add: enabled_def\<close>)
qed

lemma link_end_flooded:
  assumes "link_end d i peer gw"
  shows "link_end (d\<lparr>nd := (nd d)\<lparr>interfaces := (interfaces (nd d))[i := clear_srm (interfaces (nd d) ! i)]\<rparr>\<rparr>) i peer gw"
proof -
  let ?n = "(nd d)\<lparr>interfaces := (interfaces (nd d))[i := clear_srm (interfaces (nd d) ! i)]\<rparr>"
  have i: "i < length (interfaces (nd d))" using assms unfolding link_end_def ups_def by blast
  have "map routes (interfaces ?n) = map routes (interfaces (nd d))"
    by (simp add: map_update clear_srm_def list_update_same_conv i)
  then have "connected_routes (interfaces ?n) = connected_routes (interfaces (nd d))" by (simp add: connected_routes_def)
  moreover have "ups ?n = ups (nd d)" by (rule ups_cong) (simp_all add: nth_list_update i clear_srm_def)
  ultimately show ?thesis using assms i by (simp add: link_end_def clear_srm_def)
qed

lemma link_end_received:
  assumes "link_end d j peer gw" "sid n = sid (nd d)" "db_abs (UpdateDB n) = (db_abs (UpdateDB (nd d)))(systemIDToKey peer \<mapsto> lsp)"
    and "interfaces n = floodNewLsp ifname lsp (interfaces (nd d))"
  shows "link_end (d\<lparr>nd := n\<rparr>) j peer gw"
proof -
  have "ups n = ups (nd d)" by (rule ups_cong) (simp_all add: assms(4) floodNewLsp_def)
  moreover have "map routes (interfaces n) = map routes (interfaces (nd d))"
    by (simp add: assms(4) floodNewLsp_def comp_def if_distrib cong: if_cong)
  then have "connected_routes (interfaces n) = connected_routes (interfaces (nd d))" by (simp add: connected_routes_def)
  moreover have "j < length (interfaces (nd d))" using assms(1) unfolding link_end_def ups_def by blast
  moreover have "systemIDToKey (sid (nd d)) \<noteq> systemIDToKey peer"
    using assms(1) canonical_keys unfolding link_end_def by blast
  ultimately show ?thesis using assms by (auto simp: link_end_def floodNewLsp_def)
qed

lemma lsp_exchange:
  assumes "macs_ok macs" "network_ok s" "x < length (daemons s)" "y < length (daemons s)" "x \<noteq> y"
  defines "dx \<equiv> daemons s ! x" and "dy \<equiv> daemons s ! y"
  assumes "link_end dx i (sid (nd dy)) gwx" "link_end dy j (sid (nd dx)) gwy"
    and "needs_flooding (interfaces (nd dx) ! i) (systemIDToKey (sid (nd dx)))"
    and "db_abs (UpdateDB (nd dy)) (systemIDToKey (sid (nd dx))) = None"
  obtains s' outs ny' lsp where "leads macs s outs s'"
    "daemons s' = (daemons s)[x := dx\<lparr>nd := (nd dx)\<lparr>interfaces := (interfaces (nd dx))[i := clear_srm (interfaces (nd dx) ! i)]\<rparr>\<rparr>,
       y := dy\<lparr>nd := ny'\<rparr>]"
    "sid ny' = sid (nd dy)" "db_abs (UpdateDB ny') = (db_abs (UpdateDB (nd dy)))(systemIDToKey (sid (nd dx)) \<mapsto> lsp)"
    "interfaces ny' = floodNewLsp (name (interfaces (nd dy) ! j)) lsp (interfaces (nd dy))" "Key lsp = systemIDToKey (sid (nd dx))"
    "\<And>r. r \<in> set (connected_routes (interfaces (nd dx))) \<Longrightarrow> (y, RouteAdd (r, gwy)) \<in> set outs"
proof -
  have mac: "length (macs a ifname) = 6" for a ifname using assms(1) by (simp add: macs_ok_def)
  have ok: "daemon_ok dx" "daemon_ok dy" using assms(2-4) by (simp_all add: network_ok_def list_all_length dx_def dy_def)
  from assms(8) obtain seq intfs where
    lsp: "db_abs (UpdateDB (nd dx)) (systemIDToKey (sid (nd dx))) = Some (local_lsp seq (sid (nd dx)) intfs)"
    and routes: "connected_routes intfs = connected_routes (interfaces (nd dx))" unfolding link_end_def by blast
  let ?lsp = "local_lsp seq (sid (nd dx)) intfs"
  let ?dx = "dx\<lparr>nd := (nd dx)\<lparr>interfaces := (interfaces (nd dx))[i := clear_srm (interfaces (nd dx) ! i)]\<rparr>\<rparr>"
  let ?f = "lsp_frame (macs x (name (interfaces (nd dx) ! i))) ?lsp"
  have dlsp: "daemon_lsp ?lsp" using ok(1) lsp by (auto simp: daemon_ok_def all_lsps_def)
  obtain ks sent where f: "enabled (FloodTimer i ks) dx" "handle (macs x) (FloodTimer i ks) dx = Inr (?dx, map (FrameOut i) sent)"
    "?f \<in> set sent" by (rule own_lsp_flooded [OF ok(1) assms(8,10) lsp])
  show thesis
  proof (rule lsp_routed [where getMac = "macs y" and mac = "macs x (name (interfaces (nd dx) ! i))", OF ok(2) assms(9) dlsp local_lsp_fields(1) mac assms(11)
        advertised_prefixes [OF ok(1) routes] mac], goal_cases)
    case (1 d1 n' reqs)
    let ?s1 = "step_to x ?dx sent s" let ?s2 = "step_to y d1 [] ?s1" let ?s3 = "step_to y (dy\<lparr>nd := n'\<rparr>) [] ?s2"
    have "leads macs s (map (Pair x) (map (FrameOut i) sent)) ?s1"
      using leads_local [OF assms(3), of "FloodTimer i ks" macs] f(1,2) by (simp add: dx_def)
    also have "leads macs ?s1 [] ?s2"
      using leads_deliver [of y ?s1 ?f j "[]" macs d1 "[]"] 1(1,2) f(3) assms(4,5) by (simp add: dy_def)
    also have "leads macs ?s2 (map (Pair y) (map RouteAdd reqs)) ?s3"
      using leads_local [of y ?s2 "RunSPF j" macs] 1(3,4) assms(4) by simp
    finally have run: "leads macs s (map (Pair x) (map (FrameOut i) sent) @ [] @ map (Pair y) (map RouteAdd reqs)) ?s3" by simp
    show thesis
      by (rule that [OF run, of n' ?lsp]) (use 1(5-8) in \<open>auto simp: local_lsp_fields\<close>)
  qed
qed

section \<open>Both halves\<close>

text \<open>A daemon that has not heard from anyone.\<close>

definition fresh :: "daemon \<Rightarrow> bool" where
  "fresh d \<longleftrightarrow> UpdateDB (nd d) = NilNode \<and> pending d = Map.empty \<and>
     (\<forall>k < length (interfaces (nd d)). state (adj (interfaces (nd d) ! k)) = ''NEW'')"

lemma booted_fresh: "booted d \<Longrightarrow> fresh d"
proof -
  assume "booted d"
  then obtain routeList ifs where "start routeList ifs = Inr d" by (auto simp: booted_def)
  then have b: "boot routeList ifs = Inr (nd d)" "pending d = Map.empty" by (auto simp: start_def res_simps)
  from boot_node [OF b(1)] have "UpdateDB (nd d) = NilNode" "\<forall>i \<in> set (interfaces (nd d)). state (adj i) = ''NEW''"
    by (auto simp: new_Intf_def)
  with b(2) show "fresh d" by (simp add: fresh_def)
qed

lemma interface_address: "length (valueTLV (getInterfaceTLV intf)) = 4"
  "copy_zeroed 4 (valueTLV (getInterfaceTLV intf)) = valueTLV (getInterfaceTLV intf)"
  by (simp_all add: getInterfaceTLV_def copy_zeroed_def)

lemma set_adj_routes: "connected_routes (interfaces (set_adj i f n)) = connected_routes (interfaces n)"
proof (cases "i < length (interfaces n)")
  case True
  then have "map routes (interfaces (set_adj i f n)) = map routes (interfaces n)"
    by (simp add: set_adj_def map_update list_update_same_conv)
  then show ?thesis by (simp add: connected_routes_def)
qed (simp add: set_adj_def list_update_beyond)

lemma link_end_up:
  assumes "adj (interfaces n ! i) = adj_up (systemIDToBytes peer) (valueTLV (getInterfaceTLV intf)) a" "i < length (interfaces n)"
    and "\<And>k. k < length (interfaces n) \<Longrightarrow> k \<noteq> i \<Longrightarrow> state (adj (interfaces n ! k)) \<noteq> ''UP''"
    and "db_abs (UpdateDB n) = [systemIDToKey (sid n) \<mapsto> local_lsp seq (sid n) intfs]"
    and "connected_routes intfs = connected_routes (interfaces n)" "pending d i = None"
    and "canonical_sid (sid n)" "canonical_sid peer" "sid n \<noteq> peer"
  shows "link_end (d\<lparr>nd := n\<rparr>) i peer (valueTLV (getInterfaceTLV intf))"
proof -
  have "ups n = {i}" using assms(1-3) by (auto simp: ups_def adj_up_def)
  moreover have "copy_zeroed 6 (systemIDToBytes peer) = systemIDToBytes peer"
    by (simp add: copy_zeroed_def)
  ultimately show ?thesis using assms(1,4-9) by (auto simp: link_end_def adj_up_def interface_address)
qed

lemma link_comes_up:
  assumes "macs_ok macs" "network_ok s" "x < length (daemons s)" "y < length (daemons s)" "x \<noteq> y"
  defines "dx \<equiv> daemons s ! x" and "dy \<equiv> daemons s ! y"
  assumes "fresh dx" "fresh dy" "i < length (interfaces (nd dx))" "j < length (interfaces (nd dy))"
    and "canonical_sid (sid (nd dx))" "canonical_sid (sid (nd dy))" "sid (nd dx) \<noteq> sid (nd dy)"
  obtains s' outs nx ny where "leads macs s outs s'" "daemons s' = (daemons s)[x := dx\<lparr>nd := nx\<rparr>, y := dy\<lparr>nd := ny\<rparr>]"
    "sid nx = sid (nd dx)" "sid ny = sid (nd dy)"
    "link_end (dx\<lparr>nd := nx\<rparr>) i (sid (nd dy)) (valueTLV (getInterfaceTLV (interfaces (nd dy) ! j)))"
    "link_end (dy\<lparr>nd := ny\<rparr>) j (sid (nd dx)) (valueTLV (getInterfaceTLV (interfaces (nd dx) ! i)))"
    "needs_flooding (interfaces nx ! i) (systemIDToKey (sid (nd dx)))" "needs_flooding (interfaces ny ! j) (systemIDToKey (sid (nd dy)))"
    "db_abs (UpdateDB nx) (systemIDToKey (sid (nd dy))) = None" "db_abs (UpdateDB ny) (systemIDToKey (sid (nd dx))) = None"
proof -
  have new: "state (adj (interfaces (nd dx) ! i)) \<noteq> ''UP''" "state (adj (interfaces (nd dy) ! j)) \<noteq> ''UP''"
    using assms(8-11) by (simp_all add: fresh_def)
  note keys = canonical_keys [OF assms(12-14)]
  show thesis
  proof (rule hello_exchange [OF assms(1-5), of i j, folded dx_def dy_def], goal_cases)
    case (7 s1 outs1 nx)
    let ?ny = "set_adj j adj_init (nd dy)"
    have at: "daemons s1 ! x = dx\<lparr>nd := nx\<rparr>" "daemons s1 ! y = dy\<lparr>nd := ?ny\<rparr>" "length (daemons s1) = length (daemons s)"
      using 7(2) assms(3-5) by simp_all
    have ok: "network_ok s1" by (rule leads_ok [OF 7(1) assms(2,1)])
    have st: "state (adj (interfaces ?ny ! j)) \<noteq> ''UP''" using new(2) assms(11) by (simp add: adj_init_def)
    have "adj_init (adj (interfaces nx ! i)) = adj (interfaces nx ! i)" by (simp add: 7(5) adj_init_def adj_up_def)
    then have keep: "set_adj i adj_init nx = nx" by (simp add: set_adj_def)
    have addr: "getInterfaceTLV (interfaces nx ! i) = getInterfaceTLV (interfaces (nd dx) ! i)"
      using 7(7) assms(10) by (simp add: getInterfaceTLV_def)
    show ?thesis
    proof (rule hello_exchange [OF assms(1) ok, of y x j i, unfolded at], goal_cases)
      case (10 s2 outs2 ny)
      note run = leads_trans [OF 7(1) 10(1)]
      have s2: "daemons s2 = (daemons s)[x := dx\<lparr>nd := nx\<rparr>, y := dy\<lparr>nd := ny\<rparr>]"
        using 10(2) assms(3-5) by (simp add: 7(2) keep list_update_swap [OF assms(5)])
      have at2: "nd (daemons s2 ! x) = nx" "nd (daemons s2 ! y) = ny" using assms(3-5) by (simp_all add: s2)
      have routes: "connected_routes (interfaces nx) = connected_routes (interfaces (nd dx))"
        "connected_routes (interfaces ny) = connected_routes (interfaces (nd dy))"
        using static_facts(4) [OF leads_static(1) [OF run assms(2,1,3)]] static_facts(4) [OF leads_static(1) [OF run assms(2,1,4)]]
        unfolding at2 dx_def dy_def .
      let ?upx = "adj_up (systemIDToBytes (sid (nd dy))) (valueTLV (getInterfaceTLV (interfaces (nd dy) ! j)))"
      let ?upy = "adj_up (systemIDToBytes (sid (nd dx))) (valueTLV (getInterfaceTLV (interfaces (nd dx) ! i)))"
      have dbx: "db_abs (UpdateDB nx) = [systemIDToKey (sid nx) \<mapsto>
          local_lsp (sequenceNumber (nd dx) + 1) (sid nx) (interfaces (set_adj i ?upx (nd dx)))]"
        using 7(3,8) assms(8) by (simp add: fresh_def)
      have x: "link_end (dx\<lparr>nd := nx\<rparr>) i (sid (nd dy)) (valueTLV (getInterfaceTLV (interfaces (nd dy) ! j)))"
        by (rule link_end_up [OF 7(5) _ _ dbx])
          (use 7(3,4,6) assms(8,10,12-14) routes(1) in \<open>auto simp: fresh_def set_adj_routes\<close>)
      have dby: "db_abs (UpdateDB ny) = [systemIDToKey (sid ny) \<mapsto>
          local_lsp (sequenceNumber (nd dy) + 1) (sid ny) (interfaces (set_adj j ?upy ?ny))]"
        using 10(3,8) 7(3) addr assms(9) by (simp add: fresh_def)
      have adjy: "adj (interfaces ny ! j) = ?upy (adj (interfaces ?ny ! j))" using 10(5) 7(3) addr by simp
      have y: "link_end (dy\<lparr>nd := ny\<rparr>) j (sid (nd dx)) (valueTLV (getInterfaceTLV (interfaces (nd dx) ! i)))"
        by (rule link_end_up [OF adjy _ _ dby])
          (use 10(3,4,6) assms(9,11-14) routes(2) in \<open>auto simp: fresh_def set_adj_routes\<close>)
      show ?case
        by (rule that [OF run s2 7(3) _ x y])
          (use 7(4,9) 10(3,4,9) assms(10,11) keys in \<open>auto simp: dbx dby 7(3)\<close>)
    qed (use assms(3-5,10-14) 7(3,4) st at(3) in simp_all)
  qed (use assms(10-14) new in simp_all)
qed

text \<open>A link that is up: both ends flood, and both route to the other.\<close>

lemma routes_exchanged:
  assumes "macs_ok macs" "network_ok s" "x < length (daemons s)" "y < length (daemons s)" "x \<noteq> y"
  defines "dx \<equiv> daemons s ! x" and "dy \<equiv> daemons s ! y"
  assumes "link_end dx i (sid (nd dy)) gwx" "link_end dy j (sid (nd dx)) gwy"
    and "needs_flooding (interfaces (nd dx) ! i) (systemIDToKey (sid (nd dx)))"
    and "needs_flooding (interfaces (nd dy) ! j) (systemIDToKey (sid (nd dy)))"
    and "db_abs (UpdateDB (nd dx)) (systemIDToKey (sid (nd dy))) = None"
    and "db_abs (UpdateDB (nd dy)) (systemIDToKey (sid (nd dx))) = None"
  obtains s' outs where "leads macs s outs s'"
    "\<And>r. r \<in> set (connected_routes (interfaces (nd dx))) \<Longrightarrow> (y, RouteAdd (r, gwy)) \<in> set outs"
    "\<And>r. r \<in> set (connected_routes (interfaces (nd dy))) \<Longrightarrow> (x, RouteAdd (r, gwx)) \<in> set outs"
proof -
  have j: "j < length (interfaces (nd dy))" using assms(9) unfolding link_end_def ups_def by blast
  have keys: "systemIDToKey (sid (nd dx)) \<noteq> systemIDToKey (sid (nd dy))"
    using assms(8) canonical_keys unfolding link_end_def by blast
  show thesis
  proof (rule lsp_exchange [OF assms(1-5), folded dx_def dy_def, OF assms(8-10,13)], goal_cases)
    case (1 s1 outs1 ny lsp)
    let ?dx = "dx\<lparr>nd := (nd dx)\<lparr>interfaces := (interfaces (nd dx))[i := clear_srm (interfaces (nd dx) ! i)]\<rparr>\<rparr>"
    have at: "daemons s1 ! x = ?dx" "daemons s1 ! y = dy\<lparr>nd := ny\<rparr>" "length (daemons s1) = length (daemons s)"
      using 1(2) assms(3-5) by simp_all
    have ok: "network_ok s1" by (rule leads_ok [OF 1(1) assms(2,1)])
    have y: "link_end (dy\<lparr>nd := ny\<rparr>) j (sid (nd ?dx)) gwy" using link_end_received [OF assms(9) 1(3-5)] by simp
    have x: "link_end ?dx i (sid (nd (dy\<lparr>nd := ny\<rparr>))) gwx" using link_end_flooded [OF assms(8)] 1(3) by simp
    have "interfaces ny ! j = set_srm (Key lsp) (LspID lsp) False (interfaces (nd dy) ! j)"
      using j by (simp add: 1(5) floodNewLsp_def)
    then have "lspFloodStates (interfaces ny ! j) (systemIDToKey (sid (nd dy))) =
        lspFloodStates (interfaces (nd dy) ! j) (systemIDToKey (sid (nd dy)))"
      using set_srm_other keys 1(6) by simp
    then have flood: "needs_flooding (interfaces (nd (dy\<lparr>nd := ny\<rparr>)) ! j) (systemIDToKey (sid (nd (dy\<lparr>nd := ny\<rparr>))))"
      using assms(11) 1(3) by (simp add: needs_flooding_def)
    have none: "db_abs (UpdateDB (nd ?dx)) (systemIDToKey (sid (nd (dy\<lparr>nd := ny\<rparr>)))) = None"
      using assms(12) 1(3) by simp
    have routes: "connected_routes (interfaces ny) = connected_routes (interfaces (nd dy))"
      using static_facts(4) [OF leads_static(1) [OF 1(1) assms(2,1,4)]] by (simp add: at dy_def)
    show ?thesis
    proof (rule lsp_exchange [OF assms(1) ok, of y x, unfolded at, OF _ _ assms(5) [symmetric] y x flood none], goal_cases)
      case (3 s2 outs2 nx lsp2)
      have "leads macs s (outs1 @ outs2) s2" by (rule leads_trans [OF 1(1) 3(1)])
      then show ?case by (rule that) (use 1(7) 3(7) routes in auto)
    qed (use assms(3,4) in simp_all)
  qed
qed

lemma neighbours_exchange:
  assumes "macs_ok macs" "network_ok s" "x < length (daemons s)" "y < length (daemons s)" "x \<noteq> y"
  defines "dx \<equiv> daemons s ! x" and "dy \<equiv> daemons s ! y"
  assumes "fresh dx" "fresh dy" "i < length (interfaces (nd dx))" "j < length (interfaces (nd dy))"
    and "canonical_sid (sid (nd dx))" "canonical_sid (sid (nd dy))" "sid (nd dx) \<noteq> sid (nd dy)"
  obtains s' outs where "leads macs s outs s'"
    "\<And>r. r \<in> set (connected_routes (interfaces (nd dx))) \<Longrightarrow>
       (y, RouteAdd (r, valueTLV (getInterfaceTLV (interfaces (nd dx) ! i)))) \<in> set outs"
    "\<And>r. r \<in> set (connected_routes (interfaces (nd dy))) \<Longrightarrow>
       (x, RouteAdd (r, valueTLV (getInterfaceTLV (interfaces (nd dy) ! j)))) \<in> set outs"
proof -
  show thesis
  proof (rule link_comes_up [OF assms(1-5), folded dx_def dy_def, OF assms(8-14)], goal_cases)
    case (1 s1 outs1 nx ny)
    have at: "daemons s1 ! x = dx\<lparr>nd := nx\<rparr>" "daemons s1 ! y = dy\<lparr>nd := ny\<rparr>" "length (daemons s1) = length (daemons s)"
      using 1(2) assms(3-5) by simp_all
    have ok: "network_ok s1" by (rule leads_ok [OF 1(1) assms(2,1)])
    have routes: "connected_routes (interfaces nx) = connected_routes (interfaces (nd dx))"
      "connected_routes (interfaces ny) = connected_routes (interfaces (nd dy))"
      using static_facts(4) [OF leads_static(1) [OF 1(1) assms(2,1,3)]] static_facts(4) [OF leads_static(1) [OF 1(1) assms(2,1,4)]]
      by (simp_all add: at dx_def dy_def)
    show thesis
    proof (rule routes_exchanged [OF assms(1) ok, where x = x and y = y and i = i and j = j and
          gwx = "valueTLV (getInterfaceTLV (interfaces (nd dy) ! j))" and gwy = "valueTLV (getInterfaceTLV (interfaces (nd dx) ! i))",
          unfolded at], goal_cases)
      case (10 s2 outs2)
      have "leads macs s (outs1 @ outs2) s2" by (rule leads_trans [OF 1(1) 10(1)])
      then show ?case by (rule that) (use 10(2,3) routes in auto)
    qed (use 1(3-10) assms(3-5) in simp_all)
  qed
qed

lemmas configure_simps = net_enabled_def enabled_def net_handle_def node_event_def handle_def ConfigureSystemID_def

section \<open>Properties\<close>

text \<open>
  C2: two neighbours learn each other's networks.  In a network of any number of freshly booted daemons, each with at
  most 23 interfaces and at most 21 connected prefixes, on machines with four-byte IPv4 routes and
  six-byte hardware addresses, take any two and one interface of each, and configure them with two different
  system IDs in the canonical spelling (three groups of four lower-case hexadecimal digits).  Then there is a run
  without a panic (their hellos are exchanged on the two interfaces, then their LSPs) after which each of
  them has requested a route to every network the other is connected to, with the other's interface address
  as the gateway.
\<close>

theorem neighbours_learn_routes:
  assumes "list_all booted ds" and "list_all within_limits ds" and "macs_ok macs"
    and "x < length ds" and "y < length ds" and "x \<noteq> y"
    and "i < length (interfaces (nd (ds ! x)))" and "j < length (interfaces (nd (ds ! y)))"
    and "canonical_sid sx" and "canonical_sid sy" and "sx \<noteq> sy"
  shows "\<exists>evs outs s. runs net_enabled (net_handle macs) \<lparr>daemons = ds, wire = []\<rparr>
      (Local x (Configure sx) # Local y (Configure sy) # evs) outs s \<and>
    (\<forall>r \<in> set (connected_routes (interfaces (nd (ds ! x)))).
       (y, RouteAdd (r, valueTLV (getInterfaceTLV (interfaces (nd (ds ! x)) ! i)))) \<in> set outs) \<and>
    (\<forall>r \<in> set (connected_routes (interfaces (nd (ds ! y)))).
       (x, RouteAdd (r, valueTLV (getInterfaceTLV (interfaces (nd (ds ! y)) ! j)))) \<in> set outs)"
proof -
  let ?s0 = "\<lparr>daemons = ds, wire = []\<rparr>"
  let ?dx = "(ds ! x)\<lparr>nd := (nd (ds ! x))\<lparr>sid := sx\<rparr>\<rparr>" and ?dy = "(ds ! y)\<lparr>nd := (nd (ds ! y))\<lparr>sid := sy\<rparr>\<rparr>"
  let ?s2 = "\<lparr>daemons = ds[x := ?dx, y := ?dy], wire = []\<rparr>"
  let ?ack = "\<lambda>a s. [(a, Reply [snd (ConfigureSystemID (nd (ds ! a)) s)])]"
  have first: "net_enabled (Local x (Configure sx)) ?s0"
    "net_handle macs (Local x (Configure sx)) ?s0 = Inr (\<lparr>daemons = ds[x := ?dx], wire = []\<rparr>, ?ack x sx)"
    using assms(4) by (simp_all add: configure_simps)
  have second: "net_enabled (Local y (Configure sy)) \<lparr>daemons = ds[x := ?dx], wire = []\<rparr>"
    "net_handle macs (Local y (Configure sy)) \<lparr>daemons = ds[x := ?dx], wire = []\<rparr> = Inr (?s2, ?ack y sy)"
    using assms(5,6) by (simp_all add: configure_simps)
  have conf: "runs net_enabled (net_handle macs) ?s0 [Local x (Configure sx), Local y (Configure sy)] (?ack x sx @ ?ack y sy @ []) ?s2"
    by (rule runs_Cons, rule first, rule first, rule runs_Cons, rule second, rule second, rule runs_nil)
  from net_run.runs_inv [OF conf] booted_network [OF assms(1,2)] assms(3) have ok: "network_ok ?s2" by blast
  have at: "daemons ?s2 ! x = ?dx" "daemons ?s2 ! y = ?dy" "x < length (daemons ?s2)" "y < length (daemons ?s2)"
    using assms(4-6) by simp_all
  have fresh: "fresh ?dx" "fresh ?dy"
    using assms(1,4,5) booted_fresh by (auto simp: list_all_length fresh_def)
  have side: "i < length (interfaces (nd ?dx))" "j < length (interfaces (nd ?dy))"
    "canonical_sid (sid (nd ?dx))" "canonical_sid (sid (nd ?dy))" "sid (nd ?dx) \<noteq> sid (nd ?dy)"
    using assms(7-11) by simp_all
  show ?thesis
  proof (rule neighbours_exchange [OF assms(3) ok at(3,4) assms(6), unfolded at(1,2), OF fresh side], goal_cases)
    case (1 s outs)
    from 1(1) obtain es where es: "runs net_enabled (net_handle macs) ?s2 es outs s" unfolding leads_def by blast
    from runs_append [OF conf es] 1(2,3) show ?thesis
      by (intro exI [of _ es] exI [of _ "(?ack x sx @ ?ack y sy @ []) @ outs"] exI [of _ s]) simp
  qed
qed

text \<open>A second machine on the same link, with a network of its own behind it.\<close>

definition second_routes :: "string \<Rightarrow> IPNet option list" where
  "second_routes ifname = [Some \<lparr>IP = [172, 21, 0, 0], Mask = [255, 255, 0, 0]\<rparr>]"

definition second_machine :: "string + net_iface list" where
  "second_machine = Inr [\<lparr>if_name = ''lo'', if_addrs = Inr []\<rparr>,
     \<lparr>if_name = ''eth0'', if_addrs = Inr [IPNetAddr \<lparr>IP = [172, 20, 0, 3], Mask = [255, 255, 0, 0]\<rparr>]\<rparr>]"

definition second_daemon :: daemon where
  "second_daemon = \<lparr>nd = \<lparr>sid = '''', interfaces = [new_Intf ''eth0'' \<lparr>IP = [172, 20, 0, 3], Mask = [255, 255, 0, 0]\<rparr>
       (second_routes ''eth0'')], UpdateDB = NilNode, TopoDB = NilNode, sequenceNumber = 0\<rparr>, pending = Map.empty\<rparr>"

lemma second_booted: "booted second_daemon" "within_limits second_daemon"
proof -
  have "start second_routes second_machine = Inr second_daemon"
    by (simp add: start_def boot_def initInterfaces_def second_machine_def To4_def second_daemon_def)
  moreover have "routes_v4 second_routes" by (auto simp: routes_v4_def second_routes_def v4_route_def)
  ultimately show "booted second_daemon" unfolding booted_def by blast
  show "within_limits second_daemon"
    by (simp add: within_limits_def second_daemon_def new_Intf_def connected_routes_def second_routes_def)
qed

theorem neighbours_learn_routes_witness:
  "\<exists>evs outs s. runs net_enabled (net_handle (\<lambda>a ifname. [2, 0, 0, 0, 0, 1])) \<lparr>daemons = [sample_daemon, second_daemon], wire = []\<rparr>
      (Local 0 (Configure ''1111.1111.1111'') # Local 1 (Configure ''1111.1111.1112'') # evs) outs s \<and>
    (1, RouteAdd (\<lparr>IP = [172, 20, 0, 0], Mask = [255, 255, 0, 0]\<rparr>, [172, 20, 0, 2])) \<in> set outs \<and>
    (0, RouteAdd (\<lparr>IP = [172, 21, 0, 0], Mask = [255, 255, 0, 0]\<rparr>, [172, 20, 0, 3])) \<in> set outs"
proof -
  let ?ds = "[sample_daemon, second_daemon]" and ?macs = "\<lambda>a ifname. [2, 0, 0, 0, 0, 1]"
  have sids: "canonical_sid ''1111.1111.1111''" "canonical_sid ''1111.1111.1112''" by code_simp+
  have ds: "list_all booted ?ds" "list_all within_limits ?ds" "macs_ok ?macs" by (simp_all add: sample_booted second_booted macs_ok_def)
  have intfs: "length (interfaces (nd (?ds ! 0))) = 1" "length (interfaces (nd (?ds ! 1))) = 1"
    "connected_routes (interfaces (nd (?ds ! 0))) = [\<lparr>IP = [172, 20, 0, 0], Mask = [255, 255, 0, 0]\<rparr>]"
    "connected_routes (interfaces (nd (?ds ! 1))) = [\<lparr>IP = [172, 21, 0, 0], Mask = [255, 255, 0, 0]\<rparr>]"
    "valueTLV (getInterfaceTLV (interfaces (nd (?ds ! 0)) ! 0)) = [172, 20, 0, 2]"
    "valueTLV (getInterfaceTLV (interfaces (nd (?ds ! 1)) ! 0)) = [172, 20, 0, 3]"
    by (simp_all add: sample_daemon_def second_daemon_def new_Intf_def connected_routes_def sample_routes_def second_routes_def
        getInterfaceTLV_def To4_def)
  from neighbours_learn_routes [OF ds, of 0 1 0 0, OF _ _ _ _ _ sids] show ?thesis
    unfolding intfs by simp
qed

end
