(* ===== verification/Rpc.thy ===== *)
theory Rpc
  imports Daemon
begin

text \<open>
  What an operator sees: the client \<^verbatim>\<open>src/scripts/show_run.go\<close> on top of the state service of the theory \<^verbatim>\<open>Report\<close>,
  and the properties of both.
\<close>

section \<open>The code\<close>

text \<open>
  The client prints the four replies.  What the calls return is an argument: an error, or the reply.  After
  an error it goes on and follows the nil reply.
\<close>

definition reply_of :: "string + 'a \<Rightarrow> 'a res" where
  "reply_of r = (case r of Inl err \<Rightarrow> Inl NilDereference | Inr reply \<Rightarrow> Inr reply)"

definition show_run ::
  "string list \<Rightarrow> string + string \<Rightarrow> string + string list \<Rightarrow> string + string list \<Rightarrow> string + string list \<Rightarrow> string list res" where
  "show_run args showSystemID showIntf showLsp showTopo =
     (case args of
        command # target # _ \<Rightarrow>
          bind_res (reply_of showSystemID) (\<lambda>s.
          bind_res (reply_of showIntf) (\<lambda>intfs.
          bind_res (reply_of showLsp) (\<lambda>lsps.
          bind_res (reply_of showTopo) (\<lambda>topo.
            Inr ([''System ID: '' @ s] @ map (\<lambda>intf. ''ADJ: '' @ intf) intfs @ [''LSP DB: '' @ target] @
              map (\<lambda>lsp. ''LSP: '' @ lsp) lsps @ [''TOPO:''] @ map (\<lambda>t. ''LSP: '' @ t) topo)))))
      | _ \<Rightarrow> Inl IndexOutOfRange)"

section \<open>The text the client should print\<close>

text \<open>Everything in the order of the interfaces and of the keys of the two databases.\<close>

definition intf_report :: "Intf \<Rightarrow> string" where
  "intf_report intf = IP_String (prefix intf) @ '' '' @ IPMask_String (mask intf) @ '', adjacency '' @ state (adj intf) @
     (if state (adj intf) = ''UP'' then '' with '' @ systemIDToString (neighborSystemID (adj intf)) else '''')"

definition in_key_order :: "(uint64 \<rightharpoonup> 'a) \<Rightarrow> 'a list" where
  "in_key_order m = map (\<lambda>k. the (m k)) (sorted_list_of_set (dom m))"

definition run_report :: "string \<Rightarrow> node \<Rightarrow> string list" where
  "run_report target n =
     [''System ID: '' @ sid n] @ map (\<lambda>intf. ''ADJ: '' @ intf_report intf) (interfaces n) @
     [''LSP DB: '' @ target] @ map (\<lambda>lsp. ''LSP: '' @ lsp_report lsp) (in_key_order (db_abs (UpdateDB n))) @
     [''TOPO:'', ''LSP: '' @ sid n] @
     map (\<lambda>t. ''LSP: '' @ path_report (interfaces n) t) (in_key_order (AvlSearch (TopoDB n)))"

text \<open>The traversal of a database without nil data lists its map in key order.\<close>

lemma AvlGetAll_in_key_order:
  assumes "avl_inv t" "\<forall>k d. (k, d) \<in> set (AvlGetAll t) \<longrightarrow> d \<noteq> None"
  shows "map (\<lambda>x. the (snd x)) (AvlGetAll t) = in_key_order (AvlSearch t)"
proof -
  have sorted: "sorted_keys (AvlGetAll t)" by (rule avl.get_all_sorted [OF assms(1)])
  have "dom (AvlSearch t) = set (map fst (AvlGetAll t))"
    using assms(2) by (force simp: dom_def avl.get_eq_Some [OF assms(1)])
  moreover have "sorted_list_of_set (set (map fst (AvlGetAll t))) = map fst (AvlGetAll t)"
    by (rule sorted_list_of_set.idem_if_sorted_distinct) (use sorted in \<open>simp_all add: strict_sorted_iff\<close>)
  ultimately have "in_key_order (AvlSearch t) = map (\<lambda>k. the (AvlSearch t k)) (map fst (AvlGetAll t))"
    by (simp add: in_key_order_def)
  also have "\<dots> = map (\<lambda>x. the (snd x)) (AvlGetAll t)"
  proof (unfold map_map, rule map_cong [OF refl])
    fix x assume x: "x \<in> set (AvlGetAll t)"
    then obtain l where "x = (fst x, Some l)" using assms(2) by (metis not_Some_eq prod.collapse)
    with x avl.get_eq_Some [OF assms(1), of "fst x" l] show "((\<lambda>k. the (AvlSearch t k)) \<circ> fst) x = the (snd x)"
      by (metis comp_apply option.sel snd_conv)
  qed
  finally show ?thesis ..
qed

lemma GetLsp_report:
  assumes "node_inv n" "\<forall>k lsp. db_abs (UpdateDB n) k = Some lsp \<longrightarrow> neighbors_counted lsp"
  shows "GetLsp n = Inr (map lsp_report (in_key_order (db_abs (UpdateDB n))))"
proof -
  have inv: "update_inv n" "lsps_full n" "avl_inv (UpdateDB n)"
    and some: "\<forall>k d. (k, d) \<in> set (AvlGetAll (UpdateDB n)) \<longrightarrow> d \<noteq> None"
    using assms(1) unfolding node_inv_def update_inv_def updatedb_inv_def by blast+
  have "bind_res (lsp_data x) lsp_String = Inr (lsp_report (the (snd x)))" if x: "x \<in> set (AvlGetAll (UpdateDB n))" for x
  proof -
    from x obtain l where l: "snd x = Some l" "lsp_full l" by (rule database_nodes [OF inv(1,2)])
    then have "x = (fst x, Some l)" by (metis prod.collapse)
    with x avl.get_eq_Some [OF inv(3), of "fst x" l] have "db_abs (UpdateDB n) (fst x) = Some l" by (simp add: db_abs_def)
    with assms(2) lsp_String_report [OF l(2)] l(1) show ?thesis by (simp add: lsp_data_def)
  qed
  from map_res_Inr_pure [where xs = "AvlGetAll (UpdateDB n)", OF this]
  have "GetLsp n = Inr (map lsp_report (map (\<lambda>x. the (snd x)) (AvlGetAll (UpdateDB n))))" by (simp add: GetLsp_def comp_def)
  then show ?thesis unfolding AvlGetAll_in_key_order [OF inv(3) some] by (simp add: db_abs_def)
qed

lemma GetTopo_in_key_order:
  assumes "node_inv n"
  shows "GetTopo n = Inr (sid n # map (path_report (interfaces n)) (in_key_order (AvlSearch (TopoDB n))))"
proof -
  have inv: "topo_inv n" using assms by (simp add: node_inv_def)
  then have "avl_inv (TopoDB n)" "\<forall>k d. (k, d) \<in> set (AvlGetAll (TopoDB n)) \<longrightarrow> d \<noteq> None"
    unfolding topo_inv_def by blast+
  from AvlGetAll_in_key_order [OF this, symmetric] GetTopo_report [OF inv] show ?thesis by (simp add: comp_def)
qed

section \<open>Properties of the state service\<close>

text \<open>
  C28: the report of an LSP against what the decision process reads from it.  For an LSP with complete TLVs and
  no neighbours TLV of length 0 the text consists of the system ID and, for every TLV of the LSP in its order, the TLV's
  type and length, and the prefixes that \<^verbatim>\<open>getPrefixesFromTLV\<close> returns for a reachability TLV with
  their metrics, or the neighbours that \<^verbatim>\<open>getNeighbors\<close> returns for a neighbours TLV with their metrics
  modulo 256.  Of these the decision process reads less: the neighbours of the first neighbours TLV and the prefixes of
  the first reachability TLV, and none if there is no such TLV.
\<close>

theorem lsp_String_agrees:
  assumes "lsp_full lsp"
    and "list_all (\<lambda>tlv. unat (typeTLV tlv) = ISIS_NEIGHBORS_TLV \<longrightarrow> lengthTLV tlv \<noteq> 0) (FirstTLV (CoreLsp lsp))"
  shows "lsp_String lsp = Inr (systemIDToString (take 6 (LspID lsp)) @ concat (map tlv_report (FirstTLV (CoreLsp lsp)))) \<and>
    list_all (\<lambda>tlv. (\<exists>ps. getPrefixesFromTLV tlv = Inr ps) \<and> (\<exists>nbrs. getNeighbors tlv = Inr nbrs)) (FirstTLV (CoreLsp lsp)) \<and>
    lookupNeighbors lsp = (case find (\<lambda>tlv. unat (typeTLV tlv) = ISIS_NEIGHBORS_TLV) (FirstTLV (CoreLsp lsp)) of
      None \<Rightarrow> Inr [] | Some tlv \<Rightarrow> getNeighbors tlv) \<and>
    prefixes_of_tlvs (FirstTLV (CoreLsp lsp)) =
      (case find (\<lambda>tlv. unat (typeTLV tlv) = ISIS_IP_INTERNAL_REACH_TLV) (FirstTLV (CoreLsp lsp)) of
        None \<Rightarrow> Inr [] | Some tlv \<Rightarrow> getPrefixesFromTLV tlv)"
proof -
  have "lsp_String lsp = Inr (lsp_report lsp)" using assms by (intro lsp_String_report) (simp_all add: neighbors_counted_def)
  moreover have "list_all (\<lambda>tlv. (\<exists>ps. getPrefixesFromTLV tlv = Inr ps) \<and> (\<exists>nbrs. getNeighbors tlv = Inr nbrs))
      (FirstTLV (CoreLsp lsp))"
    using assms(1) getPrefixesFromTLV_total getNeighbors_total by (simp add: lsp_full_def list_all_iff)
  ultimately show ?thesis using lookupNeighbors_first prefixes_of_tlvs_first by (simp add: lsp_report_def)
qed

theorem lsp_String_agrees_witness:
  "lsp_full sample_A \<and> lsp_String sample_A = Inr (systemIDToString (take 6 (LspID sample_A)) @
    concat (map tlv_report (FirstTLV (CoreLsp sample_A))))"
proof -
  have full: "lsp_full sample_A" unfolding sample_A_def by (rule sample_router_full) simp_all
  moreover have "list_all (\<lambda>tlv. unat (typeTLV tlv) = ISIS_NEIGHBORS_TLV \<longrightarrow> lengthTLV tlv \<noteq> 0) (FirstTLV (CoreLsp sample_A))"
    by (simp add: sample_A_def sample_router_def Let_def ISIS_NEIGHBORS_TLV_def)
  ultimately show ?thesis using lsp_String_agrees [of sample_A] by blast
qed

text \<open>
  C29: one LSP in the database is enough to take the daemon down through the state service.  \<^verbatim>\<open>GetLsp\<close> panics
  exactly when some stored LSP has a neighbours TLV of length 0 whose value is shorter than 253 bytes: the
  number of neighbours is computed as the byte 0 - 1.
\<close>

theorem GetLsp_panics_iff:
  assumes "node_inv n"
  shows "(\<exists>e. GetLsp n = Inl e) \<longleftrightarrow>
    (\<exists>k lsp. db_abs (UpdateDB n) k = Some lsp \<and> list_ex empty_neighbors_tlv (FirstTLV (CoreLsp lsp)))"
  using GetLsp_returns [of n] assms by (cases "GetLsp n") (auto simp: node_inv_def)

text \<open>An LSP with a neighbours TLV of length 0.\<close>

definition sample_empty_tlv :: IsisLsp where
  "sample_empty_tlv = (let lsp = buildEmptyLSP 1 ''1111.1111.1112'' in
     lsp\<lparr>CoreLsp := (CoreLsp lsp)\<lparr>FirstTLV := [\<lparr>typeTLV = 2, lengthTLV = 0, valueTLV = []\<rparr>]\<rparr>\<rparr>)"

lemma sample_spf_node_inv':
  assumes "\<forall>lsp \<in> set lsps. stored_ok lsp \<and> lsp_full lsp"
  shows "node_inv (sample_spf_node lsps)"
  using sample_spf_node_inv [OF assms]
  by (simp add: node_inv_def topo_inv_def routes_inv_def connected_routes_def v4_route_def sample_spf_node_def Let_def
    sample_intf_def avl.invar_empty AvlGetAll_entries)

theorem GetLsp_panics_iff_witness:
  "node_inv (sample_spf_node [sample_empty_tlv]) \<and> (\<exists>e. GetLsp (sample_spf_node [sample_empty_tlv]) = Inl e)"
proof -
  have "stored_ok sample_empty_tlv \<and> lsp_full sample_empty_tlv"
    by (simp add: sample_empty_tlv_def buildEmptyLSP_def Let_def stored_ok_def lsp_full_def tlv_full_def)
  then have inv: "node_inv (sample_spf_node [sample_empty_tlv])" by (intro sample_spf_node_inv') simp
  have "db_abs (UpdateDB (sample_spf_node [sample_empty_tlv])) (Key sample_empty_tlv) = Some sample_empty_tlv"
    by (simp add: sample_spf_node_def Let_def load_lsps_def db_abs_def)
  moreover have "list_ex empty_neighbors_tlv (FirstTLV (CoreLsp sample_empty_tlv))"
    by (simp add: sample_empty_tlv_def Let_def empty_neighbors_tlv_def ISIS_NEIGHBORS_TLV_def)
  ultimately show ?thesis using GetLsp_panics_iff [OF inv] inv by blast
qed

text \<open>
  C27: what the operator sees.  In a well-formed state with no neighbours TLV of length 0 in the database, when all four
  requests get through, the client prints exactly: the system ID; for every interface its address, mask and
  adjacency state, with the neighbour's system ID when the adjacency is up; the address it was called with; for every LSP of
  the database, in the order of the keys, its ID and what is in its TLVs; the system ID once more; and for
  every entry of the topology database, in the order of the keys, its system, distance, next hop and
  interface.
\<close>

theorem show_run_prints_state:
  assumes "node_inv n" and "\<forall>k lsp. db_abs (UpdateDB n) k = Some lsp \<longrightarrow> neighbors_counted lsp"
  shows "\<exists>lsps topo. GetLsp n = Inr lsps \<and> GetTopo n = Inr topo \<and>
    show_run (command # target # args) (Inr (GetSystemID n)) (Inr (GetIntf n)) (Inr lsps) (Inr topo) =
      Inr (run_report target n)"
proof -
  have "GetIntf n = map intf_report (interfaces n)" by (simp add: GetIntf_def intf_report_def)
  with GetLsp_report [OF assms] GetTopo_in_key_order [OF assms(1)] show ?thesis
    by (simp add: show_run_def reply_of_def GetSystemID_def run_report_def comp_def)
qed

theorem show_run_prints_state_witness:
  "\<exists>lsps topo. GetLsp (sample_spf_node [sample_A]) = Inr lsps \<and> GetTopo (sample_spf_node [sample_A]) = Inr topo \<and>
     show_run [''show_run'', ''10.0.0.1''] (Inr (GetSystemID (sample_spf_node [sample_A])))
       (Inr (GetIntf (sample_spf_node [sample_A]))) (Inr lsps) (Inr topo) =
     Inr (run_report ''10.0.0.1'' (sample_spf_node [sample_A]))"
proof -
  have ok: "stored_ok sample_A \<and> lsp_full sample_A"
    using sample_router_facts(3) sample_router_full by (simp add: sample_A_def)
  have inv: "node_inv (sample_spf_node [sample_A])" using ok by (intro sample_spf_node_inv') simp
  have db: "load_lsps [sample_A] = AvlNode (Key sample_A) NilNode NilNode (Some sample_A) 1" by (simp add: load_lsps_def)
  have "neighbors_counted sample_A"
    by (simp add: sample_A_def sample_router_def Let_def neighbors_counted_def ISIS_NEIGHBORS_TLV_def)
  then have "\<forall>k lsp. db_abs (UpdateDB (sample_spf_node [sample_A])) k = Some lsp \<longrightarrow> neighbors_counted lsp"
    by (auto simp: sample_spf_node_def Let_def db db_abs_def split: if_splits)
  from show_run_prints_state [OF inv this, of "''show_run''" "''10.0.0.1''" "[]"] show ?thesis .
qed

end
