(* ===== verification/Sockets.thy ===== *)
theory Sockets
  imports Wire
begin

text \<open>
  The raw sockets of \<^verbatim>\<open>src/ethernet.go\<close>: opening the two sockets of an interface, reading and writing frames.
  What the operating system answers is an argument: the lookup of an interface by its name, and per system
  call a function of the arguments the code passes to it.
\<close>

section \<open>The code\<close>

record net_Interface =
  Index :: int
  HardwareAddr :: bytes

record RawSock =
  fd :: int
  intf_rs :: net_Interface

record RawSockaddrLinklayer =
  Family :: "16 word"
  Protocol_sll :: "16 word"
  Ifindex :: "32 word"
  Addr :: bytes
  Halen :: byte

definition PF_PACKET :: int where "PF_PACKET = 17"
definition ETH_P_ALL :: "16 word" where "ETH_P_ALL = 0x0003"

text \<open>Of the package \<^verbatim>\<open>syscall\<close> on Linux.\<close>

definition SOCK_RAW :: int where "SOCK_RAW = 3"
definition IPPROTO_RAW :: int where "IPPROTO_RAW = 255"

type_synonym errno = nat
type_synonym interface_table = "string \<Rightarrow> string + net_Interface"
type_synonym socket_call = "int \<Rightarrow> int \<Rightarrow> int \<Rightarrow> string + int"
type_synonym bind_call = "int \<Rightarrow> RawSockaddrLinklayer \<Rightarrow> errno"
type_synonym sendto_call = "int \<Rightarrow> bytes \<Rightarrow> RawSockaddrLinklayer \<Rightarrow> int \<times> errno"

definition htons :: "16 word \<Rightarrow> 16 word" where
  "htons host = or (push_bit 8 (and host 0xff)) (drop_bit 8 host)"

definition NewRawSock :: "interface_table \<Rightarrow> socket_call \<Rightarrow> string \<Rightarrow> string + RawSock" where
  "NewRawSock InterfaceByName Socket ifname =
     (case InterfaceByName ifname of
        Inl err \<Rightarrow> Inl err
      | Inr intf \<Rightarrow> (case Socket PF_PACKET SOCK_RAW IPPROTO_RAW of
          Inl err \<Rightarrow> Inl err
        | Inr n \<Rightarrow> Inr \<lparr>fd = n, intf_rs = intf\<rparr>))"

definition NewRawSockRecv :: "interface_table \<Rightarrow> socket_call \<Rightarrow> bind_call \<Rightarrow> string \<Rightarrow> string + RawSock" where
  "NewRawSockRecv InterfaceByName Socket Bind ifname =
     (case InterfaceByName ifname of
        Inl err \<Rightarrow> Inl err
      | Inr intf \<Rightarrow> (case Socket PF_PACKET SOCK_RAW (uint (htons ETH_P_ALL)) of
          Inl err \<Rightarrow> Inl err
        | Inr n \<Rightarrow>
            if Bind n \<lparr>Family = word_of_int PF_PACKET, Protocol_sll = htons ETH_P_ALL, Ifindex = word_of_int (Index intf),
              Addr = replicate 8 0, Halen = 0\<rparr> > 0 then Inl ''errno''
            else Inr \<lparr>fd = n, intf_rs = intf\<rparr>))"

text \<open>The sockets per interface: the one to send with and the one to receive with, nil when it was not opened.\<close>

type_synonym raw_socks = "string \<rightharpoonup> RawSock option \<times> RawSock option"

record open_calls =
  lookup :: interface_table
  socket_send :: socket_call
  socket_recv :: socket_call
  bind_recv :: bind_call

definition opened :: "string + RawSock \<Rightarrow> RawSock option" where
  "opened r = (case r of Inl err \<Rightarrow> None | Inr sock \<Rightarrow> Some sock)"

definition ethernetIntfInit :: "string \<times> open_calls \<Rightarrow> raw_socks \<Rightarrow> raw_socks" where
  "ethernetIntfInit call RawSocks = (case call of (ifname, os) \<Rightarrow>
     RawSocks(ifname \<mapsto> (opened (NewRawSock (lookup os) (socket_send os) ifname),
       opened (NewRawSockRecv (lookup os) (socket_recv os) (bind_recv os) ifname))))"

text \<open>\<^verbatim>\<open>ethernetInit\<close> and the loop of \<^verbatim>\<open>main\<close> over the interfaces.\<close>

definition ethernet_start :: "(string \<times> open_calls) list \<Rightarrow> raw_socks" where
  "ethernet_start calls = fold ethernetIntfInit calls Map.empty"

text \<open>Reading a map at a key that is not there gives the zero value, a pair of nil pointers.\<close>

definition send_sock :: "raw_socks \<Rightarrow> string \<Rightarrow> RawSock option" where
  "send_sock RawSocks ifname = (case RawSocks ifname of None \<Rightarrow> None | Some (send, recv) \<Rightarrow> send)"

definition recv_sock :: "raw_socks \<Rightarrow> string \<Rightarrow> RawSock option" where
  "recv_sock RawSocks ifname = (case RawSocks ifname of None \<Rightarrow> None | Some (send, recv) \<Rightarrow> recv)"

text \<open>The results of \<^verbatim>\<open>recvfrom\<close> are the bytes received and the error number.\<close>

definition RawSock_Read :: "RawSock option \<Rightarrow> bytes \<times> errno \<Rightarrow> (errno + bytes) res" where
  "RawSock_Read c answer = (case c of
     None \<Rightarrow> Inl NilDereference
   | Some sock \<Rightarrow> (case answer of (b, err) \<Rightarrow> if err > 0 then Inr (Inl err) else Inr (Inr b)))"

definition RawSock_Write :: "sendto_call \<Rightarrow> RawSock option \<Rightarrow> bytes \<Rightarrow> (int \<times> errno) res" where
  "RawSock_Write Sendto c b =
     (if length b < 8 then Inl IndexOutOfRange
      else (case c of
        None \<Rightarrow> Inl NilDereference
      | Some sock \<Rightarrow>
          (let sll = \<lparr>Family = 0, Protocol_sll = 0, Ifindex = word_of_int (Index (intf_rs sock)), Addr = take 8 b, Halen = 6\<rparr>
           in case Sendto (fd sock) b sll of (r1, e) \<Rightarrow> if e > 0 then Inr (0, e) else Inr (r1, e))))"

definition getMac :: "interface_table \<Rightarrow> string \<Rightarrow> bytes res" where
  "getMac InterfaceByName ifname = (case InterfaceByName ifname of
     Inl err \<Rightarrow> Inl NilDereference
   | Inr intf \<Rightarrow> Inr (HardwareAddr intf))"

text \<open>\<^verbatim>\<open>sendFrame\<close>: whether an error was logged.\<close>

definition sendFrame :: "sendto_call \<Rightarrow> raw_socks \<Rightarrow> bytes \<Rightarrow> string \<Rightarrow> bool res" where
  "sendFrame Sendto RawSocks frame ifname =
     bind_res (RawSock_Write Sendto (send_sock RawSocks ifname) frame) (\<lambda>(numBytes, e). Inr (numBytes \<le> 0))"

text \<open>
  \<^verbatim>\<open>recvFrame\<close>: the results of the successive socket reads are the last argument.  The buffer is grown to
  \<^verbatim>\<open>READ_BUF_SIZE\<close> zero bytes, reset before every read, and written to only after the comparison, so the six
  bytes compared with the interface's address are the zeros of the fresh buffer.  \<open>None\<close>: no read so far has
  produced a frame to return.
\<close>

fun recvFrame_loop :: "bytes \<Rightarrow> RawSock option \<Rightarrow> (bytes \<times> errno) list \<Rightarrow> (go_slice \<times> (bytes \<times> errno) list) option res" where
  "recvFrame_loop src sock [] = Inr None"
| "recvFrame_loop src sock (answer # reads) =
     bind_res (RawSock_Read sock answer) (\<lambda>r. case r of
       Inl e \<Rightarrow> recvFrame_loop src sock reads
     | Inr rawBuf \<Rightarrow>
         if take 6 (drop 6 (replicate READ_BUF_SIZE 0)) \<noteq> src
         then Inr (Some (Slice (copy_zeroed READ_BUF_SIZE rawBuf) (length rawBuf), reads))
         else recvFrame_loop src sock reads)"

definition recvFrame ::
  "interface_table \<Rightarrow> raw_socks \<Rightarrow> string \<Rightarrow> (bytes \<times> errno) list \<Rightarrow> (go_slice \<times> (bytes \<times> errno) list) option res" where
  "recvFrame InterfaceByName RawSocks ifname reads =
     bind_res (getMac InterfaceByName ifname) (\<lambda>src. recvFrame_loop src (recv_sock RawSocks ifname) reads)"

section \<open>The sockets after the start\<close>

lemma ethernet_start_snoc: "ethernet_start (calls @ [call]) = ethernetIntfInit call (ethernet_start calls)"
  by (simp add: ethernet_start_def)

lemma ethernet_start_lookup:
  "ethernet_start calls ifname = map_option (\<lambda>os. (opened (NewRawSock (lookup os) (socket_send os) ifname),
     opened (NewRawSockRecv (lookup os) (socket_recv os) (bind_recv os) ifname))) (map_of (rev calls) ifname)"
proof (induction calls rule: rev_induct)
  case Nil
  then show ?case by (simp add: ethernet_start_def)
next
  case (snoc call calls)
  then show ?case by (cases call) (simp add: ethernet_start_snoc ethernetIntfInit_def)
qed

lemma first_frame_read:
  assumes "src \<noteq> replicate 6 0" and "length rawBuf \<le> READ_BUF_SIZE" and "list_all (\<lambda>(b, err). err > 0) errors"
  shows "recvFrame_loop src (Some sock) (errors @ (rawBuf, 0) # reads) =
    Inr (Some (frame_slice rawBuf (replicate (READ_BUF_SIZE - length rawBuf) 0), reads))"
  using assms(3)
proof (induction errors)
  case Nil
  have "take 6 (drop 6 (replicate READ_BUF_SIZE 0)) = (replicate 6 0 :: bytes)"
    by (simp add: READ_BUF_SIZE_def)
  with assms(1,2) show ?case by (simp add: RawSock_Read_def frame_slice_def copy_zeroed_def)
qed (auto simp: RawSock_Read_def)

section \<open>Properties\<close>

text \<open>
  C35: The sockets of an interface after the start of the daemon.  Sending a frame hands the whole frame to the
  operating system, for the interface's index and addressed to the first bytes of the frame, if the send socket could
  be opened when the interface was last initialised; otherwise, as the failure was only logged, the daemon panics.
  Receiving likewise panics without a receive socket, and with one it returns the first frame that is read, whoever
  sent it: the filter for the node's own frames compares the address with the cleared buffer and not with the
  frame, so on an interface with a non-zero address it drops nothing.
\<close>

theorem sockets_carry_frames:
  assumes "map_of (rev calls) ifname = Some os" and "8 \<le> length frame"
    and "InterfaceByName ifname = Inr ifc" and "HardwareAddr ifc \<noteq> replicate 6 0"
    and "length rawBuf \<le> READ_BUF_SIZE" and "list_all (\<lambda>(b, err). err > 0) errors"
  shows "sendFrame Sendto (ethernet_start calls) frame ifname =
      (case NewRawSock (lookup os) (socket_send os) ifname of
         Inl err \<Rightarrow> Inl NilDereference
       | Inr sock \<Rightarrow> (case Sendto (fd sock) frame \<lparr>Family = 0, Protocol_sll = 0,
             Ifindex = word_of_int (Index (intf_rs sock)), Addr = take 8 frame, Halen = 6\<rparr> of
           (n, e) \<Rightarrow> Inr (e > 0 \<or> n \<le> 0))) \<and>
    recvFrame InterfaceByName (ethernet_start calls) ifname (errors @ (rawBuf, 0) # reads) =
      (case NewRawSockRecv (lookup os) (socket_recv os) (bind_recv os) ifname of
         Inl err \<Rightarrow> Inl NilDereference
       | Inr sock \<Rightarrow> Inr (Some (frame_slice rawBuf (replicate (READ_BUF_SIZE - length rawBuf) 0), reads)))"
proof
  show "sendFrame Sendto (ethernet_start calls) frame ifname =
      (case NewRawSock (lookup os) (socket_send os) ifname of
         Inl err \<Rightarrow> Inl NilDereference
       | Inr sock \<Rightarrow> (case Sendto (fd sock) frame \<lparr>Family = 0, Protocol_sll = 0,
             Ifindex = word_of_int (Index (intf_rs sock)), Addr = take 8 frame, Halen = 6\<rparr> of
           (n, e) \<Rightarrow> Inr (e > 0 \<or> n \<le> 0)))"
    using assms(1,2)
    by (auto simp: sendFrame_def RawSock_Write_def send_sock_def ethernet_start_lookup opened_def split: sum.splits prod.splits)
next
  show "recvFrame InterfaceByName (ethernet_start calls) ifname (errors @ (rawBuf, 0) # reads) =
      (case NewRawSockRecv (lookup os) (socket_recv os) (bind_recv os) ifname of
         Inl err \<Rightarrow> Inl NilDereference
       | Inr sock \<Rightarrow> Inr (Some (frame_slice rawBuf (replicate (READ_BUF_SIZE - length rawBuf) 0), reads)))"
    using assms(1,3) first_frame_read [OF assms(4-6)]
    by (cases errors)
      (auto simp: recvFrame_def getMac_def recv_sock_def ethernet_start_lookup opened_def RawSock_Read_def split: sum.splits)
qed

definition sample_os :: open_calls where
  "sample_os = \<lparr>lookup = (\<lambda>_. Inr \<lparr>Index = 7, HardwareAddr = [2, 0x42, 0xac, 0x14, 0, 2]\<rparr>),
     socket_send = (\<lambda>_ _ _. Inr 3), socket_recv = (\<lambda>_ _ _. Inl ''EPERM''), bind_recv = (\<lambda>_ _. 0)\<rparr>"

theorem sockets_carry_frames_witness:
  "sendFrame (\<lambda>fd b sll. (int (length b), 0)) (ethernet_start [(''eth0'', sample_os)]) (l1_multicast @ [0, 0, 0x83]) ''eth0'' =
     Inr False \<and>
   recvFrame (lookup sample_os) (ethernet_start [(''eth0'', sample_os)]) ''eth0'' ([([], 4)] @ ([0x83], 0) # []) = Inl NilDereference"
proof -
  have "[2, 0x42, 0xac, 0x14, 0, 2] \<noteq> replicate 6 (0 :: byte)" by code_simp
  with sockets_carry_frames [where calls = "[(''eth0'', sample_os)]" and ifname = "''eth0''" and os = sample_os
      and frame = "l1_multicast @ [0, 0, 0x83]" and InterfaceByName = "lookup sample_os" and rawBuf = "[0x83]"
      and errors = "[([], 4)]" and reads = "[]" and Sendto = "\<lambda>fd b sll. (int (length b), 0)"
      and ifc = "\<lparr>Index = 7, HardwareAddr = [2, 0x42, 0xac, 0x14, 0, 2]\<rparr>"]
  show ?thesis by (simp add: sample_os_def l1_multicast_def READ_BUF_SIZE_def NewRawSock_def NewRawSockRecv_def)
qed

end
