(* ===== verification/Goroutines.thy ===== *)
theory Goroutines
  imports Transition
begin

text \<open>
  Locks and channels: the goroutines of the daemon reduced to the order in which one iteration of each
  locks and unlocks mutexes and sends and receives on the unbuffered channels.

  The locale \<open>lock_order\<close> is the contract under which such a system cannot deadlock: a rank of mutexes and
  channels that every iteration climbs.  It is interpreted on the goroutines of the daemon without the
  request \<^verbatim>\<open>GetIntf\<close>, which breaks the order.
\<close>

section \<open>Goroutines that lock, send and receive\<close>

datatype ('m, 'c) act = Lock 'm | Unlock 'm | Send 'c | Recv 'c

record ('g, 'm, 'c) sched =
  todo :: "'g \<Rightarrow> ('m, 'c) act list"
  owner :: "'m \<rightharpoonup> 'g"

text \<open>
  A goroutine with nothing to do is at the head of its loop.  It begins an iteration by itself, or by
  receiving from a goroutine that waits to send.
\<close>

datatype ('g, 'm, 'c) sched_event =
    Begin 'g "('m, 'c) act list"
  | Step 'g
  | Handoff 'g 'g "('m, 'c) act list"

fun receives_first :: "('m, 'c) act list \<Rightarrow> bool" where
  "receives_first (Recv c # acts) = True"
| "receives_first _ = False"

definition sched_enabled :: "('g \<Rightarrow> ('m, 'c) act list \<Rightarrow> bool) \<Rightarrow> ('g, 'm, 'c) sched_event \<Rightarrow> ('g, 'm, 'c) sched \<Rightarrow> bool" where
  "sched_enabled body ev s = (case ev of
     Begin g acts \<Rightarrow> todo s g = [] \<and> body g acts \<and> \<not> receives_first acts
   | Step g \<Rightarrow> (case todo s g of
       Lock m # _ \<Rightarrow> owner s m = None
     | Unlock m # _ \<Rightarrow> owner s m = Some g
     | _ \<Rightarrow> False)
   | Handoff g h acts \<Rightarrow> (case todo s g of
       Send c # _ \<Rightarrow> g \<noteq> h \<and> todo s h = [] \<and> body h (Recv c # acts)
     | _ \<Rightarrow> False))"

definition sched_handle :: "('g, 'm, 'c) sched_event \<Rightarrow> ('g, 'm, 'c) sched \<Rightarrow> (('g, 'm, 'c) sched \<times> unit list) res" where
  "sched_handle ev s = Inr (case ev of
     Begin g acts \<Rightarrow> s\<lparr>todo := (todo s)(g := acts)\<rparr>
   | Step g \<Rightarrow> (case todo s g of
       Lock m # acts \<Rightarrow> s\<lparr>todo := (todo s)(g := acts), owner := (owner s)(m \<mapsto> g)\<rparr>
     | Unlock m # acts \<Rightarrow> s\<lparr>todo := (todo s)(g := acts), owner := (owner s)(m := None)\<rparr>
     | _ \<Rightarrow> s)
   | Handoff g h acts \<Rightarrow> s\<lparr>todo := (todo s)(g := tl (todo s g), h := acts)\<rparr>, [])"

definition idle :: "('g, 'm, 'c) sched" where
  "idle = \<lparr>todo = (\<lambda>_. []), owner = Map.empty\<rparr>"

text \<open>
  The goroutine \<open>g\<close> waits for \<open>h\<close>: for a mutex that \<open>h\<close> holds, or to send to \<open>h\<close> while \<open>h\<close> is in an iteration.
\<close>

definition listens :: "('g \<Rightarrow> ('m, 'c) act list \<Rightarrow> bool) \<Rightarrow> 'g \<Rightarrow> 'c \<Rightarrow> bool" where
  "listens body h c \<longleftrightarrow> (\<exists>acts. body h (Recv c # acts)) \<and> (\<forall>acts. body h acts \<longrightarrow> (\<exists>rest. acts = Recv c # rest))"

definition waits_for :: "('g \<Rightarrow> ('m, 'c) act list \<Rightarrow> bool) \<Rightarrow> ('g, 'm, 'c) sched \<Rightarrow> 'g \<Rightarrow> 'g \<Rightarrow> bool" where
  "waits_for body s g h = (case todo s g of
     Lock m # _ \<Rightarrow> owner s m = Some h
   | Send c # _ \<Rightarrow> listens body h c \<and> todo s h \<noteq> []
   | _ \<Rightarrow> False)"

definition can_step :: "('g \<Rightarrow> ('m, 'c) act list \<Rightarrow> bool) \<Rightarrow> ('g, 'm, 'c) sched \<Rightarrow> 'g \<Rightarrow> bool" where
  "can_step body s g \<longleftrightarrow> sched_enabled body (Step g) s \<or> (\<exists>h acts. sched_enabled body (Handoff g h acts) s)"

section \<open>A lock order\<close>

text \<open>
  An iteration climbs the rank: what it locks or sends on ranks above everything it holds, and the channel it
  was started from counts as held until its end.
\<close>

fun climbs :: "('m + 'c \<Rightarrow> nat) \<Rightarrow> ('m + 'c) list \<Rightarrow> ('m, 'c) act list \<Rightarrow> bool" where
  "climbs rk H [] = list_all (\<lambda>r. \<not> isl r) H"
| "climbs rk H (Lock m # acts) = (list_all (\<lambda>r. rk r < rk (Inl m)) H \<and> climbs rk (Inl m # H) acts)"
| "climbs rk H (Unlock m # acts) = (Inl m \<in> set H \<and> climbs rk (removeAll (Inl m) H) acts)"
| "climbs rk H (Send c # acts) = (list_all (\<lambda>r. rk r < rk (Inr c)) H \<and> climbs rk H acts)"
| "climbs rk H (Recv c # acts) = False"

fun body_climbs :: "('m + 'c \<Rightarrow> nat) \<Rightarrow> ('m, 'c) act list \<Rightarrow> bool" where
  "body_climbs rk (Recv c # acts) = climbs rk [Inr c] acts"
| "body_climbs rk acts = climbs rk [] acts"

locale lock_order =
  fixes body :: "'g \<Rightarrow> ('m, 'c) act list \<Rightarrow> bool" and rk :: "'m + 'c \<Rightarrow> nat" and top :: nat
  assumes ordered: "body g acts \<Longrightarrow> body_climbs rk acts"
    and served: "body g acts \<Longrightarrow> Send c \<in> set acts \<Longrightarrow> \<exists>h. h \<noteq> g \<and> listens body h c"
    and bounded: "rk r < top"
begin

text \<open>The invariant: what a goroutine holds lets the rest of its iteration climb.\<close>

definition holds :: "('g, 'm, 'c) sched \<Rightarrow> 'g \<Rightarrow> ('m + 'c) list \<Rightarrow> bool" where
  "holds s g H \<longleftrightarrow> climbs rk H (todo s g) \<and> (\<forall>m. Inl m \<in> set H \<longleftrightarrow> owner s m = Some g) \<and>
     (\<forall>c. listens body g c \<longrightarrow> todo s g \<noteq> [] \<longrightarrow> Inr c \<in> set H) \<and>
     (\<forall>c. Send c \<in> set (todo s g) \<longrightarrow> (\<exists>h. h \<noteq> g \<and> listens body h c))"

definition sched_inv :: "('g, 'm, 'c) sched \<Rightarrow> bool" where
  "sched_inv s \<longleftrightarrow> (\<forall>g. \<exists>H. holds s g H)"

lemma idle_inv: "sched_inv idle"
  unfolding sched_inv_def by (intro allI exI [of _ "[]"]) (simp add: holds_def idle_def)

lemma listens_first: "listens body g c \<Longrightarrow> body g acts \<Longrightarrow> \<exists>rest. acts = Recv c # rest"
  by (simp add: listens_def)

lemma begin_keeps:
  assumes "holds s k H" "todo s g = []" "body g acts" "\<not> receives_first acts"
  shows "\<exists>H. holds (s\<lparr>todo := (todo s)(g := acts)\<rparr>) k H"
proof (cases "k = g")
  case True
  have "\<not> listens body g c" for c using listens_first [OF _ assms(3)] assms(4) by fastforce
  moreover have "climbs rk [] acts"
    using ordered [OF assms(3)] assms(4) by (cases acts rule: receives_first.cases) auto
  moreover have "owner s m \<noteq> Some g" for m using assms(1,2) True by (auto simp: holds_def list_all_iff isl_def)
  ultimately show ?thesis using served [OF assms(3)] True by (intro exI [of _ "[]"]) (simp add: holds_def)
next
  case False
  with assms(1) show ?thesis by (intro exI [of _ H]) (simp add: holds_def)
qed

lemma lock_keeps:
  assumes "holds s k H" "todo s g = Lock m # acts" "owner s m = None"
  shows "\<exists>H. holds (s\<lparr>todo := (todo s)(g := acts), owner := (owner s)(m \<mapsto> g)\<rparr>) k H"
  using assms by (intro exI [of _ "if k = g then Inl m # H else H"]) (auto simp: holds_def)

lemma unlock_keeps:
  assumes "holds s k H" "todo s g = Unlock m # acts" "owner s m = Some g"
  shows "\<exists>H. holds (s\<lparr>todo := (todo s)(g := acts), owner := (owner s)(m := None)\<rparr>) k H"
  using assms by (intro exI [of _ "if k = g then removeAll (Inl m) H else H"]) (auto simp: holds_def)

lemma handoff_keeps:
  assumes "holds s k H" "todo s g = Send c # rest" "g \<noteq> h" "todo s h = []" "body h (Recv c # acts)"
  shows "\<exists>H. holds (s\<lparr>todo := (todo s)(g := rest, h := acts)\<rparr>) k H"
proof (cases "k = h")
  case True
  have "c' = c" if "listens body h c'" for c' using listens_first [OF that assms(5)] by simp
  moreover have "climbs rk [Inr c] acts" using ordered [OF assms(5)] by simp
  moreover have "owner s m \<noteq> Some h" for m using assms(1,4) True by (auto simp: holds_def list_all_iff isl_def)
  ultimately show ?thesis
    using served [OF assms(5)] True by (intro exI [of _ "[Inr c]"]) (auto simp: holds_def)
next
  case False
  with assms(1-3) show ?thesis by (intro exI [of _ H]) (auto simp: holds_def)
qed

lemma sched_inv_step:
  assumes "sched_inv s" "sched_enabled body ev s" "sched_handle ev s = Inr (s', outs)"
  shows "sched_inv s'"
  unfolding sched_inv_def
proof
  fix k
  from assms(1) obtain H where "holds s k H" unfolding sched_inv_def by blast
  then show "\<exists>H. holds s' k H"
    using assms(2,3) begin_keeps lock_keeps unlock_keeps handoff_keeps
    by (fastforce simp: sched_enabled_def sched_handle_def split: sched_event.splits list.splits act.splits)
qed

text \<open>
  Whoever is waited for wants something of a higher rank, so waiting is acyclic, and who waits, waits in the end
  for a goroutine that can take its next step.
\<close>

fun headroom :: "('m, 'c) act list \<Rightarrow> nat" where
  "headroom (Lock m # acts) = top - rk (Inl m)"
| "headroom (Send c # acts) = top - rk (Inr c)"
| "headroom acts = 0"

lemma headroom_below:
  assumes "climbs rk H acts" "r \<in> set H"
  shows "headroom acts < top - rk r"
  using assms bounded [of r]
  by (cases acts rule: headroom.cases) (auto simp: list_all_iff intro!: diff_less_mono2)

lemma waits_for_climbs:
  assumes "sched_inv s" "waits_for body s g h"
  shows "todo s h \<noteq> [] \<and> headroom (todo s h) < headroom (todo s g)"
proof -
  from assms(1) obtain H where H: "holds s h H" unfolding sched_inv_def by blast
  from assms(2) consider m acts where "todo s g = Lock m # acts" "owner s m = Some h"
    | c acts where "todo s g = Send c # acts" "listens body h c" "todo s h \<noteq> []"
    by (auto simp: waits_for_def split: list.splits act.splits)
  then show ?thesis
  proof cases
    case (1 m acts)
    with H have "climbs rk H (todo s h)" "Inl m \<in> set H" by (auto simp: holds_def)
    with headroom_below 1 show ?thesis by (fastforce simp: list_all_iff)
  next
    case (2 c acts)
    with H have "climbs rk H (todo s h)" "Inr c \<in> set H" by (auto simp: holds_def)
    with headroom_below 2 show ?thesis by auto
  qed
qed

lemma no_wait_cycle:
  assumes "sched_inv s" shows "\<not> (waits_for body s)\<^sup>+\<^sup>+ g g"
proof -
  have "headroom (todo s h) < headroom (todo s g)" if "(waits_for body s)\<^sup>+\<^sup>+ g h" for g h
    using that by (induction rule: tranclp_induct) (use waits_for_climbs [OF assms] in \<open>blast intro: less_trans\<close>)+
  then show ?thesis by blast
qed

lemma steps_or_waits:
  assumes "sched_inv s" "todo s g \<noteq> []"
  shows "can_step body s g \<or> (\<exists>h. waits_for body s g h)"
proof -
  from assms(1) obtain H where H: "holds s g H" unfolding sched_inv_def by blast
  obtain a acts where a: "todo s g = a # acts" using assms(2) by (cases "todo s g") auto
  show ?thesis
  proof (cases a)
    case (Lock m)
    with a show ?thesis by (cases "owner s m") (auto simp: can_step_def sched_enabled_def waits_for_def)
  next
    case (Unlock m)
    with a H show ?thesis by (auto simp: can_step_def sched_enabled_def holds_def)
  next
    case (Send c)
    with a H obtain h where h: "h \<noteq> g" "listens body h c" unfolding holds_def by auto
    with a Send show ?thesis
      by (cases "todo s h") (auto simp: can_step_def sched_enabled_def waits_for_def listens_def)
  next
    case (Recv c)
    with a H show ?thesis by (simp add: holds_def)
  qed
qed

lemma progress:
  assumes "sched_inv s" "todo s g \<noteq> []"
  shows "\<exists>h. (waits_for body s)\<^sup>*\<^sup>* g h \<and> can_step body s h"
  using assms(2)
proof (induction "headroom (todo s g)" arbitrary: g rule: less_induct)
  case less
  from steps_or_waits [OF assms(1) less.prems] show ?case
  proof
    assume "\<exists>h. waits_for body s g h"
    then obtain h where h: "waits_for body s g h" by blast
    with less.hyps waits_for_climbs [OF assms(1) h]
    obtain h' where "(waits_for body s)\<^sup>*\<^sup>* h h'" "can_step body s h'" by blast
    with h show ?thesis by (meson converse_rtranclp_into_rtranclp)
  qed blast
qed

end

sublocale lock_order \<subseteq> schedule: invariant_system "sched_enabled body" sched_handle sched_inv
  by unfold_locales (rule sched_inv_step)

section \<open>The goroutines of the daemon\<close>

datatype mutex = CfgLock | DBLock | IntfLock nat

datatype channel = HelloChan nat | UpdateChan nat | SendChan nat | TriggerSPF

datatype goroutine = Decision nat | UpdateInput nat | UpdateSend nat | HelloSend nat | HelloRecv nat
  | RecvPdus nat | SendPdus nat | Rpc nat

text \<open>A loop over all interfaces that locks and unlocks each, as in \<^verbatim>\<open>floodNewLsp\<close>.\<close>

definition lock_intfs :: "nat \<Rightarrow> (mutex, channel) act list" where
  "lock_intfs n = concat (map (\<lambda>i. [Lock (IntfLock i), Unlock (IntfLock i)]) [0..<n])"

definition generateLocalLsp_acts :: "nat \<Rightarrow> (mutex, channel) act list" where
  "generateLocalLsp_acts n = [Lock DBLock, Unlock DBLock] @ lock_intfs n"

text \<open>The paths through one iteration of each goroutine of a daemon with \<open>n\<close> interfaces, on the interface \<open>i\<close>.\<close>

definition isisDecision_acts :: "(mutex, channel) act list list" where
  "isisDecision_acts = [
     [Recv TriggerSPF],
     [Recv TriggerSPF, Lock DBLock, Unlock DBLock]]"

definition isisUpdateInput_acts :: "nat \<Rightarrow> nat \<Rightarrow> (mutex, channel) act list list" where
  "isisUpdateInput_acts n i = [
     [Recv (UpdateChan i), Lock DBLock, Unlock DBLock, Send TriggerSPF],
     [Recv (UpdateChan i), Lock DBLock] @ lock_intfs n @ [Unlock DBLock, Send TriggerSPF]]"

definition isisUpdate_acts :: "nat \<Rightarrow> nat \<Rightarrow> (mutex, channel) act list" where
  "isisUpdate_acts i marked = Lock (IntfLock i) # replicate marked (Send (SendChan i)) @ [Unlock (IntfLock i)]"

definition isisHelloSend_acts :: "nat \<Rightarrow> (mutex, channel) act list list" where
  "isisHelloSend_acts i = [
     [Lock (IntfLock i), Lock CfgLock, Unlock CfgLock, Unlock (IntfLock i)],
     [Lock (IntfLock i), Lock CfgLock, Send (SendChan i), Unlock CfgLock, Unlock (IntfLock i)]]"

definition isisHelloRecv_acts :: "nat \<Rightarrow> nat \<Rightarrow> (mutex, channel) act list list" where
  "isisHelloRecv_acts n i = (let twice = [Lock (IntfLock i), Unlock (IntfLock i), Lock (IntfLock i), Unlock (IntfLock i)] in [
     [Recv (HelloChan i)],
     [Recv (HelloChan i), Lock (IntfLock i), Unlock (IntfLock i)],
     Recv (HelloChan i) # twice @ [Send (SendChan i)],
     Recv (HelloChan i) # twice @ generateLocalLsp_acts n,
     Recv (HelloChan i) # twice])"

definition recvPdus_acts :: "nat \<Rightarrow> (mutex, channel) act list list" where
  "recvPdus_acts i = [[], [Send (HelloChan i)], [Send (UpdateChan i)]]"

definition sendPdus_acts :: "nat \<Rightarrow> (mutex, channel) act list list" where
  "sendPdus_acts i = [[Recv (SendChan i)]]"

text \<open>The requests of the gRPC server.  All but \<^verbatim>\<open>GetIntf\<close> only lock the configuration.\<close>

definition request_acts :: "(mutex, channel) act list" where
  "request_acts = [Lock CfgLock, Unlock CfgLock]"

definition GetIntf_acts :: "nat \<Rightarrow> (mutex, channel) act list" where
  "GetIntf_acts n = Lock CfgLock # lock_intfs n @ [Unlock CfgLock]"

text \<open>
  The goroutines \<^verbatim>\<open>main\<close> starts, with one for each request of the gRPC server, which ends with its only iteration.
  The flag \<open>intf\<close> says whether \<^verbatim>\<open>GetIntf\<close> is among the requests.
\<close>

fun iteration :: "bool \<Rightarrow> nat \<Rightarrow> goroutine \<Rightarrow> (mutex, channel) act list \<Rightarrow> bool" where
  "iteration intf n (Decision i) acts = (i < n \<and> acts \<in> set isisDecision_acts)"
| "iteration intf n (UpdateInput i) acts = (i < n \<and> acts \<in> set (isisUpdateInput_acts n i))"
| "iteration intf n (UpdateSend i) acts = (i < n \<and> acts = isisUpdate_acts i (length acts - 2))"
| "iteration intf n (HelloSend i) acts = (i < n \<and> acts \<in> set (isisHelloSend_acts i))"
| "iteration intf n (HelloRecv i) acts = (i < n \<and> acts \<in> set (isisHelloRecv_acts n i))"
| "iteration intf n (RecvPdus i) acts = (i < n \<and> acts \<in> set (recvPdus_acts i))"
| "iteration intf n (SendPdus i) acts = (i < n \<and> acts \<in> set (sendPdus_acts i))"
| "iteration intf n (Rpc k) acts = (acts = request_acts \<or> intf \<and> acts = GetIntf_acts n)"

lemmas acts_defs = isisDecision_acts_def isisUpdateInput_acts_def isisHelloSend_acts_def isisHelloRecv_acts_def
  recvPdus_acts_def sendPdus_acts_def request_acts_def generateLocalLsp_acts_def

lemma isisUpdate_iteration: "i < n \<Longrightarrow> iteration intf n (UpdateSend i) (isisUpdate_acts i marked)"
  by (simp add: isisUpdate_acts_def)

text \<open>The order of the locks and channels.\<close>

fun rank :: "mutex + channel \<Rightarrow> nat" where
  "rank (Inr (HelloChan i)) = 0"
| "rank (Inr (UpdateChan i)) = 0"
| "rank (Inr TriggerSPF) = 1"
| "rank (Inl DBLock) = 2"
| "rank (Inl (IntfLock i)) = 3"
| "rank (Inl CfgLock) = 4"
| "rank (Inr (SendChan i)) = 5"

lemma climbs_lock_intfs:
  assumes "list_all (\<lambda>r. rank r < 3) H"
  shows "climbs rank H (lock_intfs n @ acts) \<longleftrightarrow> climbs rank H acts"
proof -
  have keep: "removeAll (Inl (IntfLock i)) H = H" for i
    using assms by (intro removeAll_id) (auto simp: list_all_iff)
  have "climbs rank H (concat (map (\<lambda>i. [Lock (IntfLock i), Unlock (IntfLock i)]) is) @ acts) = climbs rank H acts" for "is"
    by (induction "is") (use assms keep in simp_all)
  then show ?thesis by (simp add: lock_intfs_def)
qed

lemma climbs_sends:
  "list_all (\<lambda>r. rank r < rank (Inr c)) H \<Longrightarrow> climbs rank H (replicate k (Send c) @ acts) \<longleftrightarrow> climbs rank H acts"
  by (induction k) simp_all

lemma isisUpdate_climbs: "body_climbs rank (isisUpdate_acts i marked)"
  by (simp add: isisUpdate_acts_def climbs_sends)

lemma iteration_climbs:
  assumes "iteration False n g acts" shows "body_climbs rank acts"
proof (cases g)
  case (UpdateSend i)
  with assms have "acts = isisUpdate_acts i (length acts - 2)" by simp
  then show ?thesis by (metis isisUpdate_climbs)
qed (use assms in \<open>auto simp: acts_defs Let_def climbs_lock_intfs climbs_lock_intfs [where acts = "[]", simplified]\<close>)

lemma no_send_lock_intfs [simp]: "Send c \<notin> set (lock_intfs n)"
  by (auto simp: lock_intfs_def)

lemma iteration_listens:
  assumes "i < n"
  shows "listens (iteration intf n) (HelloRecv i) (HelloChan i)" "listens (iteration intf n) (UpdateInput i) (UpdateChan i)"
    "listens (iteration intf n) (SendPdus i) (SendChan i)" "listens (iteration intf n) (Decision i) TriggerSPF"
  using assms by (auto simp: listens_def acts_defs Let_def)

lemma channel_served:
  assumes "i < n"
  shows "g \<noteq> HelloRecv i \<Longrightarrow> \<exists>h. h \<noteq> g \<and> listens (iteration intf n) h (HelloChan i)"
    and "g \<noteq> UpdateInput i \<Longrightarrow> \<exists>h. h \<noteq> g \<and> listens (iteration intf n) h (UpdateChan i)"
    and "g \<noteq> SendPdus i \<Longrightarrow> \<exists>h. h \<noteq> g \<and> listens (iteration intf n) h (SendChan i)"
    and "g \<noteq> Decision i \<Longrightarrow> \<exists>h. h \<noteq> g \<and> listens (iteration intf n) h TriggerSPF"
  using iteration_listens [OF assms] by metis+

lemma isisUpdate_sends: "Send c \<in> set (isisUpdate_acts i marked) \<Longrightarrow> c = SendChan i"
  by (simp add: isisUpdate_acts_def split: if_splits)

lemma iteration_served:
  assumes "iteration intf n g acts" "Send c \<in> set acts"
  shows "\<exists>h. h \<noteq> g \<and> listens (iteration intf n) h c"
proof (cases g)
  case (UpdateSend i)
  with assms have "i < n" "Send c \<in> set (isisUpdate_acts i (length acts - 2))" by auto
  with isisUpdate_sends have "c = SendChan i" "i < n" by blast+
  with UpdateSend show ?thesis by (simp add: channel_served)
qed (use assms in \<open>auto simp: acts_defs GetIntf_acts_def Let_def intro: channel_served\<close>)

interpretation locks: lock_order "iteration False n" rank 6 for n
proof
  show "rank r < 6" for r by (cases r rule: rank.cases) simp_all
qed (fact iteration_climbs, fact iteration_served)

text \<open>Two goroutines that hold what the other wants to lock stay where they are.\<close>

definition locked_out ::
  "'g \<Rightarrow> 'm \<Rightarrow> ('m, 'c) act list \<Rightarrow> 'g \<Rightarrow> 'm \<Rightarrow> ('m, 'c) act list \<Rightarrow> ('g, 'm, 'c) sched \<Rightarrow> bool" where
  "locked_out g m acts h m' acts' s \<longleftrightarrow> todo s g = Lock m # acts \<and> todo s h = Lock m' # acts' \<and>
     owner s m = Some h \<and> owner s m' = Some g"

interpretation stuck: invariant_system "sched_enabled body" sched_handle "locked_out g m acts h m' acts'"
  for body g m acts h m' acts'
  by unfold_locales (auto simp: sched_enabled_def sched_handle_def locked_out_def
    split: sched_event.splits list.splits act.splits)

abbreviation goroutines_run :: "bool \<Rightarrow> nat \<Rightarrow> (goroutine, mutex, channel) sched \<Rightarrow> (goroutine, mutex, channel) sched_event list \<Rightarrow>
    unit list \<Rightarrow> (goroutine, mutex, channel) sched \<Rightarrow> bool" where
  "goroutines_run intf n \<equiv> runs (sched_enabled (iteration intf n)) sched_handle"

lemma GetIntf_meets_isisHelloSend:
  assumes "0 < n"
  shows "\<exists>es outs s acts acts'. goroutines_run True n idle es outs s \<and>
    locked_out (Rpc k) (IntfLock 0) acts (HelloSend 0) CfgLock acts' s"
proof -
  have "iteration True n (Rpc k) (Lock CfgLock # lock_intfs n @ [Unlock CfgLock])" by (simp add: GetIntf_acts_def)
  moreover have "lock_intfs n = Lock (IntfLock 0) # tl (lock_intfs n)"
    using assms by (simp add: lock_intfs_def upt_conv_Cons)
  ultimately have rpc: "iteration True n (Rpc k) (Lock CfgLock # Lock (IntfLock 0) # tl (lock_intfs n) @ [Unlock CfgLock])"
    by (metis append_Cons)
  have hello: "iteration True n (HelloSend 0) [Lock (IntfLock 0), Lock CfgLock, Unlock CfgLock, Unlock (IntfLock 0)]"
    using assms by (simp add: isisHelloSend_acts_def)
  let ?es = "[Begin (Rpc k) (Lock CfgLock # Lock (IntfLock 0) # tl (lock_intfs n) @ [Unlock CfgLock]), Step (Rpc k),
    Begin (HelloSend 0) [Lock (IntfLock 0), Lock CfgLock, Unlock CfgLock, Unlock (IntfLock 0)], Step (HelloSend 0)]"
  show ?thesis
    by (rule exI [of _ ?es], intro exI conjI,
        rule runs_Cons, simp add: sched_enabled_def idle_def rpc del: iteration.simps, simp add: sched_handle_def,
        rule runs_Cons, simp add: sched_enabled_def idle_def, simp add: sched_handle_def idle_def,
        rule runs_Cons, simp add: sched_enabled_def hello del: iteration.simps, simp add: sched_handle_def,
        rule runs_Cons, simp add: sched_enabled_def, simp add: sched_handle_def, rule runs_nil,
        simp add: locked_out_def)
qed

section \<open>Properties\<close>

text \<open>
  C18: The goroutines cannot deadlock as long as the request \<^verbatim>\<open>GetIntf\<close> is not served: in every state they reach, no
  goroutines wait for each other in a circle, and every goroutine in the middle of an iteration can take its
  next step or waits, directly or through others, for one that can.
\<close>

theorem goroutines_make_progress:
  assumes "goroutines_run False n idle es outs s"
  shows "\<not> (waits_for (iteration False n) s)\<^sup>+\<^sup>+ g g \<and>
    (todo s g \<noteq> [] \<longrightarrow> (\<exists>h. (waits_for (iteration False n) s)\<^sup>*\<^sup>* g h \<and> can_step (iteration False n) s h))"
  using locks.no_wait_cycle locks.progress locks.schedule.runs_inv [OF assms locks.idle_inv] by blast

theorem goroutines_make_progress_witness:
  "\<exists>es outs s. goroutines_run False 2 idle es outs s \<and> waits_for (iteration False 2) s (UpdateSend 1) (HelloSend 1) \<and>
    \<not> (waits_for (iteration False 2) s)\<^sup>+\<^sup>+ (UpdateSend 1) (UpdateSend 1) \<and>
    (\<exists>h. (waits_for (iteration False 2) s)\<^sup>*\<^sup>* (UpdateSend 1) h \<and> can_step (iteration False 2) s h)"
proof -
  let ?send = "[Lock (IntfLock 1), Lock CfgLock, Send (SendChan 1), Unlock CfgLock, Unlock (IntfLock 1)]"
  have bodies: "iteration False 2 (HelloSend 1) ?send" "iteration False 2 (UpdateSend 1) [Lock (IntfLock 1), Unlock (IntfLock 1)]"
    using isisUpdate_iteration [of 1 2 False 0] by (simp_all add: isisHelloSend_acts_def isisUpdate_acts_def)
  have "\<exists>outs s. goroutines_run False 2 idle
      [Begin (HelloSend 1) ?send, Step (HelloSend 1), Begin (UpdateSend 1) [Lock (IntfLock 1), Unlock (IntfLock 1)]] outs s \<and>
      todo s (UpdateSend 1) \<noteq> [] \<and> waits_for (iteration False 2) s (UpdateSend 1) (HelloSend 1)"
    by (intro exI conjI,
        rule runs_Cons, simp add: sched_enabled_def idle_def bodies [unfolded One_nat_def] del: iteration.simps, simp add: sched_handle_def idle_def,
        rule runs_Cons, simp add: sched_enabled_def idle_def bodies [unfolded One_nat_def] del: iteration.simps, simp add: sched_handle_def idle_def,
        rule runs_Cons, simp add: sched_enabled_def idle_def bodies [unfolded One_nat_def] del: iteration.simps, simp add: sched_handle_def idle_def, rule runs_nil,
        simp_all add: waits_for_def)
  with goroutines_make_progress [where n = 2 and g = "UpdateSend 1"] show ?thesis by blast
qed

text \<open>
  C19: Serving \<^verbatim>\<open>GetIntf\<close> can stop the daemon for good: it locks the configuration and then the interfaces, while
  \<^verbatim>\<open>isisHelloSend\<close> locks an interface and then the configuration.  When each has its first lock, they wait for each
  other, no later event frees them, and the configuration stays locked, so every later request waits as well.
\<close>

theorem GetIntf_deadlocks:
  assumes "0 < n"
  shows "\<exists>es outs s. goroutines_run True n idle es outs s \<and>
    (\<forall>es' outs' s'. goroutines_run True n s es' outs' s' \<longrightarrow>
      waits_for (iteration True n) s' (Rpc k) (HelloSend 0) \<and> waits_for (iteration True n) s' (HelloSend 0) (Rpc k) \<and>
      todo s' (Rpc k) = todo s (Rpc k) \<and> todo s' (HelloSend 0) = todo s (HelloSend 0) \<and> owner s' CfgLock = Some (Rpc k))"
proof -
  obtain es outs s acts acts' where run: "goroutines_run True n idle es outs s"
    and stuck: "locked_out (Rpc k) (IntfLock 0) acts (HelloSend 0) CfgLock acts' s"
    using GetIntf_meets_isisHelloSend [OF assms] by blast
  have "locked_out (Rpc k) (IntfLock 0) acts (HelloSend 0) CfgLock acts' s'"
    if "goroutines_run True n s es' outs' s'" for es' outs' s'
    using stuck.runs_inv [OF that stuck] .
  with run stuck show ?thesis
    by (intro exI [of _ es] exI [of _ outs] exI [of _ s]) (simp add: locked_out_def waits_for_def)
qed

theorem GetIntf_deadlocks_witness:
  "\<exists>es outs s. goroutines_run True 2 idle es outs s \<and> waits_for (iteration True 2) s (Rpc 7) (HelloSend 0) \<and>
    waits_for (iteration True 2) s (HelloSend 0) (Rpc 7)"
proof -
  have "0 < (2 :: nat)" by simp
  from GetIntf_deadlocks [OF this, of 7] runs_nil show ?thesis by metis
qed

end
