(* ===== verification/Spec2Isabelle.thy ===== *)
theory Spec2Isabelle
  imports Prelude Transition Avl Ids Wire Config Lsp Update Hello Dijkstra Spf Decision Report Daemon Network Convergence Rpc Sockets Goroutines
begin

text \<open>
  A verification of the routing daemon go-is-is: a subset of IS-IS (level 1, broadcast links, IPv4) that forms
  adjacencies with its neighbours, floods link-state PDUs (LSPs), computes shortest paths and asks the kernel for routes.

  \<^bold>\<open>The program.\<close>  \<^verbatim>\<open>src/main.go\<close> boots the node from the machine's interfaces and starts, per interface, goroutines for
  hellos (\<^verbatim>\<open>src/hello.go\<close>), for the reception and the flooding of LSPs (\<^verbatim>\<open>src/update.go\<close>), for the decision process
  (\<^verbatim>\<open>src/decision.go\<close>) and for frames in and out (\<^verbatim>\<open>src/ethernet.go\<close>); and a gRPC server for the configuration and for
  requests about the state, which \<^verbatim>\<open>src/scripts/show_run.go\<close> prints.  The goroutines share the configuration, the
  link-state database \<^verbatim>\<open>UpdateDB\<close> and the topology database \<^verbatim>\<open>TopoDB\<close>, both AVL trees of \<^verbatim>\<open>src/avl.go\<close>, and pass frames
  and triggers over unbuffered channels.

  \<^bold>\<open>The theories,\<close> each with the code it models and what it shows:

  \<^item> \<open>Prelude\<close>: Go's run-time panics and code that may panic (\<open>'a res\<close>, \<open>bind_res\<close>, \<open>map_res\<close>, \<open>fold_res\<close>), machine
    integers, sorted association lists.

  \<^item> \<open>Transition\<close>: runs of event-driven systems (\<open>runs\<close>), with the locales \<open>invariant_system\<close> and \<open>monotone_system\<close>.

  \<^item> \<open>Avl\<close> (\<^verbatim>\<open>src/avl.go\<close>): the tree with its stored heights.  Insertion refines the update of a finite map; search,
    update and the iterative traversal are what they should be; deletion keeps the invariant but loses data; every sequence of
    operations from the nil tree keeps true heights, which grow logarithmically.  The locale \<open>ordered_store\<close> is what both databases rely on.

  \<^item> \<open>Ids\<close> (\<^verbatim>\<open>main.go\<close>, \<^verbatim>\<open>update.go\<close>): system IDs, LSP IDs, keys; round trips and injectivity.  The library functions are
    those of Go 1.9.2, the release of \<^verbatim>\<open>src/topologies/Dockerfile\<close>.

  \<^item> \<open>Wire\<close> (\<^verbatim>\<open>ethernet.go\<close>, \<^verbatim>\<open>hello.go\<close>, \<^verbatim>\<open>update.go\<close>): slices with their capacity, TLVs, headers, frames.  What is serialized
    is parsed back; what the TLV parser does with cut-off input.

  \<^item> \<open>Config\<close> (\<^verbatim>\<open>main.go\<close>): the state of a node as records, the boot sequence, the configuration requests; when the boot
    sequence returns, when it panics, and the node it leaves.

  \<^item> \<open>Lsp\<close> (\<^verbatim>\<open>update.go\<close>): the TLVs a node advertises and reads; the limits of the one-byte length.

  \<^item> \<open>Update\<close> (\<^verbatim>\<open>update.go\<close>): reception, flooding, the local LSP.  The reception refines the abstract update \<open>accept\<close> of
    a map from keys to LSPs; sequences of receptions end with the newest LSPs in any order; marked LSPs are sent and arrive.

  \<^item> \<open>Hello\<close> (\<^verbatim>\<open>hello.go\<close>): the two goroutines of an interface, the adjacency state machine, the three-way handshake.

  \<^item> \<open>Dijkstra\<close>: walks, least costs and the invariant of a label-setting computation, in the locale \<open>link_state_graph\<close>;
    no code.

  \<^item> \<open>Spf\<close>, \<open>Decision\<close> (\<^verbatim>\<open>decision.go\<close>): the shortest-path loop, its termination, and that it computes the least costs
    of \<open>Dijkstra\<close>; the topology database and the route requests; why next hops go stale and when costs overflow.

  \<^item> \<open>Report\<close> (\<^verbatim>\<open>main.go\<close>, \<^verbatim>\<open>update.go\<close>, \<^verbatim>\<open>decision.go\<close>): the state requests and the texts they return, and when printing the
    database panics.

  \<^item> \<open>Daemon\<close> (\<^verbatim>\<open>main.go\<close>): the goroutines and the requests composed into one system of events with the pending trigger of
    every interface; the invariant of all reachable states, what no event undoes, and all causes of a panic.

  \<^item> \<open>Network\<close>: any number of daemons and the frames between them; no event makes one of them panic.

  \<^item> \<open>Convergence\<close>: two neighbours run through the handshake, the exchange of LSPs and the decision process and end with
    routes to each other's networks.

  \<^item> \<open>Rpc\<close> (\<^verbatim>\<open>scripts/show_run.go\<close>): the client; exactly what it prints, and how the report of an LSP relates to what
    the decision process reads.

  \<^item> \<open>Sockets\<close> (\<^verbatim>\<open>ethernet.go\<close>): opening the raw sockets, sending and receiving frames.

  \<^item> \<open>Goroutines\<close> (the locks and channels of all files): the order in which the goroutines lock, send and receive.  The
    locale \<open>lock_order\<close> proves progress from a rank of locks and channels; the daemon without the request \<^verbatim>\<open>GetIntf\<close>
    satisfies it, with the request it can deadlock.

  \<^bold>\<open>How the model corresponds to the code.\<close>  Definitions have the names of the Go functions.  The body of a goroutine's
  endless loop is a function \<open>..._step\<close> on the record \<open>node\<close>, which holds the globals \<^verbatim>\<open>cfg\<close>, \<^verbatim>\<open>UpdateDB\<close>, \<^verbatim>\<open>TopoDB\<close> and
  \<^verbatim>\<open>sequenceNumber\<close>; it returns the new node and what was sent, or the panic.  \<open>Daemon.event\<close> interleaves these bodies, each as
  one step; \<open>Goroutines\<close> looks inside them at the locks and channels only.  A nil pointer is \<open>None\<close>, the linked list of TLVs
  is a list, a pointer to an adjacency is the index of its interface.  Integers that can wrap around are words of their
  width: TLV lengths, metrics, distances, sequence numbers, keys.  Go maps are functions to options; their random iteration
  order is an argument (\<open>FloodTimer\<close>).  Results of the operating system are arguments: the interfaces and routes at boot,
  hardware addresses, system calls, the requests of the client.

  \<^bold>\<open>Bounds.\<close>  No definition uses fuel; every loop terminates by a measure, and the shortest-path loop by
  \<open>spf_measure\<close>.  An LSP carries at most 23 neighbours and 21 prefixes, which the code does not check (the theory \<open>Lsp\<close>), so the theorems of \<open>Network\<close> and
  \<open>Convergence\<close> have \<open>within_limits\<close> as a hypothesis: at most 23 interfaces and 21 connected prefixes per daemon.  The million LSPs of \<open>Network\<close> keep every distance below the largest
  32-bit number, at the cost 10 per link that the daemon advertises; \<open>no_overflow\<close> is the same for arbitrary costs.

  \<^bold>\<open>Not modelled.\<close>  Logging; the signal handler, which exits; the generated code of \<^verbatim>\<open>src/config\<close> and the start of the
  gRPC server; what netlink does with a route request.  Data races: some code reads the databases without their lock
  (\<^verbatim>\<open>isisUpdate\<close>, \<^verbatim>\<open>GetLsp\<close>, \<^verbatim>\<open>GetTopo\<close>); the model takes one loop body after the other.  Time does not occur: timers are events
  that can happen at any moment.  In \<open>Daemon\<close>, \<open>Network\<close> and \<open>Convergence\<close> all sockets are open and the lookup of a hardware address
  (\<^verbatim>\<open>getMac\<close>) succeeds; \<open>Sockets\<close> has the panics of the other cases.  A loop body is one step there even where the code holds no
  lock over all of it: \<^verbatim>\<open>isisHelloRecv\<close> between lines 239 and 244 of \<^verbatim>\<open>src/hello.go\<close>, \<^verbatim>\<open>generateLocalLsp\<close> between lines 409 and 415 of
  \<^verbatim>\<open>src/update.go\<close>.  The capacity of a TLV's value is taken to be its length, as it is for a TLV parsed from a frame; the TLVs a node builds
  itself may have more, but hold all the bytes their length announces, up to the limits above.
\<close>

end
